(* ===== verification/Prelude.thy ===== *)
theory Prelude
  imports Main "HOL-Library.Word"
begin

text \<open>
  Shared vocabulary of the development: the machine integers of the kernel, its containers
  (\<open>BTreeMap\<close>, \<open>Vec\<close>, byte slices), result values, and the generic lemmas on them.

  \<^item> \<open>u8\<close>, \<open>u16\<close>, \<open>u32\<close>, \<open>u64\<close> are machine words. A \<open>usize\<close> is a natural number below
    \<open>2 ^ 64\<close>; an operation of the source that can overflow is written with one of
    \<open>wrap_add\<close>, \<open>wrap_mul\<close>, \<open>sat_add\<close>, \<open>checked_add\<close>, \<open>checked_sub\<close> below. The kernel is
    built with \<^verbatim>\<open>cargo build --release\<close> (\<^verbatim>\<open>Makefile\<close>), so plain \<open>+\<close> and \<open>*\<close> wrap.
  \<^item> A \<open>Result<T, E>\<close> is the sum \<open>'e + 'a\<close> with \<open>Inl\<close> for \<open>Err\<close>.
  \<^item> A panic (index out of range, \<open>unwrap\<close> of \<open>None\<close>) is the value \<open>Panic\<close> of \<open>outcome\<close>.
  \<^item> A \<open>BTreeMap<K, V>\<close> is an association list in key order, which is its iteration order.
  \<^item> \<open>out: &mut [u8]\<close> arguments are passed in and returned updated.
\<close>

unbundle bit_operations_syntax

section \<open>Machine integers\<close>

type_synonym u8 = "8 word"
type_synonym u16 = "16 word"
type_synonym u32 = "32 word"
type_synonym u64 = "64 word"
type_synonym usize = nat
type_synonym bytes = "u8 list"

datatype 'a outcome = Ret 'a | Panic

named_theorems usize_arith \<open>when the wrapped, saturated and checked operations are exact\<close>

definition usize_modulus :: nat where
  "usize_modulus = 2 ^ 64"

definition usize_max :: nat where
  "usize_max = 2 ^ 64 - 1"

definition wrap_add :: "usize \<Rightarrow> usize \<Rightarrow> usize" where
  "wrap_add a b = (a + b) mod usize_modulus"

definition wrap_mul :: "usize \<Rightarrow> usize \<Rightarrow> usize" where
  "wrap_mul a b = (a * b) mod usize_modulus"

definition wrap_sub :: "usize \<Rightarrow> usize \<Rightarrow> usize" where
  "wrap_sub a b = (a + usize_modulus - b) mod usize_modulus"

definition sat_add :: "usize \<Rightarrow> usize \<Rightarrow> usize" where
  "sat_add a b = min (a + b) usize_max"

definition checked_add :: "usize \<Rightarrow> usize \<Rightarrow> usize option" where
  "checked_add a b = (if a + b \<le> usize_max then Some (a + b) else None)"

definition checked_sub :: "usize \<Rightarrow> usize \<Rightarrow> usize option" where
  "checked_sub a b = (if b \<le> a then Some (a - b) else None)"

definition checked_mul :: "usize \<Rightarrow> usize \<Rightarrow> usize option" where
  "checked_mul a b = (if a * b \<le> usize_max then Some (a * b) else None)"

text \<open>\<open>v & !(align - 1)\<close> for a power of two \<open>align\<close>: the largest multiple below \<open>v\<close>.\<close>

definition align_down :: "usize \<Rightarrow> usize \<Rightarrow> usize" where
  "align_down v align = v - v mod align"

definition div_ceil :: "usize \<Rightarrow> usize \<Rightarrow> usize" where
  "div_ceil a b = (a + b - 1) div b"

definition PAGE_SIZE :: usize where
  "PAGE_SIZE = 4096"

section \<open>Vectors and slices\<close>

fun position :: "('a \<Rightarrow> bool) \<Rightarrow> 'a list \<Rightarrow> nat option" where
  "position P [] = None"
| "position P (x # xs) = (if P x then Some 0 else map_option Suc (position P xs))"

definition remove_nth :: "nat \<Rightarrow> 'a list \<Rightarrow> 'a list" where
  "remove_nth i xs = take i xs @ drop (Suc i) xs"

definition swap_remove :: "nat \<Rightarrow> 'a list \<Rightarrow> 'a list" where
  "swap_remove i xs = butlast (xs[i := last xs])"

definition slice :: "'a list \<Rightarrow> nat \<Rightarrow> nat \<Rightarrow> 'a list" where
  "slice xs a b = take (b - a) (drop a xs)"

text \<open>\<open>dst[off..off + src.len()].copy_from_slice(src)\<close>, for a range inside \<open>dst\<close>.\<close>

definition copy_at :: "nat \<Rightarrow> 'a list \<Rightarrow> 'a list \<Rightarrow> 'a list" where
  "copy_at off src dst = take off dst @ src @ drop (off + length src) dst"

section \<open>Little-endian encodings\<close>

text \<open>\<open>to_le_bytes\<close> and \<open>from_le_bytes\<close> for a word of any width.\<close>

fun from_le_bytes :: "bytes \<Rightarrow> 'a::len word" where
  "from_le_bytes [] = 0"
| "from_le_bytes (b # bs) = ucast b OR push_bit 8 (from_le_bytes bs)"

definition to_le_bytes :: "nat \<Rightarrow> 'a::len word \<Rightarrow> bytes" where
  "to_le_bytes n w = map (\<lambda>i. ucast (drop_bit (8 * i) w)) [0..<n]"

section \<open>Ordered maps\<close>

type_synonym ('k, 'v) btree = "('k \<times> 'v) list"

fun bt_get :: "('k::linorder, 'v) btree \<Rightarrow> 'k \<Rightarrow> 'v option" where
  "bt_get [] k = None"
| "bt_get ((k', v) # m) k = (if k = k' then Some v else bt_get m k)"

fun bt_put :: "'k::linorder \<Rightarrow> 'v \<Rightarrow> ('k, 'v) btree \<Rightarrow> ('k, 'v) btree" where
  "bt_put k v [] = [(k, v)]"
| "bt_put k v ((k', v') # m) =
     (if k < k' then (k, v) # (k', v') # m
      else if k = k' then (k, v) # m
      else (k', v') # bt_put k v m)"

definition bt_del :: "'k::linorder \<Rightarrow> ('k, 'v) btree \<Rightarrow> ('k, 'v) btree" where
  "bt_del k m = filter (\<lambda>e. fst e \<noteq> k) m"

definition bt_keys :: "('k::linorder, 'v) btree \<Rightarrow> 'k set" where
  "bt_keys m = fst ` set m"

definition bt_ok :: "('k::linorder, 'v) btree \<Rightarrow> bool" where
  "bt_ok m \<longleftrightarrow> sorted_wrt (<) (map fst m)"

text \<open>
  The laws the clients of an ordered map use: what a lookup returns after an insertion or a
  removal, and that every operation keeps the key order.
\<close>

locale keyed_store =
  fixes get :: "'m \<Rightarrow> 'k \<Rightarrow> 'v option"
    and put :: "'k \<Rightarrow> 'v \<Rightarrow> 'm \<Rightarrow> 'm"
    and del :: "'k \<Rightarrow> 'm \<Rightarrow> 'm"
    and ok :: "'m \<Rightarrow> bool"
  assumes get_put: "get (put k v m) k' = (if k' = k then Some v else get m k')"
    and get_del: "get (del k m) k' = (if k' = k then None else get m k')"
    and ok_put: "ok m \<Longrightarrow> ok (put k v m)"
    and ok_del: "ok m \<Longrightarrow> ok (del k m)"
begin

lemma put_shadow: "get (put k v (put k w m)) = get (put k v m)"
  by (rule ext) (simp add: get_put)

lemma put_commute: "k \<noteq> k' \<Longrightarrow> get (put k v (put k' w m)) = get (put k' w (put k v m))"
  by (rule ext) (auto simp: get_put)

lemma del_put: "get (del k (put k v m)) = get (del k m)"
  by (rule ext) (simp add: get_put get_del)

lemma put_back: "get m k = Some v \<Longrightarrow> get (put k v (del k m)) = get m"
  by (rule ext) (simp add: get_put get_del)

end

lemma bt_get_put [simp]: "bt_get (bt_put k v m) k' = (if k' = k then Some v else bt_get m k')"
  by (induction m) auto

lemma bt_get_del [simp]: "bt_get (bt_del k m) k' = (if k' = k then None else bt_get m k')"
  by (induction m) (auto simp: bt_del_def)

lemma bt_keys_Nil [simp]: "bt_keys [] = {}"
  by (simp add: bt_keys_def)

lemma bt_keys_Cons [simp]: "bt_keys ((k, v) # m) = insert k (bt_keys m)"
  by (simp add: bt_keys_def)

lemma bt_keys_put [simp]: "bt_keys (bt_put k v m) = insert k (bt_keys m)"
  by (induction k v m rule: bt_put.induct) auto

lemma bt_keys_del [simp]: "bt_keys (bt_del k m) = bt_keys m - {k}"
  by (auto simp: bt_keys_def bt_del_def)

lemma finite_bt_keys [simp]: "finite (bt_keys m)"
  by (simp add: bt_keys_def)

lemma bt_get_in_keys: "bt_get m k = Some v \<Longrightarrow> k \<in> bt_keys m"
  by (induction m k rule: bt_get.induct) (auto split: if_splits)

lemma bt_get_None_iff: "bt_get m k = None \<longleftrightarrow> k \<notin> bt_keys m"
  by (induction m k rule: bt_get.induct) auto

lemma bt_get_set: "bt_get m k = Some v \<Longrightarrow> (k, v) \<in> set m"
  by (induction m) (auto split: if_splits)

lemma bt_ok_Nil [simp]: "bt_ok []"
  by (simp add: bt_ok_def)

lemma bt_ok_Cons: "bt_ok ((k, v) # m) \<longleftrightarrow> bt_ok m \<and> (\<forall>k' \<in> bt_keys m. k < k')"
  by (auto simp: bt_ok_def bt_keys_def)

lemma bt_ok_put [simp]: "bt_ok m \<Longrightarrow> bt_ok (bt_put k v m)"
proof (induction m)
  case (Cons e m)
  obtain k' v' where e: "e = (k', v')" by (cases e)
  with Cons show ?case by (auto simp: bt_ok_Cons)
qed (simp add: bt_ok_def)

lemma bt_ok_del [simp]: "bt_ok m \<Longrightarrow> bt_ok (bt_del k m)"
proof (induction m)
  case (Cons e m)
  obtain k' v' where e: "e = (k', v')" by (cases e)
  with Cons show ?case by (auto simp: bt_ok_Cons bt_keys_def bt_del_def)
qed (simp add: bt_del_def)

lemma bt_set_get: "bt_ok m \<Longrightarrow> (k, v) \<in> set m \<Longrightarrow> bt_get m k = Some v"
proof (induction m)
  case (Cons e m)
  obtain k' v' where e: "e = (k', v')" by (cases e)
  from Cons.prems e show ?case
    using Cons.IH by (fastforce simp: bt_ok_Cons bt_keys_def)
qed simp

interpretation bt: keyed_store bt_get bt_put bt_del bt_ok
  by unfold_locales simp_all

lemma length_bt_del: "bt_ok m \<Longrightarrow> bt_get m k = Some v \<Longrightarrow> Suc (length (bt_del k m)) = length m"
proof (induction m)
  case (Cons e m)
  obtain k' v' where e: "e = (k', v')" by (cases e)
  show ?case
  proof (cases "k = k'")
    case True
    with Cons.prems e have "\<forall>x \<in> set m. fst x \<noteq> k" by (auto simp: bt_ok_Cons bt_keys_def)
    then have "filter (\<lambda>x. fst x \<noteq> k) m = m" by (simp add: filter_id_conv)
    with e True show ?thesis by (simp add: bt_del_def)
  next
    case False
    with Cons e show ?thesis by (simp add: bt_ok_Cons bt_del_def)
  qed
qed simp

lemma length_bt_put:
  "bt_ok m \<Longrightarrow> length (bt_put k v m) = (if bt_get m k = None then Suc (length m) else length m)"
proof (induction m)
  case (Cons e m)
  obtain k' v' where e: "e = (k', v')" by (cases e)
  from Cons.prems e have "k < k' \<Longrightarrow> bt_get m k = None"
    by (fastforce simp: bt_ok_Cons bt_get_None_iff)
  with Cons e show ?case by (auto simp: bt_ok_Cons)
qed simp

lemma card_bt_keys: "bt_ok m \<Longrightarrow> card (bt_keys m) = length m"
proof (induction m)
  case (Cons e m)
  obtain k' v' where e: "e = (k', v')" by (cases e)
  from Cons.prems e have "k' \<notin> bt_keys m" by (auto simp: bt_ok_Cons)
  moreover have "bt_keys (e # m) = insert k' (bt_keys m)" using e by (simp add: bt_keys_def)
  ultimately show ?case using Cons e by (simp add: bt_ok_Cons)
qed simp

text \<open>Summing a measure over the values of a map, and how updates change the sum.\<close>

definition bt_sum :: "('v \<Rightarrow> nat) \<Rightarrow> ('k::linorder, 'v) btree \<Rightarrow> nat" where
  "bt_sum f m = sum_list (map (\<lambda>(k, v). f v) m)"

lemma bt_sum_Nil [simp]: "bt_sum f [] = 0"
  by (simp add: bt_sum_def)

lemma bt_sum_Cons [simp]: "bt_sum f ((k, v) # m) = f v + bt_sum f m"
  by (simp add: bt_sum_def)

lemma bt_get_less_keys: "\<forall>k' \<in> bt_keys m. k < k' \<Longrightarrow> bt_get m k = None"
  by (auto simp: bt_get_None_iff)

lemma bt_sum_put:
  "bt_ok m \<Longrightarrow> bt_sum f (bt_put k v m) + (case bt_get m k of None \<Rightarrow> 0 | Some w \<Rightarrow> f w) = bt_sum f m + f v"
proof (induction k v m rule: bt_put.induct)
  case (2 k v k' v' m)
  have "k \<le> k' \<Longrightarrow> bt_get m k = None"
    using "2.prems" by (intro bt_get_less_keys) (auto simp: bt_ok_Cons)
  with 2 show ?case by (auto simp: bt_ok_Cons split: option.splits)
qed simp

lemma bt_del_notin: "bt_get m k = None \<Longrightarrow> bt_del k m = m"
  by (induction m k rule: bt_get.induct) (auto simp: bt_del_def split: if_splits)

lemma bt_sum_del:
  "bt_ok m \<Longrightarrow> bt_sum f (bt_del k m) + (case bt_get m k of None \<Rightarrow> 0 | Some w \<Rightarrow> f w) = bt_sum f m"
proof (induction m)
  case (Cons e m)
  obtain k' v' where e: "e = (k', v')" by fastforce
  have "k = k' \<Longrightarrow> bt_del k m = m"
    using Cons.prems e by (intro bt_del_notin bt_get_less_keys) (simp add: bt_ok_Cons)
  then show ?case using Cons e by (auto simp: bt_del_def bt_ok_Cons split: option.splits)
qed (simp add: bt_del_def)

lemma bt_put_same: "bt_ok m \<Longrightarrow> bt_get m k = Some v \<Longrightarrow> bt_put k v m = m"
proof (induction k v m rule: bt_put.induct)
  case (2 k v k' v' m)
  then show ?case using bt_get_less_keys [of m k] by (fastforce simp: bt_ok_Cons split: if_splits)
qed simp

lemma bt_sum_mono_le: "bt_get m k = Some v \<Longrightarrow> f v \<le> bt_sum f m"
  by (induction m k rule: bt_get.induct) (auto split: if_splits intro: trans_le_add2)

section \<open>Lemmas on the integers\<close>

lemma usize_max_less: "usize_max < usize_modulus"
  by (simp add: usize_max_def usize_modulus_def)

lemma le_usize_max_iff: "x \<le> usize_max \<longleftrightarrow> x < usize_modulus"
  by (auto simp: usize_max_def usize_modulus_def)

lemma wrap_add_exact [usize_arith]: "a + b < usize_modulus \<Longrightarrow> wrap_add a b = a + b"
  by (simp add: wrap_add_def)

lemma wrap_mul_exact [usize_arith]: "a * b < usize_modulus \<Longrightarrow> wrap_mul a b = a * b"
  by (simp add: wrap_mul_def)

lemma wrap_sub_exact [usize_arith]: "b \<le> a \<Longrightarrow> a < usize_modulus \<Longrightarrow> wrap_sub a b = a - b"
proof -
  assume le: "b \<le> a" and lt: "a < usize_modulus"
  have "a + usize_modulus - b = (a - b) + usize_modulus" using le by simp
  moreover have "a - b < usize_modulus" using lt by simp
  ultimately show ?thesis by (simp only: wrap_sub_def mod_add_self2 mod_less)
qed

lemma sat_add_exact [usize_arith]: "a + b \<le> usize_max \<Longrightarrow> sat_add a b = a + b"
  by (simp add: sat_add_def)

lemma checked_add_Some: "checked_add a b = Some c \<longleftrightarrow> c = a + b \<and> a + b \<le> usize_max"
  by (auto simp: checked_add_def)

lemma checked_sub_Some: "checked_sub a b = Some c \<longleftrightarrow> c = a - b \<and> b \<le> a"
  by (auto simp: checked_sub_def)

lemma align_down_le: "align_down v a \<le> v"
  by (simp add: align_down_def)

lemma align_down_dvd: "a dvd align_down v a"
  by (simp add: align_down_def dvd_minus_mod)

lemma align_down_gt: "0 < a \<Longrightarrow> v < align_down v a + a"
  by (metis add.commute align_down_def less_diff_conv2 mod_less_divisor mod_less_eq_dividend
      nat_add_left_cancel_less ordered_cancel_comm_monoid_diff_class.diff_add)

lemma PAGE_SIZE_pos [simp]: "0 < PAGE_SIZE"
  by (simp add: PAGE_SIZE_def)

lemma PAGE_SIZE_neq_0 [simp]: "PAGE_SIZE \<noteq> 0"
  by (simp add: PAGE_SIZE_def)

lemma PAGE_SIZE_ge_1 [simp]: "Suc 0 \<le> PAGE_SIZE"
  by (simp add: PAGE_SIZE_def)

section \<open>Lemmas on vectors\<close>

lemma position_Some:
  "position P xs = Some i \<longleftrightarrow> i < length xs \<and> P (xs ! i) \<and> (\<forall>j < i. \<not> P (xs ! j))"
proof (induction xs arbitrary: i)
  case (Cons x xs)
  show ?case
  proof (cases i)
    case 0
    then show ?thesis by auto
  next
    case (Suc j)
    with Cons.IH [of j] show ?thesis by (auto simp: less_Suc_eq_0_disj)
  qed
qed simp

lemma position_None: "position P xs = None \<longleftrightarrow> (\<forall>x \<in> set xs. \<not> P x)"
  by (induction xs) auto

lemma length_remove_nth: "i < length xs \<Longrightarrow> Suc (length (remove_nth i xs)) = length xs"
  by (simp add: remove_nth_def)

lemma set_remove_nth_subset: "set (remove_nth i xs) \<subseteq> set xs"
  by (auto simp: remove_nth_def dest: in_set_takeD in_set_dropD)

lemma remove_nth_Cons_0 [simp]: "remove_nth 0 (x # xs) = xs"
  by (simp add: remove_nth_def)

lemma remove_nth_Cons_Suc [simp]: "remove_nth (Suc i) (x # xs) = x # remove_nth i xs"
  by (simp add: remove_nth_def)

lemma remove_nth_split: "i < length xs \<Longrightarrow> xs = take i xs @ xs ! i # drop (Suc i) xs"
  by (simp add: id_take_nth_drop)

lemma set_remove_nth: "i < length xs \<Longrightarrow> set xs = insert (xs ! i) (set (remove_nth i xs))"
  by (subst remove_nth_split, assumption) (auto simp: remove_nth_def)

lemma distinct_remove_nth: "distinct xs \<Longrightarrow> distinct (remove_nth i xs)"
proof (induction xs arbitrary: i)
  case (Cons x xs)
  then show ?case
    using set_remove_nth_subset by (cases i) fastforce+
qed (simp add: remove_nth_def)

lemma length_copy_at [simp]:
  "off + length src \<le> length dst \<Longrightarrow> length (copy_at off src dst) = length dst"
  by (simp add: copy_at_def)

lemma copy_at_0: "copy_at 0 src dst = src @ drop (length src) dst"
  by (simp add: copy_at_def)

lemma slice_copy_at [simp]:
  "off \<le> length dst \<Longrightarrow> slice (copy_at off src dst) off (off + length src) = src"
  by (simp add: slice_def copy_at_def)

lemma length_slice: "b \<le> length xs \<Longrightarrow> length (slice xs a b) = b - a"
  by (simp add: slice_def)

lemma take_copy_at: "n \<le> off \<Longrightarrow> off \<le> length dst \<Longrightarrow> take n (copy_at off src dst) = take n dst"
  by (simp add: copy_at_def)

lemma nth_copy_at:
  assumes "off + length src \<le> length dst"
  shows "copy_at off src dst ! i =
    (if off \<le> i \<and> i < off + length src then src ! (i - off) else dst ! i)"
proof (cases "i < off + length src")
  case True
  with assms show ?thesis by (auto simp: copy_at_def nth_append)
next
  case False
  have "copy_at off src dst = (take off dst @ src) @ drop (off + length src) dst"
    by (simp add: copy_at_def)
  moreover have "length (take off dst @ src) = off + length src" using assms by simp
  ultimately have "copy_at off src dst ! i =
      drop (off + length src) dst ! (i - (off + length src))"
    using False by (metis linorder_not_le nth_append)
  also have "\<dots> = dst ! (off + length src + (i - (off + length src)))"
    by (rule nth_drop) (rule assms)
  also have "\<dots> = dst ! i" using False by (intro arg_cong [where f = "(!) dst"]) linarith
  finally show ?thesis using False by auto
qed

section \<open>Round trips of the encodings\<close>

lemma length_to_le_bytes [simp]: "length (to_le_bytes n w) = n"
  by (simp add: to_le_bytes_def)

lemma to_le_bytes_Suc:
  "to_le_bytes (Suc n) (w :: 'a::len word) = ucast w # to_le_bytes n (drop_bit 8 w)"
  by (simp add: to_le_bytes_def upt_conv_Cons map_Suc_upt [symmetric] add.commute del: upt_Suc)

lemma from_to_le_bytes_take_bit:
  "from_le_bytes (to_le_bytes n w) = take_bit (8 * n) (w :: 'a::len word)"
proof (induction n arbitrary: w)
  case 0
  then show ?case by (simp add: to_le_bytes_def)
next
  case (Suc n)
  have "ucast (ucast w :: u8) OR push_bit 8 (take_bit (8 * n) (drop_bit 8 w))
      = take_bit (8 * Suc n) w"
    by (rule bit_eqI) (auto simp: bit_simps)
  then show ?case by (simp only: to_le_bytes_Suc from_le_bytes.simps Suc)
qed

lemma from_to_le_bytes:
  "LENGTH('a) \<le> 8 * n \<Longrightarrow> from_le_bytes (to_le_bytes n w) = (w :: 'a::len word)"
  by (simp add: from_to_le_bytes_take_bit take_bit_word_eq_self)

end
