(* ===== verification/Scheduler.thy ===== *)
theory Scheduler
  imports Prelude
begin

text \<open>
  The round-robin scheduler (\<^verbatim>\<open>kernel/src/process/scheduler.rs\<close>): a ready queue with a cursor. Whether
  a process can run is decided by the process table (\<^verbatim>\<open>is_pid_runnable\<close>), which the operations take
  as the argument \<open>runnable\<close>. The abstract view of the queue is its rotation at the cursor; picking
  refines the textbook round robin on that view, which gives fairness.
\<close>

section \<open>Operations\<close>

record scheduler =
  ready_queue :: "u64 list"
  cursor :: usize

definition sched_new :: scheduler where
  "sched_new = \<lparr>ready_queue = [], cursor = 0\<rparr>"

text \<open>Enqueueing reports whether the process was accepted; a refusal is the not-runnable error.\<close>

definition sched_enqueue :: "(u64 \<Rightarrow> bool) \<Rightarrow> u64 \<Rightarrow> scheduler \<Rightarrow> scheduler \<times> bool" where
  "sched_enqueue runnable pid s =
     (if \<not> runnable pid then (s, False)
      else if pid \<in> set (ready_queue s) then (s, True)
      else (s\<lparr>ready_queue := ready_queue s @ [pid]\<rparr>, True))"

definition sched_remove :: "u64 \<Rightarrow> scheduler \<Rightarrow> scheduler" where
  "sched_remove pid s =
     (let q = filter (\<lambda>queued. queued \<noteq> pid) (ready_queue s)
      in \<lparr>ready_queue = q, cursor = (if length q \<le> cursor s then 0 else cursor s)\<rparr>)"

function pick_loop ::
  "(u64 \<Rightarrow> bool) \<Rightarrow> u64 option \<Rightarrow> nat \<Rightarrow> nat \<Rightarrow> scheduler \<Rightarrow> scheduler \<times> u64 option" where
  "pick_loop runnable excluded checked len s =
     (if checked < len \<and> ready_queue s \<noteq> [] then
        let c = (if length (ready_queue s) \<le> cursor s then 0 else cursor s);
            pid = ready_queue s ! c
        in if Some pid = excluded
           then pick_loop runnable excluded (checked + 1) len
                  \<lparr>ready_queue = remove_nth c (ready_queue s), cursor = c\<rparr>
           else if runnable pid
           then (\<lparr>ready_queue = ready_queue s, cursor = (c + 1) mod length (ready_queue s)\<rparr>, Some pid)
           else pick_loop runnable excluded (checked + 1) len
                  \<lparr>ready_queue = remove_nth c (ready_queue s), cursor = c\<rparr>
      else (s, None))"
  by pat_completeness auto
termination by (relation "measure (\<lambda>(_, _, checked, len, _). len - checked)") auto

declare pick_loop.simps [simp del]

definition pick_next_excluding ::
  "(u64 \<Rightarrow> bool) \<Rightarrow> u64 option \<Rightarrow> scheduler \<Rightarrow> scheduler \<times> u64 option" where
  "pick_next_excluding runnable excluded s =
     (if ready_queue s = [] then (s, None)
      else pick_loop runnable excluded 0 (length (ready_queue s)) s)"

definition pick_next :: "(u64 \<Rightarrow> bool) \<Rightarrow> scheduler \<Rightarrow> scheduler \<times> u64 option" where
  "pick_next runnable s = pick_next_excluding runnable None s"

definition sched_len :: "scheduler \<Rightarrow> usize" where
  "sched_len s = length (ready_queue s)"

text \<open>The module-level functions act on a scheduler that may not exist yet.\<close>

definition sched_init :: "scheduler option" where
  "sched_init = Some sched_new"

datatype enqueue_result = Enqueued | EnqueueNotRunnable | EnqueueUnavailable

definition enqueue_ready :: "(u64 \<Rightarrow> bool) \<Rightarrow> u64 \<Rightarrow> scheduler option \<Rightarrow> scheduler option \<times> enqueue_result" where
  "enqueue_ready runnable pid os =
     (case os of
        None \<Rightarrow> (None, EnqueueUnavailable)
      | Some s \<Rightarrow>
          (case sched_enqueue runnable pid s of
             (s', ok) \<Rightarrow> (Some s', if ok then Enqueued else EnqueueNotRunnable)))"

definition scheduler_remove :: "u64 \<Rightarrow> scheduler option \<Rightarrow> scheduler option" where
  "scheduler_remove pid os = map_option (sched_remove pid) os"

definition pick_next_candidate :: "(u64 \<Rightarrow> bool) \<Rightarrow> scheduler option \<Rightarrow> scheduler option \<times> u64 option" where
  "pick_next_candidate runnable os =
     (case os of None \<Rightarrow> (None, None)
      | Some s \<Rightarrow> (case pick_next runnable s of (s', r) \<Rightarrow> (Some s', r)))"

definition pick_next_candidate_excluding ::
  "(u64 \<Rightarrow> bool) \<Rightarrow> u64 \<Rightarrow> scheduler option \<Rightarrow> scheduler option \<times> u64 option" where
  "pick_next_candidate_excluding runnable pid os =
     (case os of None \<Rightarrow> (None, None)
      | Some s \<Rightarrow> (case pick_next_excluding runnable (Some pid) s of (s', r) \<Rightarrow> (Some s', r)))"

definition ready_len :: "scheduler option \<Rightarrow> usize" where
  "ready_len os = (case os of None \<Rightarrow> 0 | Some s \<Rightarrow> sched_len s)"

section \<open>The view of the queue from the cursor\<close>

definition norm_cursor :: "scheduler \<Rightarrow> nat" where
  "norm_cursor s = (if length (ready_queue s) \<le> cursor s then 0 else cursor s)"

definition sched_view :: "scheduler \<Rightarrow> u64 list" where
  "sched_view s = drop (norm_cursor s) (ready_queue s) @ take (norm_cursor s) (ready_queue s)"

definition rr_pick :: "(u64 \<Rightarrow> bool) \<Rightarrow> u64 list \<Rightarrow> u64 list \<times> u64 option" where
  "rr_pick good view =
     (case dropWhile (\<lambda>p. \<not> good p) view of [] \<Rightarrow> ([], None) | p # rest \<Rightarrow> (rest @ [p], Some p))"

definition eligible :: "(u64 \<Rightarrow> bool) \<Rightarrow> u64 option \<Rightarrow> u64 \<Rightarrow> bool" where
  "eligible runnable excluded p \<longleftrightarrow> Some p \<noteq> excluded \<and> runnable p"

lemma set_sched_view [simp]: "set (sched_view s) = set (ready_queue s)"
  unfolding sched_view_def by (metis Un_commute append_take_drop_id set_append)

lemma distinct_sched_view [simp]: "distinct (sched_view s) = distinct (ready_queue s)"
proof -
  have "distinct (drop n q @ take n q) = distinct q" for n and q :: "u64 list"
    by (metis Int_commute append_take_drop_id distinct_append)
  then show ?thesis by (simp only: sched_view_def)
qed

lemma length_sched_view [simp]: "length (sched_view s) = length (ready_queue s)"
  by (auto simp: sched_view_def norm_cursor_def)

lemma sched_view_Nil: "sched_view s = [] \<longleftrightarrow> ready_queue s = []"
  using length_sched_view [of s] by (metis length_0_conv)

lemma norm_cursor_less: "ready_queue s \<noteq> [] \<Longrightarrow> norm_cursor s < length (ready_queue s)"
  by (auto simp: norm_cursor_def)

lemma sched_view_head:
  assumes "ready_queue s \<noteq> []"
  shows "sched_view s = ready_queue s ! norm_cursor s #
    drop (Suc (norm_cursor s)) (ready_queue s) @ take (norm_cursor s) (ready_queue s)"
  using norm_cursor_less [OF assms] by (simp add: sched_view_def Cons_nth_drop_Suc flip: append_Cons)

lemma sched_view_removed:
  assumes "ready_queue s \<noteq> []"
  shows "sched_view \<lparr>ready_queue = remove_nth (norm_cursor s) (ready_queue s), cursor = norm_cursor s\<rparr> =
    tl (sched_view s)"
proof -
  let ?c = "norm_cursor s" and ?q = "ready_queue s"
  have c: "?c < length ?q" using norm_cursor_less [OF assms] .
  have rm: "remove_nth ?c ?q = take ?c ?q @ drop (Suc ?c) ?q" by (simp add: remove_nth_def)
  show ?thesis
  proof (cases "Suc ?c = length ?q")
    case True
    then have "length (remove_nth ?c ?q) \<le> ?c" using c by (simp add: rm)
    then show ?thesis using True
      by (simp add: sched_view_head [OF assms] sched_view_def [of "\<lparr>ready_queue = _, cursor = _\<rparr>"]
          norm_cursor_def [of "\<lparr>ready_queue = _, cursor = _\<rparr>"] rm)
  next
    case False
    then have "norm_cursor \<lparr>ready_queue = remove_nth ?c ?q, cursor = ?c\<rparr> = ?c"
      using c by (auto simp: norm_cursor_def [of "\<lparr>ready_queue = _, cursor = _\<rparr>"] rm)
    then show ?thesis using c
      by (simp add: sched_view_head [OF assms] sched_view_def [of "\<lparr>ready_queue = _, cursor = _\<rparr>"] rm)
  qed
qed

lemma sched_view_advanced:
  assumes "ready_queue s \<noteq> []"
  shows "sched_view \<lparr>ready_queue = ready_queue s, cursor = (norm_cursor s + 1) mod length (ready_queue s)\<rparr> =
    tl (sched_view s) @ [ready_queue s ! norm_cursor s]"
proof -
  let ?c = "norm_cursor s" and ?q = "ready_queue s"
  have c: "?c < length ?q" using norm_cursor_less [OF assms] .
  show ?thesis
  proof (cases "Suc ?c = length ?q")
    case True
    then have "take ?c ?q @ [?q ! ?c] = ?q" using c by (metis take_Suc_conv_app_nth take_all order_refl)
    then show ?thesis using True
      by (simp add: sched_view_head [OF assms] sched_view_def [of "\<lparr>ready_queue = _, cursor = _\<rparr>"]
          norm_cursor_def [of "\<lparr>ready_queue = _, cursor = _\<rparr>"])
  next
    case False
    then have "norm_cursor \<lparr>ready_queue = ?q, cursor = (?c + 1) mod length ?q\<rparr> = Suc ?c"
      using c by (simp add: norm_cursor_def [of "\<lparr>ready_queue = _, cursor = _\<rparr>"])
    then show ?thesis using c
      by (simp add: sched_view_head [OF assms] sched_view_def [of "\<lparr>ready_queue = _, cursor = _\<rparr>"]
          take_Suc_conv_app_nth)
  qed
qed

section \<open>Refinement of round robin\<close>

lemma rr_pick_Cons:
  "rr_pick good (p # view) = (if good p then (view @ [p], Some p) else rr_pick good view)"
  by (simp add: rr_pick_def)

lemma pick_loop_refines:
  "checked + length (ready_queue s) = len \<Longrightarrow> pick_loop runnable excluded checked len s = (s', r) \<Longrightarrow>
     rr_pick (eligible runnable excluded) (sched_view s) = (sched_view s', r)"
proof (induction "length (ready_queue s)" arbitrary: checked s)
  case 0
  then have "ready_queue s = []" by simp
  moreover from this have "sched_view s = []" by (simp add: sched_view_Nil)
  ultimately show ?case using "0.prems"(2) by (auto simp: pick_loop.simps [of _ _ _ _ s] rr_pick_def)
next
  case (Suc n)
  let ?c = "norm_cursor s" and ?q = "ready_queue s"
  let ?t = "\<lparr>ready_queue = remove_nth ?c ?q, cursor = ?c\<rparr>"
  have q: "?q \<noteq> []" and lt: "checked < len" using Suc by auto
  have view: "sched_view s = ?q ! ?c # tl (sched_view s)" using sched_view_head [OF q] by simp
  have run: "pick_loop runnable excluded checked len s =
      (if eligible runnable excluded (?q ! ?c)
       then (\<lparr>ready_queue = ?q, cursor = (?c + 1) mod length ?q\<rparr>, Some (?q ! ?c))
       else pick_loop runnable excluded (checked + 1) len ?t)"
    using q lt by (subst pick_loop.simps) (simp add: Let_def norm_cursor_def eligible_def)
  show ?case
  proof (cases "eligible runnable excluded (?q ! ?c)")
    case True
    then show ?thesis using Suc.prems(2) run sched_view_advanced [OF q] view
      by (metis Pair_inject rr_pick_Cons)
  next
    case False
    have len: "length (ready_queue ?t) = n"
      using Suc.hyps(2) length_remove_nth [OF norm_cursor_less [OF q]] by simp
    have "rr_pick (eligible runnable excluded) (sched_view ?t) = (sched_view s', r)"
      by (rule Suc.hyps(1)) (use Suc len run False in auto)
    then show ?thesis using False view sched_view_removed [OF q] by (metis rr_pick_Cons)
  qed
qed

lemma pick_next_excluding_refines:
  "rr_pick (eligible runnable excluded) (sched_view s) =
     (sched_view (fst (pick_next_excluding runnable excluded s)),
      snd (pick_next_excluding runnable excluded s))"
proof (cases "ready_queue s = []")
  case True
  then have "sched_view s = []" by (simp add: sched_view_Nil)
  with True show ?thesis by (simp add: pick_next_excluding_def rr_pick_def)
next
  case False
  then show ?thesis
    using pick_loop_refines [of 0 s "length (ready_queue s)" runnable excluded]
    by (simp add: pick_next_excluding_def)
qed

lemma rr_pick_spec:
  "rr_pick good view = (view', r) \<Longrightarrow>
     (case r of
        None \<Rightarrow> view' = [] \<and> (\<forall>p \<in> set view. \<not> good p)
      | Some p \<Rightarrow> \<exists>bad rest. view = bad @ p # rest \<and> (\<forall>b \<in> set bad. \<not> good b) \<and> good p \<and> view' = rest @ [p])"
proof (induction view)
  case (Cons x view)
  show ?case
  proof (cases "good x")
    case True
    then show ?thesis using Cons.prems by (auto simp: rr_pick_Cons intro: exI [of _ "[]"])
  next
    case False
    then have IH: "case r of
        None \<Rightarrow> view' = [] \<and> (\<forall>p \<in> set view. \<not> good p)
      | Some p \<Rightarrow> \<exists>bad rest. view = bad @ p # rest \<and> (\<forall>b \<in> set bad. \<not> good b) \<and> good p \<and> view' = rest @ [p]"
      using Cons by (simp add: rr_pick_Cons)
    show ?thesis
    proof (cases r)
      case (Some p)
      then obtain bad rest where "view = bad @ p # rest" "\<forall>b \<in> set bad. \<not> good b" "good p" "view' = rest @ [p]"
        using IH by auto
      then show ?thesis using Some False by (auto intro!: exI [of _ "x # bad"])
    qed (use IH False in simp)
  qed
qed (simp add: rr_pick_def)

text \<open>Each pick that passes over a runnable process moves it strictly closer to the cursor.\<close>

lemma rr_pick_progress:
  assumes "rr_pick good (pre @ p # post) = (view', r)" "good p" "r \<noteq> Some p"
  shows "\<exists>pre' post'. view' = pre' @ p # post' \<and> length pre' < length pre"
proof (cases r)
  case None
  then show ?thesis using rr_pick_spec [OF assms(1)] assms(2) by auto
next
  case (Some x)
  then obtain bad rest where eq: "pre @ p # post = bad @ x # rest"
      and bad: "\<forall>b \<in> set bad. \<not> good b" and view': "view' = rest @ [x]"
    using rr_pick_spec [OF assms(1)] by auto
  have "x \<noteq> p" using Some assms(3) by auto
  then obtain us where "pre = bad @ x # us" "rest = us @ p # post"
    using eq bad assms(2) by (auto simp: append_eq_append_conv2 append_eq_Cons_conv Cons_eq_append_conv)
  then show ?thesis using view' by (intro exI [of _ us] exI [of _ "post @ [x]"]) simp
qed

section \<open>Properties\<close>

text \<open>
  C17. Picking refines round robin: seen from the cursor, picking drops the entries before the
  first process that is runnable and not excluded, returns that process and moves it to the
  back; when there is none it returns nothing and the queue becomes empty.
\<close>
theorem sched_pick_refines_round_robin:
  "rr_pick (eligible runnable excluded) (sched_view s) =
     (sched_view (fst (pick_next_excluding runnable excluded s)),
      snd (pick_next_excluding runnable excluded s))"
  by (rule pick_next_excluding_refines)

text \<open>Successive picks, each with the runnability of that moment.\<close>

fun picks :: "(u64 \<Rightarrow> bool) list \<Rightarrow> scheduler \<Rightarrow> u64 option list" where
  "picks [] s = []"
| "picks (runnable # rs) s = (case pick_next runnable s of (s', r) \<Rightarrow> r # picks rs s')"

lemma picks_reach:
  assumes "sched_view s = pre @ p # post" "\<forall>r \<in> set rs. r p" "length pre < length rs"
  shows "Some p \<in> set (take (Suc (length pre)) (picks rs s))"
  using assms
proof (induction rs arbitrary: s pre post)
  case (Cons runnable rs)
  obtain s' r where run: "pick_next runnable s = (s', r)" by fastforce
  have step: "rr_pick (eligible runnable None) (pre @ p # post) = (sched_view s', r)"
    using pick_next_excluding_refines [of runnable None s] run Cons.prems(1)
    by (simp add: pick_next_def)
  show ?case
  proof (cases "r = Some p")
    case True
    then show ?thesis using run by simp
  next
    case False
    then obtain pre' post' where v: "sched_view s' = pre' @ p # post'" "length pre' < length pre"
      using rr_pick_progress [OF step] Cons.prems(2) by (auto simp: eligible_def)
    then have "Some p \<in> set (take (Suc (length pre')) (picks rs s'))"
      using Cons by (intro Cons.IH) auto
    moreover have "set (take (Suc (length pre')) (picks rs s')) \<subseteq> set (take (length pre) (picks rs s'))"
      using v(2) by (intro set_take_subset_set_take) simp
    ultimately show ?thesis using run by auto
  qed
qed simp



text \<open>
  A process is never queued twice: enqueueing, removing and picking keep the ready queue free
  of duplicates; a process that is not runnable is refused, and a removed process is no longer
  queued.
\<close>
lemma sched_queue_distinct:
  assumes "distinct (ready_queue s)"
  shows "distinct (ready_queue (fst (sched_enqueue runnable pid s))) \<and>
    distinct (ready_queue (sched_remove pid s)) \<and> pid \<notin> set (ready_queue (sched_remove pid s)) \<and>
    distinct (ready_queue (fst (pick_next_excluding runnable excluded s))) \<and>
    set (ready_queue (fst (pick_next_excluding runnable excluded s))) \<subseteq> set (ready_queue s) \<and>
    (\<not> runnable pid \<longrightarrow> sched_enqueue runnable pid s = (s, False))"
proof -
  let ?s = "fst (pick_next_excluding runnable excluded s)"
  have d: "distinct (sched_view s)" using assms by simp
  note spec = rr_pick_spec [OF pick_next_excluding_refines [of runnable excluded s]]
  have "distinct (sched_view ?s) \<and> set (sched_view ?s) \<subseteq> set (sched_view s)"
  proof (cases "snd (pick_next_excluding runnable excluded s)")
    case None
    then show ?thesis using spec by (simp del: set_sched_view distinct_sched_view)
  next
    case (Some p)
    then obtain bad rest where "sched_view s = bad @ p # rest" "sched_view ?s = rest @ [p]"
      using spec by auto
    then show ?thesis using d by (simp del: set_sched_view distinct_sched_view) blast
  qed
  then show ?thesis using assms by (auto simp: sched_enqueue_def sched_remove_def Let_def)
qed

lemma sched_queue_distinct_witness:
  "distinct (ready_queue (fst (sched_enqueue (\<lambda>p. True) 4 \<lparr>ready_queue = [1, 2, 3], cursor = 2\<rparr>)))"
  using sched_queue_distinct [of "\<lparr>ready_queue = [1, 2, 3], cursor = 2\<rparr>" "\<lambda>p. True" 4 None] by simp

end
