(* ===== verification/Frames.thy ===== *)
theory Frames
  imports Prelude
begin

text \<open>
  The contract of a physical frame allocator, as its clients (shared memory, IPC, page tables,
  ELF loading) rely on it: a pool of frame addresses, the subset that is free, allocation of one
  frame, and release. The loop that takes several frames and gives them back when the pool runs
  dry, which several clients share, is verified here once against the contract.
\<close>

fun take_frames ::
  "('m \<Rightarrow> 'm \<times> usize option) \<Rightarrow> (usize \<Rightarrow> 'm \<Rightarrow> 'm) \<Rightarrow> nat \<Rightarrow> usize list \<Rightarrow> 'm \<Rightarrow> 'm \<times> usize list option" where
  "take_frames alloc dealloc 0 acc m = (m, Some acc)"
| "take_frames alloc dealloc (Suc n) acc m =
     (case alloc m of
        (m', Some a) \<Rightarrow> take_frames alloc dealloc n (acc @ [a]) m'
      | (m', None) \<Rightarrow> (fold dealloc acc m', None))"

locale frame_allocator =
  fixes ok :: "'m \<Rightarrow> bool"
    and pool :: "'m \<Rightarrow> usize set"
    and avail :: "'m \<Rightarrow> usize set"
    and alloc :: "'m \<Rightarrow> 'm \<times> usize option"
    and dealloc :: "usize \<Rightarrow> 'm \<Rightarrow> 'm"
  assumes avail_pool: "ok m \<Longrightarrow> avail m \<subseteq> pool m"
    and avail_finite: "ok m \<Longrightarrow> finite (avail m)"
    and alloc_Some: "ok m \<Longrightarrow> alloc m = (m', Some a) \<Longrightarrow>
      ok m' \<and> pool m' = pool m \<and> a \<in> avail m \<and> avail m' = avail m - {a}"
    and alloc_None: "ok m \<Longrightarrow> alloc m = (m', None) \<Longrightarrow>
      ok m' \<and> pool m' = pool m \<and> avail m = {} \<and> avail m' = {}"
    and dealloc_pool: "ok m \<Longrightarrow> a \<in> pool m \<Longrightarrow>
      ok (dealloc a m) \<and> pool (dealloc a m) = pool m \<and> avail (dealloc a m) = insert a (avail m)"
begin

lemma alloc_succeeds:
  assumes "ok m" "avail m \<noteq> {}"
  shows "\<exists>m' a. alloc m = (m', Some a)"
proof -
  obtain m' r where run: "alloc m = (m', r)" by fastforce
  then have "r \<noteq> None" using alloc_None [OF assms(1), of m'] assms(2) by auto
  then show ?thesis using run by auto
qed

lemma alloc_dealloc:
  "ok m \<Longrightarrow> alloc m = (m', Some a) \<Longrightarrow> ok (dealloc a m') \<and> avail (dealloc a m') = avail m"
  using alloc_Some [of m m' a] dealloc_pool [of m' a] avail_pool [of m] by auto

lemma dealloc_all:
  "ok m \<Longrightarrow> set as \<subseteq> pool m \<Longrightarrow>
     ok (fold dealloc as m) \<and> pool (fold dealloc as m) = pool m \<and>
     avail (fold dealloc as m) = avail m \<union> set as"
proof (induction as arbitrary: m)
  case (Cons a as)
  then show ?case using dealloc_pool [of m a] by auto
qed simp

text \<open>Taking \<open>n\<close> frames yields fresh distinct frames, or fails and restores the free set.\<close>

lemma take_frames_spec:
  assumes "ok m" "set acc \<subseteq> pool m" "distinct acc" "set acc \<inter> avail m = {}"
    and "take_frames alloc dealloc n acc m = (m', r)"
  shows "ok m' \<and> pool m' = pool m \<and>
    (case r of
       Some fs \<Rightarrow> (\<exists>new. fs = acc @ new \<and> length new = n \<and> distinct fs \<and> set new \<subseteq> avail m \<and>
         avail m' = avail m - set new)
     | None \<Rightarrow> avail m' = avail m \<union> set acc \<and> card (avail m) < n)"
  using assms
proof (induction n arbitrary: acc m)
  case (Suc n)
  obtain m1 q where run: "alloc m = (m1, q)" by fastforce
  show ?case
  proof (cases q)
    case None
    then have "alloc m = (m1, None)" using run by simp
    from alloc_None [OF Suc.prems(1) this]
    have "ok m1 \<and> pool m1 = pool m \<and> avail m = {} \<and> avail m1 = {}" .
    moreover have "r = None" "m' = fold dealloc acc m1" using Suc.prems(5) run None by auto
    ultimately show ?thesis using dealloc_all [of m1 acc] Suc.prems(2) by simp
  next
    case (Some a)
    then have "alloc m = (m1, Some a)" using run by simp
    note al = alloc_Some [OF Suc.prems(1) this]
    have rest: "take_frames alloc dealloc n (acc @ [a]) m1 = (m', r)" using Suc.prems(5) run Some by simp
    have IH: "ok m' \<and> pool m' = pool m1 \<and>
      (case r of
         Some fs \<Rightarrow> (\<exists>new. fs = (acc @ [a]) @ new \<and> length new = n \<and> distinct fs \<and>
           set new \<subseteq> avail m1 \<and> avail m' = avail m1 - set new)
       | None \<Rightarrow> avail m' = avail m1 \<union> set (acc @ [a]) \<and> card (avail m1) < n)"
      by (rule Suc.IH [OF _ _ _ _ rest]) (use al Suc.prems avail_pool [of m] in auto)
    have card: "card (avail m) = Suc (card (avail m1))"
      using al avail_finite [OF Suc.prems(1)] by (auto simp: card_Suc_Diff1 simp del: card_Diff_insert)
    show ?thesis
    proof (cases r)
      case None
      then have "card (avail m) < Suc n" using IH unfolding card by simp
      then show ?thesis using IH al None by auto
    next
      case (Some fs)
      then obtain new where "fs = (acc @ [a]) @ new" "length new = n" "distinct fs"
          "set new \<subseteq> avail m1" "avail m' = avail m1 - set new" using IH by auto
      then show ?thesis using IH al Some by (auto intro!: exI [of _ "a # new"])
    qed
  qed
qed auto

lemma take_frames_None:
  assumes "ok m" "take_frames alloc dealloc n [] m = (m', None)"
  shows "ok m' \<and> pool m' = pool m \<and> avail m' = avail m \<and> card (avail m) < n"
  using take_frames_spec [OF assms(1) _ _ _ assms(2)] by simp

lemma take_frames_Some:
  assumes "ok m" "take_frames alloc dealloc n [] m = (m', Some fs)"
  shows "ok m' \<and> pool m' = pool m \<and> length fs = n \<and> distinct fs \<and> set fs \<subseteq> avail m \<and>
    avail m' = avail m - set fs"
  using take_frames_spec [OF assms(1) _ _ _ assms(2)] by auto

lemma take_frames_succeeds:
  assumes "ok m" "n \<le> card (avail m)"
  shows "\<exists>m' fs. take_frames alloc dealloc n [] m = (m', Some fs)"
proof -
  obtain m' r where run: "take_frames alloc dealloc n [] m = (m', r)" by fastforce
  then have "r \<noteq> None" using take_frames_None [OF assms(1), of n m'] assms(2) by auto
  then show ?thesis using run by auto
qed

end

end
