(* ===== verification/Pmm.thy ===== *)
theory Pmm
  imports Frames
begin

text \<open>
  The physical memory manager (\<^verbatim>\<open>kernel/src/memory/pmm.rs\<close>): a bitmap over the frames of one pool,
  a free counter, first-fit allocation of one frame and of contiguous runs, and the construction
  of the pool from the boot memory map. The set \<^verbatim>\<open>pmm_free\<close> is the abstract state.
\<close>

section \<open>Data\<close>

definition MEMMAP_USABLE :: u32 where
  "MEMMAP_USABLE = 0"

definition MAX_REGIONS :: nat where
  "MAX_REGIONS = 32"

definition BITMAP_BYTES :: nat where
  "BITMAP_BYTES = 65536"

record mem_region =
  mr_base :: u64
  mr_length :: u64
  region_type :: u32

record pmm =
  bitmap :: "u8 list"
  total_frames :: usize
  usable_frames :: usize
  free_frames :: usize
  base_addr :: usize

definition frame_mask :: "nat \<Rightarrow> u8" where
  "frame_mask frame_idx = push_bit (frame_idx mod 8) 1"

definition bitmap_clear :: "u8 list \<Rightarrow> nat \<Rightarrow> bool" where
  "bitmap_clear bm frame_idx \<longleftrightarrow> bm ! (frame_idx div 8) AND frame_mask frame_idx = 0"

definition bitmap_mark :: "u8 list \<Rightarrow> nat \<Rightarrow> u8 list" where
  "bitmap_mark bm frame_idx =
     bm[frame_idx div 8 := bm ! (frame_idx div 8) OR frame_mask frame_idx]"

definition bitmap_unmark :: "u8 list \<Rightarrow> nat \<Rightarrow> u8 list" where
  "bitmap_unmark bm frame_idx =
     bm[frame_idx div 8 := bm ! (frame_idx div 8) AND NOT (frame_mask frame_idx)]"

definition frame_addr :: "pmm \<Rightarrow> nat \<Rightarrow> usize" where
  "frame_addr m frame_idx = wrap_add (base_addr m) (wrap_mul frame_idx PAGE_SIZE)"

section \<open>Operations\<close>

definition pmm_new :: "usize \<Rightarrow> usize \<Rightarrow> u8 list \<Rightarrow> pmm" where
  "pmm_new memory_start memory_size bm =
     (let total = memory_size div PAGE_SIZE;
          bitmap_size = (total + 7) div 8;
          n = min bitmap_size (length bm)
      in \<lparr>bitmap = replicate n 0 @ drop n bm, total_frames = total, usable_frames = total,
          free_frames = total, base_addr = memory_start\<rparr>)"

definition mark_frame_index_free :: "nat \<Rightarrow> pmm \<Rightarrow> pmm \<times> bool" where
  "mark_frame_index_free frame_idx m =
     (if total_frames m \<le> frame_idx then (m, False)
      else if frame_idx div 8 < length (bitmap m) \<and> \<not> bitmap_clear (bitmap m) frame_idx
      then (m\<lparr>bitmap := bitmap_unmark (bitmap m) frame_idx\<rparr>, True)
      else (m, False))"

definition reserve_all_frames :: "pmm \<Rightarrow> pmm" where
  "reserve_all_frames m =
     m\<lparr>bitmap := map (\<lambda>_. 0xFF) (bitmap m), usable_frames := 0, free_frames := 0\<rparr>"

fun mark_range_free :: "nat list \<Rightarrow> pmm \<Rightarrow> usize \<Rightarrow> pmm \<times> usize" where
  "mark_range_free [] m newly_free = (m, newly_free)"
| "mark_range_free (frame_idx # rest) m newly_free =
     (case mark_frame_index_free frame_idx m of
        (m', freed) \<Rightarrow> mark_range_free rest m' (if freed then newly_free + 1 else newly_free))"

definition mark_region_free_in_pool :: "u64 \<Rightarrow> u64 \<Rightarrow> pmm \<Rightarrow> pmm \<times> usize" where
  "mark_region_free_in_pool base len m =
     (let region_start = unat base;
          region_end = sat_add region_start (unat len);
          aligned_start = align_down (sat_add region_start (PAGE_SIZE - 1)) PAGE_SIZE;
          aligned_end = align_down region_end PAGE_SIZE;
          pool_start = base_addr m;
          pool_end = sat_add pool_start (wrap_mul (total_frames m) PAGE_SIZE);
          start = max aligned_start pool_start;
          fin = min aligned_end pool_end
      in if fin \<le> start then (m, 0)
         else
           let first = (start - pool_start) div PAGE_SIZE;
               final = (fin - pool_start) div PAGE_SIZE
           in case mark_range_free [first..<min final (total_frames m)] m 0 of
                (m', newly_free) \<Rightarrow>
                  (m'\<lparr>usable_frames := wrap_add (usable_frames m') newly_free,
                      free_frames := wrap_add (free_frames m') newly_free\<rparr>, newly_free))"

fun alloc_bits :: "u8 \<Rightarrow> nat \<Rightarrow> nat list \<Rightarrow> pmm \<Rightarrow> pmm \<times> usize option" where
  "alloc_bits byte byte_idx [] m = (m, None)"
| "alloc_bits byte byte_idx (bit_idx # rest) m =
     (let mask = push_bit bit_idx (1 :: u8)
      in if byte AND mask = 0 then
           let m' = m\<lparr>bitmap := (bitmap m)[byte_idx := bitmap m ! byte_idx OR mask]\<rparr>;
               frame_idx = byte_idx * 8 + bit_idx
           in if frame_idx < total_frames m
              then (m'\<lparr>free_frames := wrap_sub (free_frames m) 1\<rparr>, Some (frame_addr m frame_idx))
              else alloc_bits byte byte_idx rest m'
         else alloc_bits byte byte_idx rest m)"

fun alloc_bytes :: "nat list \<Rightarrow> pmm \<Rightarrow> pmm \<times> usize option" where
  "alloc_bytes [] m = (m, None)"
| "alloc_bytes (byte_idx # rest) m =
     (let byte = bitmap m ! byte_idx
      in if byte \<noteq> 0xFF then
           (case alloc_bits byte byte_idx [0..<8] m of
              (m', Some addr) \<Rightarrow> (m', Some addr)
            | (m', None) \<Rightarrow> alloc_bytes rest m')
         else alloc_bytes rest m)"

definition alloc_frame :: "pmm \<Rightarrow> pmm \<times> usize option" where
  "alloc_frame m = alloc_bytes [0..<length (bitmap m)] m"

fun find_run :: "nat list \<Rightarrow> nat \<Rightarrow> pmm \<Rightarrow> nat option \<Rightarrow> nat \<Rightarrow> nat option" where
  "find_run [] count m run_start run_len = None"
| "find_run (frame_idx # rest) count m run_start run_len =
     (if frame_idx div 8 < length (bitmap m) \<and> bitmap_clear (bitmap m) frame_idx then
        (let (start, len) = (case run_start of None \<Rightarrow> (frame_idx, 1) | Some s \<Rightarrow> (s, run_len + 1))
         in if len = count then Some start else find_run rest count m (Some start) len)
      else find_run rest count m None 0)"

definition alloc_contiguous :: "usize \<Rightarrow> pmm \<Rightarrow> pmm \<times> usize option" where
  "alloc_contiguous count m =
     (if count = 0 then (m, None)
      else if count = 1 then alloc_frame m
      else
        (case find_run [0..<total_frames m] count m None 0 of
           None \<Rightarrow> (m, None)
         | Some start \<Rightarrow>
             (m\<lparr>bitmap := fold (\<lambda>idx bm. bitmap_mark bm idx) [start..<start + count] (bitmap m),
                free_frames := wrap_sub (free_frames m) count\<rparr>,
              Some (frame_addr m start))))"

definition free_frame :: "usize \<Rightarrow> pmm \<Rightarrow> pmm" where
  "free_frame addr m =
     (if addr < base_addr m then m
      else
        let frame_idx = (addr - base_addr m) div PAGE_SIZE
        in if total_frames m \<le> frame_idx then m
           else if frame_idx div 8 < length (bitmap m) \<and> \<not> bitmap_clear (bitmap m) frame_idx
           then m\<lparr>bitmap := bitmap_unmark (bitmap m) frame_idx,
                   free_frames := wrap_add (free_frames m) 1\<rparr>
           else m)"

definition available_memory :: "pmm \<Rightarrow> usize" where
  "available_memory m = wrap_mul (free_frames m) PAGE_SIZE"

definition total_memory :: "pmm \<Rightarrow> usize" where
  "total_memory m = wrap_mul (usable_frames m) PAGE_SIZE"

section \<open>Construction from the boot memory map\<close>

definition copy_regions_from_boot :: "mem_region list \<Rightarrow> u64 \<Rightarrow> mem_region list" where
  "copy_regions_from_boot boot_mem_regions boot_mem_region_count =
     take (min (unat boot_mem_region_count) MAX_REGIONS) boot_mem_regions"

definition region_bounds :: "mem_region \<Rightarrow> usize \<times> usize \<Rightarrow> usize \<times> usize" where
  "region_bounds region acc =
     (case acc of (first, final) \<Rightarrow>
        if region_type region \<noteq> MEMMAP_USABLE \<or> unat (mr_length region) < PAGE_SIZE then (first, final)
        else
          let start = align_down (sat_add (unat (mr_base region)) (PAGE_SIZE - 1)) PAGE_SIZE;
              fin = align_down (sat_add (unat (mr_base region)) (unat (mr_length region))) PAGE_SIZE
          in if start < fin then (min first start, max final fin) else (first, final))"

definition usable_pool_bounds :: "mem_region list \<Rightarrow> (usize \<times> usize) option" where
  "usable_pool_bounds regions =
     (case fold region_bounds regions (usize_max, 0) of
        (first, final) \<Rightarrow> if first < final then Some (first, final) else None)"

definition enable_region :: "mem_region \<Rightarrow> pmm \<Rightarrow> pmm" where
  "enable_region region m =
     (if region_type region = MEMMAP_USABLE
      then fst (mark_region_free_in_pool (mr_base region) (mr_length region) m) else m)"

definition pmm_init :: "mem_region list \<Rightarrow> u64 \<Rightarrow> pmm option" where
  "pmm_init boot_mem_regions boot_mem_region_count =
     (let regions = copy_regions_from_boot boot_mem_regions boot_mem_region_count
      in if regions = [] then None
         else
           case usable_pool_bounds regions of
             None \<Rightarrow> None
           | Some (pool_start, pool_end) \<Rightarrow>
               let pool_size = pool_end - pool_start
               in if pool_size < PAGE_SIZE then None
                  else
                    let bitmap_size = (pool_size div PAGE_SIZE + 7) div 8
                    in if BITMAP_BYTES < bitmap_size then None
                       else
                         let m = reserve_all_frames (pmm_new pool_start pool_size (replicate bitmap_size 0));
                             m' = fold enable_region regions m
                         in if free_frames m' = 0 then None else Some m')"

definition stats_bytes :: "pmm option \<Rightarrow> u64 \<times> u64" where
  "stats_bytes pmm_instance =
     (case pmm_instance of
        Some m \<Rightarrow> (of_nat (total_memory m), of_nat (available_memory m)) | None \<Rightarrow> (0, 0))"

section \<open>Bits of the bitmap\<close>

lemma bit_mask_8: "k < 8 \<Longrightarrow> bit (2 ^ k :: u8) j \<longleftrightarrow> j = k"
  by (auto simp: bit_exp_iff)

lemma and_mask_eq_0: "k < 8 \<Longrightarrow> (b :: u8) AND 2 ^ k = 0 \<longleftrightarrow> \<not> bit b k"
  by (simp add: and_exp_eq_0_iff_not_bit)

lemma bitmap_clear_bit: "bitmap_clear bm i \<longleftrightarrow> \<not> bit (bm ! (i div 8)) (i mod 8)"
  by (simp add: bitmap_clear_def frame_mask_def and_mask_eq_0)

lemma same_frame: "(i :: nat) div 8 = j div 8 \<Longrightarrow> i mod 8 = j mod 8 \<longleftrightarrow> i = j"
  by (metis div_mult_mod_eq)

lemma length_bitmap_mark [simp]: "length (bitmap_mark bm i) = length bm"
  by (simp add: bitmap_mark_def)

lemma length_bitmap_unmark [simp]: "length (bitmap_unmark bm i) = length bm"
  by (simp add: bitmap_unmark_def)

lemma bitmap_clear_mark [simp]:
  assumes "i div 8 < length bm"
  shows "bitmap_clear (bitmap_mark bm i) j \<longleftrightarrow> i \<noteq> j \<and> bitmap_clear bm j"
  using assms same_frame [of i j]
  by (cases "i div 8 = j div 8")
    (auto simp: bitmap_clear_bit bitmap_mark_def frame_mask_def bit_or_iff bit_mask_8)

lemma bitmap_clear_unmark [simp]:
  assumes "i div 8 < length bm"
  shows "bitmap_clear (bitmap_unmark bm i) j \<longleftrightarrow> i = j \<or> bitmap_clear bm j"
  using assms same_frame [of i j]
  by (cases "i div 8 = j div 8")
    (auto simp: bitmap_clear_bit bitmap_unmark_def frame_mask_def bit_and_iff bit_not_iff bit_mask_8)

lemma length_fold_mark [simp]: "length (fold (\<lambda>i bm. bitmap_mark bm i) is bm) = length bm"
  by (induction "is" arbitrary: bm) simp_all

lemma bitmap_clear_fold_mark:
  "\<forall>i \<in> set is. i div 8 < length bm \<Longrightarrow>
     bitmap_clear (fold (\<lambda>i bm. bitmap_mark bm i) is bm) j \<longleftrightarrow> j \<notin> set is \<and> bitmap_clear bm j"
  by (induction "is" arbitrary: bm) auto

section \<open>Invariant and abstraction\<close>

definition pmm_free :: "pmm \<Rightarrow> nat set" where
  "pmm_free m = {i. i < total_frames m \<and> bitmap_clear (bitmap m) i}"

definition pmm_ok :: "pmm \<Rightarrow> bool" where
  "pmm_ok m \<longleftrightarrow> total_frames m \<le> 8 * length (bitmap m) \<and>
     free_frames m = card (pmm_free m) \<and>
     PAGE_SIZE dvd base_addr m \<and>
     base_addr m + total_frames m * PAGE_SIZE < usize_modulus"

definition frame_of :: "pmm \<Rightarrow> nat \<Rightarrow> usize" where
  "frame_of m i = base_addr m + i * PAGE_SIZE"

lemma finite_pmm_free [simp]: "finite (pmm_free m)"
  by (simp add: pmm_free_def)

lemma pmm_free_less: "i \<in> pmm_free m \<Longrightarrow> i < total_frames m"
  by (simp add: pmm_free_def)

lemma pmm_index_in_bitmap: "pmm_ok m \<Longrightarrow> i < total_frames m \<Longrightarrow> i div 8 < length (bitmap m)"
  by (auto simp: pmm_ok_def less_mult_imp_div_less mult.commute)

lemma frame_addr_exact:
  assumes "pmm_ok m" "i \<le> total_frames m"
  shows "frame_addr m i = frame_of m i"
proof -
  have "i * PAGE_SIZE \<le> total_frames m * PAGE_SIZE" using assms by simp
  moreover have "base_addr m + total_frames m * PAGE_SIZE < usize_modulus"
    using assms by (simp add: pmm_ok_def)
  ultimately have "base_addr m + i * PAGE_SIZE < usize_modulus" by linarith
  then show ?thesis by (simp add: frame_addr_def frame_of_def usize_arith)
qed

lemma frame_of_inj [simp]: "frame_of m i = frame_of m j \<longleftrightarrow> i = j"
  by (simp add: frame_of_def)

lemma card_pmm_free_less: "pmm_ok m \<Longrightarrow> card (pmm_free m) < usize_modulus"
proof -
  assume ok: "pmm_ok m"
  have "card (pmm_free m) \<le> card {..<total_frames m}"
    by (rule card_mono) (auto simp: pmm_free_def)
  also have "\<dots> \<le> total_frames m * PAGE_SIZE" by simp
  finally show ?thesis using ok by (simp add: pmm_ok_def)
qed

section \<open>Single-frame allocation\<close>

text \<open>Two states that differ at most in bitmap padding beyond the last frame of the pool.\<close>

definition pmm_eqv :: "pmm \<Rightarrow> pmm \<Rightarrow> bool" where
  "pmm_eqv m m' \<longleftrightarrow> total_frames m' = total_frames m \<and> base_addr m' = base_addr m \<and>
     free_frames m' = free_frames m \<and> usable_frames m' = usable_frames m \<and>
     length (bitmap m') = length (bitmap m) \<and>
     (\<forall>i < total_frames m. bitmap_clear (bitmap m') i = bitmap_clear (bitmap m) i)"

lemma pmm_eqv_refl [simp]: "pmm_eqv m m"
  by (simp add: pmm_eqv_def)

lemma pmm_eqv_fields:
  assumes "pmm_eqv m m'"
  shows "total_frames m' = total_frames m" "base_addr m' = base_addr m"
    "free_frames m' = free_frames m" "usable_frames m' = usable_frames m"
    "length (bitmap m') = length (bitmap m)" "frame_addr m' = frame_addr m"
  using assms by (simp_all add: pmm_eqv_def frame_addr_def fun_eq_iff)

lemma pmm_eqv_free: "pmm_eqv m m' \<Longrightarrow> pmm_free m' = pmm_free m"
  by (auto simp: pmm_free_def pmm_eqv_def)

lemma pmm_eqv_ok: "pmm_eqv m m' \<Longrightarrow> pmm_ok m \<Longrightarrow> pmm_ok m'"
  using pmm_eqv_fields [of m m'] pmm_eqv_free [of m m'] by (simp add: pmm_ok_def)

lemma pmm_eqv_trans: "pmm_eqv m m' \<Longrightarrow> pmm_eqv m' m'' \<Longrightarrow> pmm_eqv m m''"
  by (simp add: pmm_eqv_def)

lemma pmm_eqv_mark:
  "i div 8 < length (bitmap m) \<Longrightarrow> total_frames m \<le> i \<Longrightarrow>
     pmm_eqv m (m\<lparr>bitmap := bitmap_mark (bitmap m) i\<rparr>)"
  by (auto simp: pmm_eqv_def)

lemma bitmap_mark_byte:
  "j < 8 \<Longrightarrow> bm[b := bm ! b OR 2 ^ j] = bitmap_mark bm (b * 8 + j)"
  by (simp add: bitmap_mark_def frame_mask_def)

lemma bitmap_clear_byte: "j < 8 \<Longrightarrow> bitmap_clear bm (b * 8 + j) \<longleftrightarrow> \<not> bit (bm ! b) j"
  by (simp add: bitmap_clear_bit)

lemma alloc_bits_beyond:
  "\<forall>j \<in> set js. j < 8 \<and> total_frames m \<le> b * 8 + j \<Longrightarrow> b < length (bitmap m) \<Longrightarrow>
     pmm_eqv m (fst (alloc_bits byte b js m)) \<and> snd (alloc_bits byte b js m) = None"
proof (induction js arbitrary: m)
  case (Cons j js)
  let ?m = "m\<lparr>bitmap := bitmap_mark (bitmap m) (b * 8 + j)\<rparr>"
  have "pmm_eqv m ?m" using Cons.prems by (intro pmm_eqv_mark) auto
  moreover have "pmm_eqv ?m (fst (alloc_bits byte b js ?m)) \<and> snd (alloc_bits byte b js ?m) = None"
    using Cons.prems by (intro Cons.IH) auto
  ultimately show ?case using Cons.IH [of m] Cons.prems
    by (auto simp: Let_def bitmap_mark_byte intro: pmm_eqv_trans)
qed simp

lemma alloc_bits_spec:
  assumes "b < length (bitmap m)" "\<forall>j \<in> set js. j < 8" "sorted_wrt (<) js"
    and "alloc_bits (bitmap m ! b) b js m = (m', r)"
  shows "case r of
      None \<Rightarrow> pmm_eqv m m' \<and> (\<forall>j \<in> set js. b * 8 + j \<notin> pmm_free m)
    | Some a \<Rightarrow> \<exists>j \<in> set js. b * 8 + j \<in> pmm_free m \<and>
        (\<forall>l \<in> set js. l < j \<longrightarrow> b * 8 + l \<notin> pmm_free m) \<and> a = frame_addr m (b * 8 + j) \<and>
        m' = m\<lparr>bitmap := bitmap_mark (bitmap m) (b * 8 + j),
                free_frames := wrap_sub (free_frames m) 1\<rparr>"
  using assms
proof (induction js)
  case (Cons j js)
  consider (used) "bit (bitmap m ! b) j" | (hit) "b * 8 + j \<in> pmm_free m"
    | (beyond) "\<not> bit (bitmap m ! b) j" "total_frames m \<le> b * 8 + j"
    using Cons.prems(2)
    by (cases "bit (bitmap m ! b) j"; cases "b * 8 + j < total_frames m")
      (auto simp: pmm_free_def bitmap_clear_byte)
  then show ?case
  proof cases
    case used
    have notin: "b * 8 + j \<notin> pmm_free m"
      using used Cons.prems(2) by (simp add: pmm_free_def bitmap_clear_byte)
    have rest: "alloc_bits (bitmap m ! b) b js m = (m', r)"
      using used Cons.prems(2,4) by (simp add: Let_def and_mask_eq_0)
    have "\<forall>j \<in> set js. j < 8" "sorted_wrt (<) js" using Cons.prems(2,3) by simp_all
    from Cons.IH [OF Cons.prems(1) this rest] notin show ?thesis by (cases r) auto
  next
    case hit
    then have "\<not> bit (bitmap m ! b) j" "b * 8 + j < total_frames m"
      using Cons.prems by (auto simp: pmm_free_def bitmap_clear_byte)
    with hit Cons.prems show ?thesis
      by (auto simp: Let_def and_mask_eq_0 bitmap_mark_byte) (meson less_asym)
  next
    case beyond
    let ?m = "m\<lparr>bitmap := bitmap_mark (bitmap m) (b * 8 + j)\<rparr>"
    have eqv: "pmm_eqv m ?m" using beyond Cons.prems by (intro pmm_eqv_mark) auto
    have "pmm_eqv ?m (fst (alloc_bits (bitmap m ! b) b js ?m)) \<and>
        snd (alloc_bits (bitmap m ! b) b js ?m) = None"
      using beyond Cons.prems by (intro alloc_bits_beyond) auto
    moreover have "alloc_bits (bitmap m ! b) b js ?m = (m', r)"
      using beyond Cons.prems(2,4) by (simp add: Let_def and_mask_eq_0 bitmap_mark_byte)
    ultimately have "pmm_eqv m m'" "r = None" using eqv by (auto intro: pmm_eqv_trans)
    moreover have "\<forall>l \<in> set (j # js). b * 8 + l \<notin> pmm_free m"
      using beyond Cons.prems(3) by (auto simp: pmm_free_def)
    ultimately show ?thesis by simp
  qed
qed simp

lemma byte_full: "j < 8 \<Longrightarrow> bit (0xFF :: u8) j"
proof -
  assume "j < 8"
  then have "j \<in> {0, 1, 2, 3, 4, 5, 6, 7}" by auto
  then show ?thesis by (auto simp: bit_simps)
qed

lemma frame_split: "(i :: nat) = i div 8 * 8 + i mod 8"
  by (simp add: mult.commute)

lemma alloc_bytes_spec:
  assumes "\<forall>b \<in> set bs. b < length (bitmap m)" "sorted_wrt (<) bs" "alloc_bytes bs m = (m', r)"
  shows "case r of
      None \<Rightarrow> pmm_eqv m m' \<and> (\<forall>i \<in> pmm_free m. i div 8 \<notin> set bs)
    | Some a \<Rightarrow> \<exists>i m1. pmm_eqv m m1 \<and> i \<in> pmm_free m \<and>
        (\<forall>l \<in> pmm_free m. l div 8 \<in> set bs \<longrightarrow> i \<le> l) \<and> a = frame_addr m i \<and>
        m' = m1\<lparr>bitmap := bitmap_mark (bitmap m1) i, free_frames := wrap_sub (free_frames m1) 1\<rparr>"
  using assms
proof (induction bs arbitrary: m)
  case (Cons b bs)
  have IH: "pmm_eqv m m1 \<Longrightarrow> \<forall>i \<in> pmm_free m. i div 8 \<noteq> b \<Longrightarrow> alloc_bytes bs m1 = (m', r) \<Longrightarrow> ?case"
    for m1
  proof -
    assume e: "pmm_eqv m m1" and none: "\<forall>i \<in> pmm_free m. i div 8 \<noteq> b"
      and run: "alloc_bytes bs m1 = (m', r)"
    have "\<forall>b \<in> set bs. b < length (bitmap m1)" "sorted_wrt (<) bs"
      using Cons.prems pmm_eqv_fields [OF e] by auto
    from Cons.IH [OF this run] show ?case
      using e none pmm_eqv_free [OF e] pmm_eqv_fields [OF e]
      by (cases r; simp) (blast intro: pmm_eqv_trans)+
  qed
  show ?case
  proof (cases "bitmap m ! b = 0xFF")
    case True
    have "\<forall>i \<in> pmm_free m. i div 8 \<noteq> b"
    proof (intro ballI notI)
      fix i assume "i \<in> pmm_free m" and b: "i div 8 = b"
      then have "\<not> bit (bitmap m ! b) (i mod 8)" by (simp add: pmm_free_def bitmap_clear_bit)
      moreover have "bit (bitmap m ! b) (i mod 8)" unfolding True by (rule byte_full) simp
      ultimately show False by contradiction
    qed
    moreover have "alloc_bytes bs m = (m', r)" using True Cons.prems(3) by simp
    ultimately show ?thesis by (rule IH [OF pmm_eqv_refl])
  next
    case False
    obtain m1 q where bits: "alloc_bits (bitmap m ! b) b [0..<8] m = (m1, q)" by fastforce
    have spec: "case q of
        None \<Rightarrow> pmm_eqv m m1 \<and> (\<forall>j \<in> set [0..<8]. b * 8 + j \<notin> pmm_free m)
      | Some a \<Rightarrow> \<exists>j \<in> set [0..<8]. b * 8 + j \<in> pmm_free m \<and>
          (\<forall>l \<in> set [0..<8]. l < j \<longrightarrow> b * 8 + l \<notin> pmm_free m) \<and> a = frame_addr m (b * 8 + j) \<and>
          m1 = m\<lparr>bitmap := bitmap_mark (bitmap m) (b * 8 + j),
                  free_frames := wrap_sub (free_frames m) 1\<rparr>"
      by (rule alloc_bits_spec [OF _ _ _ bits]) (use Cons.prems(1) in \<open>auto simp: sorted_wrt_upt\<close>)
    show ?thesis
    proof (cases q)
      case None
      then have "alloc_bytes bs m1 = (m', r)" using bits False Cons.prems(3) by (simp add: Let_def)
      moreover have "\<forall>i \<in> pmm_free m. i div 8 \<noteq> b"
      proof
        fix i assume "i \<in> pmm_free m"
        then have "i div 8 * 8 + i mod 8 \<in> pmm_free m" using frame_split [of i] by simp
        moreover have "i mod 8 \<in> set [0..<8]" by simp
        ultimately show "i div 8 \<noteq> b" using spec None by (auto simp del: set_upt)
      qed
      moreover have "pmm_eqv m m1" using spec None by simp
      ultimately show ?thesis by (intro IH)
    next
      case (Some a)
      then obtain j where j: "j < 8" "b * 8 + j \<in> pmm_free m" "a = frame_addr m (b * 8 + j)"
          "\<forall>l < 8. l < j \<longrightarrow> b * 8 + l \<notin> pmm_free m"
          "m1 = m\<lparr>bitmap := bitmap_mark (bitmap m) (b * 8 + j),
                   free_frames := wrap_sub (free_frames m) 1\<rparr>"
        using spec by auto
      have "b * 8 + j \<le> l" if l: "l \<in> pmm_free m" "l div 8 \<in> set (b # bs)" for l
      proof (cases "l div 8 = b")
        case True
        with l(1) have "b * 8 + l mod 8 \<in> pmm_free m" using frame_split [of l] by simp
        with j(4) have "j \<le> l mod 8" by (meson mod_less_divisor not_le zero_less_numeral)
        then show ?thesis using True frame_split [of l] by linarith
      next
        case False
        with l(2) Cons.prems(2) have "b < l div 8" by auto
        then show ?thesis using j(1) frame_split [of l] by linarith
      qed
      moreover have "m' = m1 \<and> r = Some a" using Some bits False Cons.prems(3) by (simp add: Let_def)
      ultimately show ?thesis using j by (auto intro!: exI [of _ "b * 8 + j"] exI [of _ m])
    qed
  qed
qed simp

text \<open>Removing or returning one frame index.\<close>

lemma pmm_ok_remove:
  assumes ok: "pmm_ok m" and i: "i \<in> pmm_free m"
    and m': "m' = m\<lparr>bitmap := bitmap_mark (bitmap m) i, free_frames := wrap_sub (free_frames m) 1\<rparr>"
  shows "pmm_ok m' \<and> pmm_free m' = pmm_free m - {i}"
proof -
  have byte: "i div 8 < length (bitmap m)" using ok i by (intro pmm_index_in_bitmap pmm_free_less)
  then have free: "pmm_free m' = pmm_free m - {i}" by (auto simp: pmm_free_def m')
  have "0 < card (pmm_free m)" using i by (auto simp: card_gt_0_iff)
  then have "free_frames m' = card (pmm_free m')"
    using ok card_pmm_free_less [OF ok] i free
    by (simp add: m' pmm_ok_def wrap_sub_exact)
  then show ?thesis using ok free by (simp add: pmm_ok_def m')
qed

lemma alloc_frame_spec:
  assumes ok: "pmm_ok m" and run: "alloc_frame m = (m', r)"
  shows "pmm_ok m' \<and> total_frames m' = total_frames m \<and> base_addr m' = base_addr m \<and>
    usable_frames m' = usable_frames m \<and>
    (case r of None \<Rightarrow> pmm_free m = {} \<and> pmm_free m' = {}
     | Some a \<Rightarrow> pmm_free m \<noteq> {} \<and> a = frame_of m (Min (pmm_free m)) \<and>
         pmm_free m' = pmm_free m - {Min (pmm_free m)})"
proof -
  have in_range: "i div 8 \<in> set [0..<length (bitmap m)]" if "i \<in> pmm_free m" for i
    using that ok by (simp add: pmm_index_in_bitmap pmm_free_less)
  have spec: "case r of
      None \<Rightarrow> pmm_eqv m m' \<and> (\<forall>i \<in> pmm_free m. i div 8 \<notin> set [0..<length (bitmap m)])
    | Some a \<Rightarrow> \<exists>i m1. pmm_eqv m m1 \<and> i \<in> pmm_free m \<and>
        (\<forall>l \<in> pmm_free m. l div 8 \<in> set [0..<length (bitmap m)] \<longrightarrow> i \<le> l) \<and>
        a = frame_addr m i \<and>
        m' = m1\<lparr>bitmap := bitmap_mark (bitmap m1) i, free_frames := wrap_sub (free_frames m1) 1\<rparr>"
    by (rule alloc_bytes_spec) (use run in \<open>simp_all add: alloc_frame_def sorted_wrt_upt\<close>)
  show ?thesis
  proof (cases r)
    case None
    then show ?thesis using spec in_range ok pmm_eqv_ok pmm_eqv_free pmm_eqv_fields by auto
  next
    case (Some a)
    then obtain i m1 where i: "pmm_eqv m m1" "i \<in> pmm_free m" "\<forall>l \<in> pmm_free m. i \<le> l"
        "a = frame_addr m i"
        and m': "m' = m1\<lparr>bitmap := bitmap_mark (bitmap m1) i, free_frames := wrap_sub (free_frames m1) 1\<rparr>"
      using spec in_range by auto
    have "Min (pmm_free m) = i" using i by (intro Min_eqI) auto
    moreover have "pmm_ok m' \<and> pmm_free m' = pmm_free m - {i}"
      using pmm_ok_remove [OF pmm_eqv_ok [OF i(1) ok] _ m'] i pmm_eqv_free [OF i(1)] by simp
    ultimately show ?thesis
      using i ok Some m' pmm_eqv_fields [OF i(1)] frame_addr_exact [OF ok, of i]
      by (auto simp: pmm_free_def)
  qed
qed

lemma free_frame_spec:
  assumes ok: "pmm_ok m" and i: "i < total_frames m"
  shows "pmm_ok (free_frame (frame_of m i) m) \<and>
    pmm_free (free_frame (frame_of m i) m) = insert i (pmm_free m) \<and>
    total_frames (free_frame (frame_of m i) m) = total_frames m \<and>
    base_addr (free_frame (frame_of m i) m) = base_addr m"
proof (cases "i \<in> pmm_free m")
  case True
  then show ?thesis using ok i
    by (auto simp: free_frame_def frame_of_def pmm_free_def)
next
  case False
  have byte: "i div 8 < length (bitmap m)" using ok i by (rule pmm_index_in_bitmap)
  let ?m = "m\<lparr>bitmap := bitmap_unmark (bitmap m) i, free_frames := wrap_add (free_frames m) 1\<rparr>"
  have eq: "free_frame (frame_of m i) m = ?m"
    using False byte i by (simp add: free_frame_def frame_of_def pmm_free_def)
  have free: "pmm_free ?m = insert i (pmm_free m)" using byte i by (auto simp: pmm_free_def)
  have "card (insert i (pmm_free m)) \<le> card {..<total_frames m}"
    using i by (intro card_mono) (auto simp: pmm_free_def)
  also have "\<dots> \<le> total_frames m * PAGE_SIZE" by simp
  also have "\<dots> < usize_modulus" using ok by (simp add: pmm_ok_def)
  finally have "free_frames ?m = card (pmm_free ?m)"
    using ok False free by (simp add: pmm_ok_def wrap_add_exact)
  then show ?thesis using ok free eq by (simp add: pmm_ok_def)
qed

lemma free_frame_outside:
  assumes "\<And>i. i < total_frames m \<Longrightarrow> \<not> (frame_of m i \<le> a \<and> a < frame_of m i + PAGE_SIZE)"
  shows "free_frame a m = m"
proof (rule ccontr)
  let ?i = "(a - base_addr m) div PAGE_SIZE"
  assume "free_frame a m \<noteq> m"
  then have i: "?i < total_frames m" "base_addr m \<le> a"
    by (auto simp: free_frame_def Let_def split: if_splits)
  have "?i * PAGE_SIZE \<le> a - base_addr m" "a - base_addr m < ?i * PAGE_SIZE + PAGE_SIZE"
    by simp (metis PAGE_SIZE_pos add.commute dividend_less_div_times)
  then show False using assms [OF i(1)] i(2) unfolding frame_of_def by linarith
qed

section \<open>Contiguous allocation\<close>

definition free_run :: "pmm \<Rightarrow> nat \<Rightarrow> nat \<Rightarrow> bool" where
  "free_run m count start \<longleftrightarrow> {start..<start + count} \<subseteq> pmm_free m"

lemma free_run_bound: "free_run m count s \<Longrightarrow> 0 < count \<Longrightarrow> s + count \<le> total_frames m"
proof -
  assume "free_run m count s" "0 < count"
  then have "s + count - 1 \<in> pmm_free m" unfolding free_run_def by auto
  then show ?thesis using \<open>0 < count\<close> by (auto simp: pmm_free_def)
qed

lemma free_run_mem: "free_run m count s \<Longrightarrow> s \<le> k \<Longrightarrow> k < s + count \<Longrightarrow> k \<in> pmm_free m"
  by (auto simp: free_run_def)

lemma frame_free_test:
  "pmm_ok m \<Longrightarrow> k < total_frames m \<Longrightarrow>
     k div 8 < length (bitmap m) \<and> bitmap_clear (bitmap m) k \<longleftrightarrow> k \<in> pmm_free m"
  by (auto simp: pmm_free_def pmm_index_in_bitmap)

text \<open>The scan at frame \<open>k\<close> holds a run of free frames from \<open>s\<close>, shorter than the request, and no
  sufficient run starts before \<open>s\<close>.\<close>

lemma find_run_spec:
  assumes "pmm_ok m" "0 < count" "k \<le> total_frames m"
    and "s \<le> k" "{s..<k} \<subseteq> pmm_free m" "k - s < count" "\<forall>t. free_run m count t \<longrightarrow> s \<le> t"
    and "rs = (if s < k then Some s else None)" "rl = k - s"
  shows "case find_run [k..<total_frames m] count m rs rl of
      None \<Rightarrow> \<forall>t. \<not> free_run m count t
    | Some st \<Rightarrow> free_run m count st \<and> (\<forall>t. free_run m count t \<longrightarrow> st \<le> t)"
  using assms(3-)
proof (induction "total_frames m - k" arbitrary: k s rs rl)
  case 0
  then have "k = total_frames m" by simp
  moreover have "\<not> free_run m count t" for t
    using 0 free_run_bound [OF _ assms(2), of m t] by fastforce
  ultimately show ?case by simp
next
  case (Suc d)
  then have k: "k < total_frames m" by simp
  then have upt: "[k..<total_frames m] = k # [Suc k..<total_frames m]" by (rule upt_conv_Cons)
  show ?case
  proof (cases "k \<in> pmm_free m")
    case False
    have "Suc k \<le> t" if "free_run m count t" for t
    proof (rule ccontr)
      assume "\<not> Suc k \<le> t"
      with that Suc.prems(4,5) have "k \<in> pmm_free m" by (intro free_run_mem [OF that]) auto
      with False show False by simp
    qed
    then show ?thesis using Suc.hyps(1) [of "Suc k" "Suc k" None 0] Suc.hyps(2) k assms(2) False
      by (simp add: upt frame_free_test [OF assms(1)])
  next
    case True
    have run: "{s..<Suc k} \<subseteq> pmm_free m" using True Suc.prems(3) by (auto simp: less_Suc_eq)
    have state: "(case rs of None \<Rightarrow> (k, 1) | Some s' \<Rightarrow> (s', rl + 1)) = (s, Suc k - s)"
      using Suc.prems by auto
    have step: "find_run [k..<total_frames m] count m rs rl =
        (if Suc k - s = count then Some s
         else find_run [Suc k..<total_frames m] count m (Some s) (Suc k - s))"
      using True k by (simp only: upt find_run.simps frame_free_test [OF assms(1)] state) simp
    show ?thesis
    proof (cases "Suc k - s = count")
      case True
      then have "s + count = Suc k" using Suc.prems(2) by simp
      then have "free_run m count s" using run by (simp only: free_run_def)
      then show ?thesis using True Suc.prems(5) by (simp add: step)
    next
      case False
      then have "Suc k - s < count" using Suc.prems(2,4) by linarith
      then have "case find_run [Suc k..<total_frames m] count m (Some s) (Suc k - s) of
          None \<Rightarrow> \<forall>t. \<not> free_run m count t
        | Some st \<Rightarrow> free_run m count st \<and> (\<forall>t. free_run m count t \<longrightarrow> st \<le> t)"
        using Suc.hyps(2) k run Suc.prems(2,5) by (intro Suc.hyps(1)) auto
      then show ?thesis using False by (simp add: step)
    qed
  qed
qed

lemma mark_run_spec:
  assumes ok: "pmm_ok m" and s: "free_run m count s" and pos: "0 < count"
    and m': "m' = m\<lparr>bitmap := fold (\<lambda>idx bm. bitmap_mark bm idx) [s..<s + count] (bitmap m),
              free_frames := wrap_sub (free_frames m) count\<rparr>"
  shows "pmm_ok m' \<and> pmm_free m' = pmm_free m - {s..<s + count}"
proof -
  have bound: "s + count \<le> total_frames m" using s pos by (rule free_run_bound)
  have bytes: "\<forall>i \<in> set [s..<s + count]. i div 8 < length (bitmap m)"
    using bound ok by (auto intro!: pmm_index_in_bitmap)
  have "bitmap_clear (bitmap m') j \<longleftrightarrow> j \<notin> {s..<s + count} \<and> bitmap_clear (bitmap m) j" for j
    using bitmap_clear_fold_mark [OF bytes, of j] by (simp add: m' del: atLeastLessThan_iff)
  then have free: "pmm_free m' = pmm_free m - {s..<s + count}"
    unfolding pmm_free_def set_eq_iff by (simp add: m' del: atLeastLessThan_iff) blast
  have "card {s..<s + count} \<le> card (pmm_free m)" 
    using s by (intro card_mono) (auto simp: free_run_def)
  then have "wrap_sub (free_frames m) count = card (pmm_free m) - count"
    using ok card_pmm_free_less [OF ok] by (simp add: pmm_ok_def wrap_sub_exact)
  moreover have "card (pmm_free m - {s..<s + count}) = card (pmm_free m) - count"
    using s by (subst card_Diff_subset) (auto simp: free_run_def)
  ultimately have count: "free_frames m' = card (pmm_free m')" unfolding free by (simp add: m')
  have "length (bitmap m') = length (bitmap m)" "total_frames m' = total_frames m"
    "base_addr m' = base_addr m" by (simp_all add: m')
  with ok count free show ?thesis by (simp add: pmm_ok_def)
qed

lemma alloc_contiguous_spec:
  assumes ok: "pmm_ok m" and run: "alloc_contiguous count m = (m', r)"
  shows "pmm_ok m' \<and> total_frames m' = total_frames m \<and> base_addr m' = base_addr m \<and>
    (case r of
       None \<Rightarrow> pmm_free m' = pmm_free m \<and> (count = 0 \<or> (\<forall>t. \<not> free_run m count t))
     | Some a \<Rightarrow> \<exists>s. 0 < count \<and> free_run m count s \<and> (\<forall>t. free_run m count t \<longrightarrow> s \<le> t) \<and>
         a = frame_of m s \<and> pmm_free m' = pmm_free m - {s..<s + count})"
proof -
  consider (zero) "count = 0" | (one) "count = 1" | (many) "1 < count" by linarith
  then show ?thesis
  proof cases
    case zero
    then show ?thesis using ok run by (auto simp: alloc_contiguous_def)
  next
    case one
    then have eq: "alloc_frame m = (m', r)" using run by (simp add: alloc_contiguous_def)
    have single: "free_run m count t \<longleftrightarrow> t \<in> pmm_free m" for t using one by (simp add: free_run_def)
    have range: "{s..<s + count} = {s}" for s :: nat using one by auto
    note spec = alloc_frame_spec [OF ok eq]
    show ?thesis
    proof (cases r)
      case None
      then show ?thesis using spec by (simp add: single)
    next
      case (Some a)
      then have "Min (pmm_free m) \<in> pmm_free m" using spec by (intro Min_in) auto
      moreover have "\<forall>t. free_run m count t \<longrightarrow> Min (pmm_free m) \<le> t" by (simp add: single)
      moreover have "0 < count" using one by simp
      ultimately show ?thesis using spec Some
        by (simp add: range single)
    qed
  next
    case many
    have find: "case find_run [0..<total_frames m] count m None 0 of
        None \<Rightarrow> \<forall>t. \<not> free_run m count t
      | Some st \<Rightarrow> free_run m count st \<and> (\<forall>t. free_run m count t \<longrightarrow> st \<le> t)"
      by (rule find_run_spec [where s = 0]) (use ok many in auto)
    show ?thesis
    proof (cases "find_run [0..<total_frames m] count m None 0")
      case None
      then have "m' = m" "r = None" using run many by (simp_all add: alloc_contiguous_def)
      then show ?thesis using find None ok by simp
    next
      case (Some s)
      with find have s: "free_run m count s" "\<forall>t. free_run m count t \<longrightarrow> s \<le> t" by simp_all
      have pos: "0 < count" using many by simp
      have m': "m' = m\<lparr>bitmap := fold (\<lambda>idx bm. bitmap_mark bm idx) [s..<s + count] (bitmap m),
              free_frames := wrap_sub (free_frames m) count\<rparr>" and r: "r = Some (frame_addr m s)"
        using run many Some by (simp_all add: alloc_contiguous_def)
      have r': "r = Some (frame_of m s)"
        using r frame_addr_exact [OF ok, of s] free_run_bound [OF s(1) pos] by simp
      have "total_frames m' = total_frames m" "base_addr m' = base_addr m"
        by (simp_all add: m')
      with mark_run_spec [OF ok s(1) pos m'] s pos show ?thesis
        unfolding r' by simp
    qed
  qed
qed

section \<open>The boot memory map\<close>

text \<open>The invariant without the free counter, which a region scan updates only at its end.\<close>

definition pmm_shape :: "pmm \<Rightarrow> bool" where
  "pmm_shape m \<longleftrightarrow> pmm_ok (m\<lparr>free_frames := card (pmm_free m)\<rparr>)"

lemma pmm_free_free_frames [simp]: "pmm_free (m\<lparr>free_frames := n\<rparr>) = pmm_free m"
  by (simp add: pmm_free_def)

lemma pmm_free_usable_frames [simp]: "pmm_free (m\<lparr>usable_frames := n\<rparr>) = pmm_free m"
  by (simp add: pmm_free_def)

lemma pmm_ok_shape: "pmm_ok m \<longleftrightarrow> pmm_shape m \<and> free_frames m = card (pmm_free m)"
  by (auto simp: pmm_shape_def pmm_ok_def)

lemma pmm_shape_iff:
  "pmm_shape m \<longleftrightarrow> total_frames m \<le> 8 * length (bitmap m) \<and> PAGE_SIZE dvd base_addr m \<and>
     base_addr m + total_frames m * PAGE_SIZE < usize_modulus"
  by (simp add: pmm_shape_def pmm_ok_def)

lemma mark_frame_shape:
  assumes "pmm_shape m" "mark_frame_index_free i m = (m', freed)"
  shows "pmm_shape m' \<and> pmm_free m' = pmm_free m \<union> ({i} \<inter> {..<total_frames m}) \<and>
    (freed \<longleftrightarrow> i < total_frames m \<and> i \<notin> pmm_free m) \<and>
    total_frames m' = total_frames m \<and> base_addr m' = base_addr m \<and>
    free_frames m' = free_frames m \<and> usable_frames m' = usable_frames m"
proof -
  have "i < total_frames m \<Longrightarrow> i div 8 < length (bitmap m)"
    using assms(1) by (auto simp: pmm_shape_iff less_mult_imp_div_less mult.commute)
  then show ?thesis using assms
    by (auto simp: mark_frame_index_free_def pmm_free_def pmm_shape_iff split: if_splits)
qed

lemma mark_range_free_spec:
  assumes "pmm_shape m" "mark_range_free is m n = (m', n')"
  shows "pmm_shape m' \<and> pmm_free m' = pmm_free m \<union> (set is \<inter> {..<total_frames m}) \<and>
    n' = n + card (pmm_free m' - pmm_free m) \<and>
    total_frames m' = total_frames m \<and> base_addr m' = base_addr m \<and>
    free_frames m' = free_frames m \<and> usable_frames m' = usable_frames m"
  using assms
proof (induction "is" arbitrary: m n)
  case (Cons i "is")
  obtain m1 freed where m1: "mark_frame_index_free i m = (m1, freed)" by fastforce
  note one = mark_frame_shape [OF Cons.prems(1) m1]
  have "mark_range_free is m1 (if freed then n + 1 else n) = (m', n')"
    using Cons.prems(2) m1 by simp
  note rest = Cons.IH [OF conjunct1 [OF one] this]
  have "card (pmm_free m' - pmm_free m) = card (pmm_free m1 - pmm_free m) + card (pmm_free m' - pmm_free m1)"
  proof -
    have "pmm_free m' - pmm_free m = (pmm_free m1 - pmm_free m) \<union> (pmm_free m' - pmm_free m1)"
      using one rest by blast
    then show ?thesis by (simp add: card_Un_disjoint Int_def)
  qed
  moreover have "card (pmm_free m1 - pmm_free m) = (if freed then 1 else 0)"
  proof (cases freed)
    case True
    then have "pmm_free m1 - pmm_free m = {i}" using one by auto
    with True show ?thesis by simp
  next
    case False
    then have "pmm_free m1 - pmm_free m = {}" using one by auto
    with False show ?thesis by simp
  qed
  ultimately show ?case using one rest by auto
qed simp

text \<open>A frame lies in a region when the whole page does.\<close>

definition page_in_region :: "usize \<Rightarrow> u64 \<Rightarrow> u64 \<Rightarrow> bool" where
  "page_in_region p base len \<longleftrightarrow> unat base \<le> p \<and> p + PAGE_SIZE \<le> unat base + unat len"

lemma aligned_le_align_down: "PAGE_SIZE dvd p \<Longrightarrow> p \<le> align_down x PAGE_SIZE \<longleftrightarrow> p \<le> x"
proof
  assume p: "PAGE_SIZE dvd p" and le: "p \<le> x"
  from p obtain k where k: "p = PAGE_SIZE * k" ..
  have "PAGE_SIZE * k \<le> PAGE_SIZE * (x div PAGE_SIZE)"
    using le k by (simp add: less_eq_div_iff_mult_less_eq mult.commute)
  then show "p \<le> align_down x PAGE_SIZE"
    by (simp add: k align_down_def minus_mod_eq_mult_div)
qed (use align_down_le [of x PAGE_SIZE] in linarith)

lemma align_up_le_aligned:
  assumes p: "PAGE_SIZE dvd p" "p + PAGE_SIZE \<le> usize_max"
  shows "align_down (sat_add x (PAGE_SIZE - 1)) PAGE_SIZE \<le> p \<longleftrightarrow> x \<le> p"
proof
  assume "align_down (sat_add x (PAGE_SIZE - 1)) PAGE_SIZE \<le> p"
  then have "\<not> p + PAGE_SIZE \<le> align_down (sat_add x (PAGE_SIZE - 1)) PAGE_SIZE"
    by (simp add: PAGE_SIZE_def)
  then have "\<not> p + PAGE_SIZE \<le> sat_add x (PAGE_SIZE - 1)"
    using p by (subst (asm) aligned_le_align_down) auto
  then show "x \<le> p" using p by (auto simp: sat_add_def PAGE_SIZE_def min_def split: if_splits)
next
  assume "x \<le> p"
  then have "\<not> p + PAGE_SIZE \<le> sat_add x (PAGE_SIZE - 1)"
    by (auto simp: sat_add_def PAGE_SIZE_def min_def)
  then have "\<not> p + PAGE_SIZE \<le> align_down (sat_add x (PAGE_SIZE - 1)) PAGE_SIZE"
    using align_down_le [of "sat_add x (PAGE_SIZE - 1)" PAGE_SIZE] by linarith
  moreover obtain k where k: "p = PAGE_SIZE * k" using p by blast
  moreover obtain l where l: "align_down (sat_add x (PAGE_SIZE - 1)) PAGE_SIZE = PAGE_SIZE * l"
    using align_down_dvd by blast
  ultimately have "\<not> PAGE_SIZE * (k + 1) \<le> PAGE_SIZE * l" by simp
  then have "l < k + 1" by (metis mult_le_mono2 not_le)
  then show "align_down (sat_add x (PAGE_SIZE - 1)) PAGE_SIZE \<le> p" unfolding l k by simp
qed

lemma frame_of_dvd: "pmm_ok m \<Longrightarrow> PAGE_SIZE dvd frame_of m i"
  by (simp add: pmm_ok_def frame_of_def)

lemma frame_of_end:
  assumes "pmm_ok m" "i < total_frames m"
  shows "frame_of m i + PAGE_SIZE \<le> base_addr m + total_frames m * PAGE_SIZE"
proof -
  have "Suc i * PAGE_SIZE \<le> total_frames m * PAGE_SIZE" using assms(2) by (intro mult_le_mono1) simp
  then show ?thesis by (simp add: frame_of_def)
qed

lemma frame_index_div:
  assumes "pmm_ok m" "PAGE_SIZE dvd x" "base_addr m \<le> x"
  shows "(x - base_addr m) div PAGE_SIZE \<le> i \<longleftrightarrow> x \<le> frame_of m i"
proof -
  from assms have "PAGE_SIZE dvd x - base_addr m" by (simp add: pmm_ok_def)
  then obtain k where k: "x - base_addr m = PAGE_SIZE * k" ..
  then have "x = base_addr m + k * PAGE_SIZE" using assms(3) by (simp add: mult.commute)
  then show ?thesis using k by (simp add: frame_of_def)
qed

text \<open>Scanning one usable region frees exactly the frames whose page lies inside it.\<close>

lemma mark_region_spec:
  assumes ok: "pmm_ok m" and run: "mark_region_free_in_pool base len m = (m', n)"
  shows "pmm_ok m' \<and> total_frames m' = total_frames m \<and> base_addr m' = base_addr m \<and>
    pmm_free m' = pmm_free m \<union> {i. i < total_frames m \<and> page_in_region (frame_of m i) base len} \<and>
    (usable_frames m = free_frames m \<longrightarrow> usable_frames m' = free_frames m')"
proof -
  define start where "start = max (align_down (sat_add (unat base) (PAGE_SIZE - 1)) PAGE_SIZE) (base_addr m)"
  define pend where "pend = base_addr m + total_frames m * PAGE_SIZE"
  define fin where "fin = min (align_down (sat_add (unat base) (unat len)) PAGE_SIZE) pend"
  have pend_lt: "pend < usize_modulus" using ok by (simp add: pmm_ok_def pend_def)
  then have pend_max: "pend \<le> usize_max" by (simp add: le_usize_max_iff)
  have pool_end: "sat_add (base_addr m) (wrap_mul (total_frames m) PAGE_SIZE) = pend"
    using pend_lt pend_max by (simp add: pend_def usize_arith)
  have inside: "page_in_region (frame_of m i) base len \<longleftrightarrow>
      start \<le> frame_of m i \<and> frame_of m i + PAGE_SIZE \<le> fin" if "i < total_frames m" for i
  proof -
    have e: "frame_of m i + PAGE_SIZE \<le> pend"
      using frame_of_end [OF ok that] by (simp add: pend_def)
    have "start \<le> frame_of m i \<longleftrightarrow> unat base \<le> frame_of m i"
      using align_up_le_aligned [OF frame_of_dvd [OF ok], of i "unat base"] e pend_max
      by (simp add: start_def frame_of_def)
    moreover have "frame_of m i + PAGE_SIZE \<le> fin \<longleftrightarrow> frame_of m i + PAGE_SIZE \<le> unat base + unat len"
      using e pend_max aligned_le_align_down [of "frame_of m i + PAGE_SIZE"] frame_of_dvd [OF ok]
      by (simp add: fin_def sat_add_def)
    ultimately show ?thesis by (simp add: page_in_region_def)
  qed
  show ?thesis
  proof (cases "fin \<le> start")
    case True
    then have "\<not> page_in_region (frame_of m i) base len" if "i < total_frames m" for i
      using inside [OF that] PAGE_SIZE_pos by linarith
    moreover have "m' = m" using run True pool_end
      by (simp add: mark_region_free_in_pool_def Let_def start_def fin_def)
    ultimately show ?thesis using ok by auto
  next
    case False
    let ?is = "[(start - base_addr m) div PAGE_SIZE..<min ((fin - base_addr m) div PAGE_SIZE) (total_frames m)]"
    obtain m1 k where m1: "mark_range_free ?is m 0 = (m1, k)" by fastforce
    have m': "m' = m1\<lparr>usable_frames := wrap_add (usable_frames m1) k,
                       free_frames := wrap_add (free_frames m1) k\<rparr>"
      using run False pool_end m1
      by (auto simp: mark_region_free_in_pool_def Let_def start_def fin_def)
    have "PAGE_SIZE dvd start" "PAGE_SIZE dvd fin"
      using ok by (simp_all add: start_def fin_def pend_def pmm_ok_def align_down_dvd max_def min_def)
    moreover have "base_addr m \<le> start" by (simp add: start_def)
    ultimately have "(start - base_addr m) div PAGE_SIZE \<le> i \<longleftrightarrow> start \<le> frame_of m i"
      "i < (fin - base_addr m) div PAGE_SIZE \<longleftrightarrow> frame_of m i < fin" for i
      using False frame_index_div [OF ok, of start i] frame_index_div [OF ok, of fin i] by linarith+
    then have "set ?is \<inter> {..<total_frames m} =
        {i. i < total_frames m \<and> start \<le> frame_of m i \<and> frame_of m i < fin}" by auto
    moreover have "frame_of m i < fin \<longleftrightarrow> frame_of m i + PAGE_SIZE \<le> fin" for i
    proof -
      obtain a b where "frame_of m i = PAGE_SIZE * a" "fin = PAGE_SIZE * b"
        using frame_of_dvd [OF ok, of i] \<open>PAGE_SIZE dvd fin\<close> by (auto simp: dvd_def)
      then show ?thesis using mult_le_cancel1 [of PAGE_SIZE "a + 1" b] by (simp add: Suc_le_eq add.commute)
    qed
    ultimately have is_eq: "set ?is \<inter> {..<total_frames m} =
        {i. i < total_frames m \<and> page_in_region (frame_of m i) base len}"
      using inside by auto
    have spec: "pmm_shape m1 \<and> pmm_free m1 = pmm_free m \<union> (set ?is \<inter> {..<total_frames m}) \<and>
        k = 0 + card (pmm_free m1 - pmm_free m) \<and>
        total_frames m1 = total_frames m \<and> base_addr m1 = base_addr m \<and>
        free_frames m1 = free_frames m \<and> usable_frames m1 = usable_frames m"
      by (rule mark_range_free_spec) (use ok m1 pmm_ok_shape in auto)
    have sub: "card (pmm_free m) + card (pmm_free m1 - pmm_free m) = card (pmm_free m1)"
    proof -
      have le: "pmm_free m \<subseteq> pmm_free m1" using spec by blast
      then show ?thesis using card_mono [OF _ le] by (simp add: card_Diff_subset)
    qed
    have ok1: "pmm_ok (m1\<lparr>free_frames := card (pmm_free m1)\<rparr>)" 
      using conjunct1 [OF spec] by (simp only: pmm_shape_def)
    have "wrap_add (free_frames m1) k = card (pmm_free m1)"
      using spec sub ok card_pmm_free_less [OF ok1] by (simp add: wrap_add_exact pmm_ok_def)
    then have "pmm_ok m'" using conjunct1 [OF spec] by (simp add: m' pmm_ok_def pmm_shape_iff)
    moreover have "pmm_free m' = pmm_free m1" by (simp add: m')
    ultimately show ?thesis using spec is_eq by (simp add: m')
  qed
qed

definition usable_page :: "mem_region list \<Rightarrow> usize \<Rightarrow> bool" where
  "usable_page regions p \<longleftrightarrow>
     (\<exists>r \<in> set regions. region_type r = MEMMAP_USABLE \<and> page_in_region p (mr_base r) (mr_length r))"

lemma enable_regions_spec:
  assumes "pmm_ok m" "usable_frames m = free_frames m" "m' = fold enable_region rs m"
  shows "pmm_ok m' \<and> usable_frames m' = free_frames m' \<and>
    total_frames m' = total_frames m \<and> base_addr m' = base_addr m \<and>
    pmm_free m' = pmm_free m \<union> {i. i < total_frames m \<and> usable_page rs (frame_of m i)}"
  using assms
proof (induction rs arbitrary: m)
  case Nil
  then show ?case by (simp add: usable_page_def)
next
  case (Cons r rs)
  let ?m = "enable_region r m"
  have step: "pmm_ok ?m \<and> usable_frames ?m = free_frames ?m \<and>
      total_frames ?m = total_frames m \<and> base_addr ?m = base_addr m \<and>
      pmm_free ?m = pmm_free m \<union> {i. i < total_frames m \<and> usable_page [r] (frame_of m i)}"
  proof (cases "region_type r = MEMMAP_USABLE")
    case True
    obtain m1 n where run: "mark_region_free_in_pool (mr_base r) (mr_length r) m = (m1, n)" by fastforce
    with True have "?m = m1" by (simp add: enable_region_def)
    with mark_region_spec [OF Cons.prems(1) run] Cons.prems(2) True show ?thesis
      by (simp add: usable_page_def)
  next
    case False
    with Cons.prems show ?thesis by (simp add: enable_region_def usable_page_def)
  qed
  moreover have "frame_of ?m = frame_of m" using step by (simp add: frame_of_def fun_eq_iff)
  moreover have "m' = fold enable_region rs ?m" using Cons.prems(3) by simp
  note Cons.IH [OF _ _ this]
  ultimately show ?case by (auto simp: usable_page_def)
qed

lemma region_bounds_spec:
  assumes "fold region_bounds rs (first, final) = (first', final')"
    and "first = usize_max \<or> PAGE_SIZE dvd first" "PAGE_SIZE dvd final" "final \<le> usize_max"
  shows "(first' = usize_max \<or> PAGE_SIZE dvd first') \<and> PAGE_SIZE dvd final' \<and> final' \<le> usize_max \<and>
    first' \<le> first \<and> final \<le> final' \<and>
    (\<forall>p. PAGE_SIZE dvd p \<and> p + PAGE_SIZE \<le> usize_max \<and> usable_page rs p \<longrightarrow>
       first' \<le> p \<and> p + PAGE_SIZE \<le> final')"
  using assms
proof (induction rs arbitrary: first final)
  case Nil
  then show ?case by (simp add: usable_page_def)
next
  case (Cons r rs)
  obtain f1 l1 where one: "region_bounds r (first, final) = (f1, l1)" by fastforce
  let ?start = "align_down (sat_add (unat (mr_base r)) (PAGE_SIZE - 1)) PAGE_SIZE"
  let ?fin = "align_down (sat_add (unat (mr_base r)) (unat (mr_length r))) PAGE_SIZE"
  have fin_max: "?fin \<le> usize_max"
    using align_down_le [of "sat_add (unat (mr_base r)) (unat (mr_length r))" PAGE_SIZE]
    by (simp add: sat_add_def)
  have step: "(f1 = usize_max \<or> PAGE_SIZE dvd f1) \<and> PAGE_SIZE dvd l1 \<and> l1 \<le> usize_max \<and>
      f1 \<le> first \<and> final \<le> l1"
    using one Cons.prems(2-) fin_max align_down_dvd [of PAGE_SIZE]
    by (auto simp: region_bounds_def Let_def min_def max_def split: if_splits)
  have cover: "f1 \<le> p \<and> p + PAGE_SIZE \<le> l1"
    if p: "PAGE_SIZE dvd p" "p + PAGE_SIZE \<le> usize_max" "usable_page [r] p" for p
  proof -
    have r: "region_type r = MEMMAP_USABLE" "unat (mr_base r) \<le> p"
        "p + PAGE_SIZE \<le> unat (mr_base r) + unat (mr_length r)"
      using p by (simp_all add: usable_page_def page_in_region_def)
    have "?start \<le> p" using align_up_le_aligned [OF p(1,2)] r by simp
    moreover have "p + PAGE_SIZE \<le> ?fin"
      using p r by (subst aligned_le_align_down) (auto simp: sat_add_def)
    moreover have "PAGE_SIZE \<le> unat (mr_length r)" using r by linarith
    moreover have "?start < ?fin" using calculation PAGE_SIZE_pos by linarith
    ultimately show ?thesis using one r(1) by (auto simp: region_bounds_def Let_def)
  qed
  have "fold region_bounds rs (f1, l1) = (first', final')" using Cons.prems(1) one by simp
  from Cons.IH [OF this] step
  have IH: "(first' = usize_max \<or> PAGE_SIZE dvd first') \<and> PAGE_SIZE dvd final' \<and> final' \<le> usize_max \<and>
      first' \<le> f1 \<and> l1 \<le> final' \<and>
      (\<forall>p. PAGE_SIZE dvd p \<and> p + PAGE_SIZE \<le> usize_max \<and> usable_page rs p \<longrightarrow>
         first' \<le> p \<and> p + PAGE_SIZE \<le> final')" by blast
  have "usable_page (r # rs) p \<longleftrightarrow> usable_page [r] p \<or> usable_page rs p" for p
    by (auto simp: usable_page_def)
  then show ?case using IH step cover by (meson le_trans)
qed

lemma reserved_pool_ok:
  assumes "PAGE_SIZE dvd start" "start + sz < usize_modulus"
    and "m = reserve_all_frames (pmm_new start sz (replicate ((sz div PAGE_SIZE + 7) div 8) 0))"
  shows "pmm_ok m \<and> pmm_free m = {} \<and> total_frames m = sz div PAGE_SIZE \<and> base_addr m = start \<and>
    usable_frames m = free_frames m"
proof -
  let ?n = "(sz div PAGE_SIZE + 7) div 8"
  have m: "bitmap m = replicate ?n 0xFF" "total_frames m = sz div PAGE_SIZE" "base_addr m = start"
      "free_frames m = 0" "usable_frames m = 0"
    by (simp_all add: assms(3) reserve_all_frames_def pmm_new_def Let_def map_replicate_const)
  have le: "sz div PAGE_SIZE \<le> 8 * ?n" by linarith
  have "\<not> bitmap_clear (bitmap m) i" if "i < sz div PAGE_SIZE" for i
  proof -
    have "i div 8 < ?n" using that le by linarith
    then have "bitmap m ! (i div 8) = 0xFF" by (simp add: m)
    moreover have "bit (0xFF :: u8) (i mod 8)" by (rule byte_full) simp
    ultimately show ?thesis unfolding bitmap_clear_bit by presburger
  qed
  then have free: "pmm_free m = {}" by (auto simp: pmm_free_def m)
  have "sz div PAGE_SIZE * PAGE_SIZE \<le> sz" by simp
  then have "start + sz div PAGE_SIZE * PAGE_SIZE < usize_modulus" using assms(2) by linarith
  then show ?thesis using free le assms(1) by (simp add: pmm_ok_def m)
qed

section \<open>The allocator as an interface\<close>

definition pool_addrs :: "pmm \<Rightarrow> usize set" where
  "pool_addrs m = frame_of m ` {..<total_frames m}"

definition free_addrs :: "pmm \<Rightarrow> usize set" where
  "free_addrs m = frame_of m ` pmm_free m"

lemma frame_of_cong:
  "base_addr m' = base_addr m \<Longrightarrow> frame_of m' = frame_of m"
  by (simp add: frame_of_def fun_eq_iff)

lemma inj_frame_of: "inj (frame_of m)"
  by (simp add: inj_def)

lemma alloc_frame_contract_Some:
  assumes ok: "pmm_ok m" and run: "alloc_frame m = (m', Some a)"
  shows "pmm_ok m' \<and> pool_addrs m' = pool_addrs m \<and> a \<in> free_addrs m \<and>
    free_addrs m' = free_addrs m - {a}"
proof -
  let ?i = "Min (pmm_free m)"
  note spec = alloc_frame_spec [OF ok run, simplified]
  have eq: "frame_of m' = frame_of m" using spec by (intro frame_of_cong) simp
  have "?i \<in> pmm_free m" using spec by (intro Min_in) simp_all
  moreover have "frame_of m ` (pmm_free m - {?i}) = frame_of m ` pmm_free m - {frame_of m ?i}"
    by (simp add: image_set_diff [OF inj_frame_of])
  ultimately show ?thesis using spec unfolding free_addrs_def pool_addrs_def eq by simp
qed

lemma alloc_frame_contract_None:
  assumes ok: "pmm_ok m" and run: "alloc_frame m = (m', None)"
  shows "pmm_ok m' \<and> pool_addrs m' = pool_addrs m \<and> free_addrs m = {} \<and> free_addrs m' = {}"
proof -
  note spec = alloc_frame_spec [OF ok run, simplified]
  have eq: "frame_of m' = frame_of m" using spec by (intro frame_of_cong) simp
  show ?thesis using spec unfolding free_addrs_def pool_addrs_def eq by simp
qed

lemma free_frame_contract:
  assumes ok: "pmm_ok m" and a: "a \<in> pool_addrs m"
  shows "pmm_ok (free_frame a m) \<and> pool_addrs (free_frame a m) = pool_addrs m \<and>
    free_addrs (free_frame a m) = insert a (free_addrs m)"
proof -
  obtain i where i: "i < total_frames m" "a = frame_of m i" using a by (auto simp: pool_addrs_def)
  note spec = free_frame_spec [OF ok i(1), folded i(2)]
  have eq: "frame_of (free_frame a m) = frame_of m" using spec by (intro frame_of_cong) simp
  show ?thesis using spec unfolding free_addrs_def pool_addrs_def eq by (simp add: i(2))
qed

interpretation frames: frame_allocator pmm_ok pool_addrs free_addrs alloc_frame free_frame
proof (unfold_locales)
  show "free_addrs m \<subseteq> pool_addrs m" for m
    unfolding free_addrs_def pool_addrs_def by (rule image_mono) (auto simp: pmm_free_def)
  show "finite (free_addrs m)" for m by (simp add: free_addrs_def)
qed (fact alloc_frame_contract_Some alloc_frame_contract_None free_frame_contract)+

section \<open>Properties\<close>

lemma pmm_init_spec:
  assumes "pmm_init boot_regions cnt = Some m"
  shows "pmm_ok m \<and> usable_frames m = free_frames m \<and> 0 < free_frames m \<and>
    (\<forall>p. PAGE_SIZE dvd p \<and> p + PAGE_SIZE \<le> usize_max \<longrightarrow>
       (p \<in> free_addrs m \<longleftrightarrow> usable_page (copy_regions_from_boot boot_regions cnt) p))"
proof -
  let ?rs = "copy_regions_from_boot boot_regions cnt"
  obtain first final where b: "fold region_bounds ?rs (usize_max, 0) = (first, final)" "first < final"
      and m: "m = fold enable_region ?rs (reserve_all_frames
        (pmm_new first (final - first) (replicate (((final - first) div PAGE_SIZE + 7) div 8) 0)))"
      and pos: "free_frames m \<noteq> 0"
    using assms by (auto simp: pmm_init_def usable_pool_bounds_def Let_def
        split: option.splits if_splits prod.splits)
  note bounds = region_bounds_spec [OF b(1)]
  have first: "PAGE_SIZE dvd first" "PAGE_SIZE dvd final" "final \<le> usize_max"
    using bounds b(2) by auto
  define m0 where "m0 = reserve_all_frames
    (pmm_new first (final - first) (replicate (((final - first) div PAGE_SIZE + 7) div 8) 0))"
  have m0: "pmm_ok m0 \<and> pmm_free m0 = {} \<and> total_frames m0 = (final - first) div PAGE_SIZE \<and>
      base_addr m0 = first \<and> usable_frames m0 = free_frames m0"
    by (rule reserved_pool_ok) (use first b(2) m0_def le_usize_max_iff in auto)
  have spec: "pmm_ok m \<and> usable_frames m = free_frames m \<and>
      total_frames m = total_frames m0 \<and> base_addr m = base_addr m0 \<and>
      pmm_free m = pmm_free m0 \<union> {i. i < total_frames m0 \<and> usable_page ?rs (frame_of m0 i)}"
    by (rule enable_regions_spec) (use m0 m in \<open>simp_all add: m0_def\<close>)
  have eq: "frame_of m = frame_of m0" using spec by (intro frame_of_cong) simp
  have pool: "\<exists>i < total_frames m0. p = frame_of m0 i"
    if p: "PAGE_SIZE dvd p" "p + PAGE_SIZE \<le> usize_max" "usable_page ?rs p" for p
  proof -
    have in_pool: "first \<le> p" "p + PAGE_SIZE \<le> final" using bounds p by auto
    obtain a b c where abc: "p = PAGE_SIZE * a" "first = PAGE_SIZE * b" "final = PAGE_SIZE * c"
      using p first by (auto simp: dvd_def)
    then have "b \<le> a" "a < c" using in_pool mult_le_cancel1 [of PAGE_SIZE "a + 1" c]
      by (simp_all add: Suc_le_eq add.commute)
    moreover have "total_frames m0 = c - b"
      using m0 abc by (simp flip: diff_mult_distrib2)
    moreover have "p = frame_of m0 (a - b)"
      using m0 abc \<open>b \<le> a\<close> by (simp add: frame_of_def mult.commute flip: add_mult_distrib2)
    ultimately show ?thesis by (intro exI [of _ "a - b"]) simp
  qed
  have "p \<in> free_addrs m \<longleftrightarrow> usable_page ?rs p"
    if "PAGE_SIZE dvd p \<and> p + PAGE_SIZE \<le> usize_max" for p
    using spec m0 pool that by (auto simp: free_addrs_def eq)
  then show ?thesis using spec pos by simp
qed

text \<open>
  C5. The pool built at boot is exact: a page-aligned physical page (below the top page of the
  address space) is available for allocation after \<^const>\<open>pmm_init\<close> exactly when it lies completely
  inside a region that the boot memory map marks usable; the free and usable counters agree with
  the bitmap, and initialisation succeeds only with at least one free frame.
\<close>
theorem pmm_init_exact:
  assumes "pmm_init boot_regions cnt = Some m"
    and "PAGE_SIZE dvd p" "p + PAGE_SIZE \<le> usize_max"
  shows "(p \<in> free_addrs m \<longleftrightarrow> usable_page (copy_regions_from_boot boot_regions cnt) p) \<and>
    pmm_ok m \<and> usable_frames m = free_frames m \<and> 0 < free_frames m"
  using pmm_init_spec [OF assms(1)] assms(2,3) by blast

lemmas pmm_eval = PAGE_SIZE_def sat_add_def usize_max_def usize_modulus_def align_down_def

lemma pmm_init_example:
  "pmm_init [\<lparr>mr_base = 0x1000, mr_length = 0x3000, region_type = 0\<rparr>,
             \<lparr>mr_base = 0x4000, mr_length = 0x1000, region_type = 1\<rparr>] 2 =
   Some \<lparr>bitmap = [0xF8], total_frames = 3, usable_frames = 3, free_frames = 3, base_addr = 0x1000\<rparr>"
proof -
  let ?r = "[\<lparr>mr_base = 0x1000, mr_length = 0x3000, region_type = 0\<rparr>,
             \<lparr>mr_base = 0x4000, mr_length = 0x1000, region_type = 1\<rparr>] :: mem_region list"
  have copy: "copy_regions_from_boot ?r 2 = ?r" by (simp add: copy_regions_from_boot_def MAX_REGIONS_def)
  have bounds: "usable_pool_bounds ?r = Some (0x1000, 0x4000)"
    by (simp add: usable_pool_bounds_def region_bounds_def MEMMAP_USABLE_def pmm_eval)
  have fresh: "reserve_all_frames (pmm_new 0x1000 0x3000 [0]) =
      \<lparr>bitmap = [0xFF], total_frames = 3, usable_frames = 0, free_frames = 0, base_addr = 0x1000\<rparr>"
    by (simp add: pmm_new_def reserve_all_frames_def pmm_eval)
  have mark: "mark_region_free_in_pool 0x1000 0x3000
      \<lparr>bitmap = [0xFF], total_frames = 3, usable_frames = 0, free_frames = 0, base_addr = 0x1000\<rparr> =
      (\<lparr>bitmap = [0xF8], total_frames = 3, usable_frames = 3, free_frames = 3, base_addr = 0x1000\<rparr>, 3)"
    by (simp add: mark_region_free_in_pool_def wrap_mul_def wrap_add_def mark_frame_index_free_def
        bitmap_clear_def bitmap_unmark_def frame_mask_def upt_conv_Cons pmm_eval)
  show ?thesis
    unfolding pmm_init_def copy
    by (simp add: bounds fresh mark enable_region_def MEMMAP_USABLE_def BITMAP_BYTES_def PAGE_SIZE_def)
qed

theorem pmm_init_exact_witness:
  "\<exists>m. pmm_init [\<lparr>mr_base = 0x1000, mr_length = 0x3000, region_type = 0\<rparr>,
                 \<lparr>mr_base = 0x4000, mr_length = 0x1000, region_type = 1\<rparr>] 2 = Some m \<and>
       0x2000 \<in> free_addrs m \<and> 0x4000 \<notin> free_addrs m"
  using pmm_init_exact [OF pmm_init_example, of "0x2000"]
    pmm_init_exact [OF pmm_init_example, of "0x4000"] pmm_init_example
  by (simp add: PAGE_SIZE_def usize_max_def usize_modulus_def usable_page_def page_in_region_def
      MEMMAP_USABLE_def copy_regions_from_boot_def MAX_REGIONS_def)

text \<open>
  C10. Single-frame allocation takes the lowest free frame, keeps the bitmap and the free counter
  consistent, and fails exactly when no frame is free; releasing the frame restores the previous
  free set.
\<close>
theorem pmm_alloc_free_roundtrip:
  assumes "pmm_ok m"
  shows "case alloc_frame m of
      (m', None) \<Rightarrow> pmm_free m = {} \<and> pmm_ok m'
    | (m', Some a) \<Rightarrow> pmm_ok m' \<and> a = frame_of m (Min (pmm_free m)) \<and>
        free_frames m' + 1 = free_frames m \<and>
        pmm_ok (free_frame a m') \<and> free_addrs (free_frame a m') = free_addrs m"
proof -
  obtain m' r where run: "alloc_frame m = (m', r)" by fastforce
  note spec = alloc_frame_spec [OF assms run]
  show ?thesis
  proof (cases r)
    case None
    then show ?thesis using spec run by simp
  next
    case (Some a)
    then have run': "alloc_frame m = (m', Some a)" using run by simp
    have "Min (pmm_free m) \<in> pmm_free m" using spec Some by (intro Min_in) simp_all
    then have "card (pmm_free m') + 1 = card (pmm_free m)"
      using spec Some by (simp add: card_gt_0_iff)
    moreover have "free_frames m' = card (pmm_free m')" "free_frames m = card (pmm_free m)"
      using spec assms by (simp_all add: pmm_ok_def)
    ultimately show ?thesis using spec Some run' frames.alloc_dealloc [OF assms run'] by simp
  qed
qed

theorem pmm_alloc_free_roundtrip_witness:
  "case alloc_frame \<lparr>bitmap = [0xF8], total_frames = 3, usable_frames = 3, free_frames = 3,
      base_addr = 0x1000\<rparr> of
     (m', None) \<Rightarrow> False | (m', Some a) \<Rightarrow> a = 0x1000 \<and> pmm_ok m'"
proof -
  let ?m = "\<lparr>bitmap = [0xF8], total_frames = 3, usable_frames = 3, free_frames = 3, base_addr = 0x1000\<rparr>"
  have "pmm_ok ?m" using pmm_init_spec [OF pmm_init_example] by simp
  from pmm_alloc_free_roundtrip [OF this] show ?thesis
    by (simp add: alloc_frame_def upt_conv_Cons frame_addr_def wrap_add_def wrap_mul_def
        wrap_sub_def pmm_eval Let_def)
qed

text \<open>
  C9. Contiguous allocation is first fit: it returns the lowest run of \<open>count\<close> consecutive free
  frames and marks exactly those frames used; it fails exactly when \<open>count\<close> is zero or no such run
  exists, and then changes no frame.
\<close>
theorem pmm_alloc_contiguous_first_fit:
  assumes "pmm_ok m" "alloc_contiguous count m = (m', r)"
  shows "pmm_ok m' \<and>
    (case r of
       None \<Rightarrow> pmm_free m' = pmm_free m \<and> (count = 0 \<or> (\<forall>t. \<not> free_run m count t))
     | Some a \<Rightarrow> \<exists>s. 0 < count \<and> free_run m count s \<and> (\<forall>t. free_run m count t \<longrightarrow> s \<le> t) \<and>
         a = frame_of m s \<and> pmm_free m' = pmm_free m - {s..<s + count})"
  using alloc_contiguous_spec [OF assms] by blast

theorem pmm_alloc_contiguous_first_fit_witness:
  "\<exists>m'. alloc_contiguous 2 \<lparr>bitmap = [0xF8], total_frames = 3, usable_frames = 3, free_frames = 3,
      base_addr = 0x1000\<rparr> = (m', Some 0x1000) \<and> pmm_ok m'"
proof -
  let ?m = "\<lparr>bitmap = [0xF8], total_frames = 3, usable_frames = 3, free_frames = 3, base_addr = 0x1000\<rparr>"
  have ok: "pmm_ok ?m" using pmm_init_spec [OF pmm_init_example] by simp
  obtain m' where run: "alloc_contiguous 2 ?m = (m', Some 0x1000)"
    by (simp add: alloc_contiguous_def bitmap_clear_def frame_mask_def upt_conv_Cons frame_addr_def
        wrap_add_def wrap_mul_def pmm_eval)
  then show ?thesis using pmm_alloc_contiguous_first_fit [OF ok run] by simp
qed

end
