(* ===== verification/Ipc.thy ===== *)
theory Ipc
  imports Pmm
begin

text \<open>
  The IPC manager (\<^verbatim>\<open>kernel/src/ipc/mod.rs\<close>): bounded per-process message queues and shared memory
  regions. The process table decides whether a target exists (argument \<open>exists\<close>); frames come from
  the physical memory manager. Sending also wakes waiters, which is done by the composition with
  the process table.
\<close>

section \<open>Data\<close>

definition MAX_MESSAGE_SIZE :: nat where
  "MAX_MESSAGE_SIZE = 256"

definition MAX_QUEUE_MESSAGES :: nat where
  "MAX_QUEUE_MESSAGES = 128"

record shared_region =
  sr_id :: u64
  physical_addr :: u64
  sr_size :: usize
  owners :: "u64 list"

definition region_new :: "u64 \<Rightarrow> u64 \<Rightarrow> usize \<Rightarrow> shared_region" where
  "region_new sid addr sz = \<lparr>sr_id = sid, physical_addr = addr, sr_size = sz, owners = []\<rparr>"

definition add_owner :: "u64 \<Rightarrow> shared_region \<Rightarrow> shared_region" where
  "add_owner pid r = (if pid \<in> set (owners r) then r else r\<lparr>owners := owners r @ [pid]\<rparr>)"

definition remove_owner :: "u64 \<Rightarrow> shared_region \<Rightarrow> shared_region" where
  "remove_owner pid r = r\<lparr>owners := filter (\<lambda>p. p \<noteq> pid) (owners r)\<rparr>"

datatype message_type =
    MouseEvent "32 word" "32 word" u8
  | KeyboardEvent u8 bool
  | RenderFrame u64
  | WindowCreate u32 u32
  | WindowClose u32

record message =
  msg_sender :: u64
  msg_type :: message_type
  msg_len :: usize
  msg_data :: bytes

definition message_new :: "u64 \<Rightarrow> message_type \<Rightarrow> message" where
  "message_new sender t =
     \<lparr>msg_sender = sender, msg_type = t, msg_len = 0, msg_data = replicate MAX_MESSAGE_SIZE 0\<rparr>"

definition with_data :: "u64 \<Rightarrow> message_type \<Rightarrow> bytes \<Rightarrow> message" where
  "with_data sender t data =
     (let len = min (length data) MAX_MESSAGE_SIZE; m = message_new sender t
      in m\<lparr>msg_data := copy_at 0 (take len data) (msg_data m), msg_len := len\<rparr>)"

datatype ipc_error = InvalidTarget | MessageTooLarge | QueueFull | NoMessage | Unavailable

record ipc_manager =
  shared_regions :: "(u64, shared_region) btree"
  message_queues :: "(u64, message list) btree"
  next_shared_id :: u64

record ipc_stats =
  queue_count :: u64
  queued_messages :: u64
  region_count :: u64
  max_queue_messages :: u64

definition ipc_new :: ipc_manager where
  "ipc_new = \<lparr>shared_regions = [], message_queues = [], next_shared_id = 1\<rparr>"

section \<open>Operations\<close>

text \<open>Indexing the first frame of an empty allocation is a panic.\<close>

definition create_shared_memory ::
  "usize \<Rightarrow> ipc_manager \<Rightarrow> pmm option \<Rightarrow> (ipc_manager \<times> pmm option \<times> u64 option) outcome" where
  "create_shared_memory sz ipc pm =
     (case pm of
        None \<Rightarrow> Ret (ipc, None, None)
      | Some m \<Rightarrow>
          let num_pages = wrap_add sz 4095 div 4096
          in case take_frames alloc_frame free_frame num_pages [] m of
               (m', None) \<Rightarrow> Ret (ipc, Some m', None)
             | (m', Some []) \<Rightarrow> Panic
             | (m', Some (f # _)) \<Rightarrow>
                 let sid = next_shared_id ipc
                 in Ret (ipc\<lparr>next_shared_id := sid + 1,
                             shared_regions := bt_put sid (region_new sid (of_nat f) sz) (shared_regions ipc)\<rparr>,
                         Some m', Some sid))"

definition attach_shared_memory :: "u64 \<Rightarrow> u64 \<Rightarrow> ipc_manager \<Rightarrow> ipc_manager \<times> u64 option" where
  "attach_shared_memory sid pid ipc =
     (case bt_get (shared_regions ipc) sid of
        None \<Rightarrow> (ipc, None)
      | Some r \<Rightarrow>
          (ipc\<lparr>shared_regions := bt_put sid (add_owner pid r) (shared_regions ipc)\<rparr>, Some (physical_addr r)))"

definition detach_shared_memory :: "u64 \<Rightarrow> u64 \<Rightarrow> ipc_manager \<Rightarrow> ipc_manager" where
  "detach_shared_memory sid pid ipc =
     (case bt_get (shared_regions ipc) sid of
        None \<Rightarrow> ipc
      | Some r \<Rightarrow>
          let r' = remove_owner pid r
          in ipc\<lparr>shared_regions :=
               (if owners r' = [] then bt_del sid (shared_regions ipc)
                else bt_put sid r' (shared_regions ipc))\<rparr>)"

definition get_shared_region :: "u64 \<Rightarrow> ipc_manager \<Rightarrow> shared_region option" where
  "get_shared_region sid ipc = bt_get (shared_regions ipc) sid"

definition queue_of :: "u64 \<Rightarrow> ipc_manager \<Rightarrow> message list" where
  "queue_of pid ipc = (case bt_get (message_queues ipc) pid of None \<Rightarrow> [] | Some q \<Rightarrow> q)"

definition send_message ::
  "(u64 \<Rightarrow> bool) \<Rightarrow> u64 \<Rightarrow> message \<Rightarrow> ipc_manager \<Rightarrow> ipc_manager \<times> (ipc_error + unit)" where
  "send_message exists target msg ipc =
     (if \<not> exists target then (ipc, Inl InvalidTarget)
      else
        let queue = queue_of target ipc
        in if MAX_QUEUE_MESSAGES \<le> length queue
           then (ipc\<lparr>message_queues := bt_put target queue (message_queues ipc)\<rparr>, Inl QueueFull)
           else (ipc\<lparr>message_queues := bt_put target (queue @ [msg]) (message_queues ipc)\<rparr>, Inr ()))"

definition receive_message :: "u64 \<Rightarrow> ipc_manager \<Rightarrow> ipc_manager \<times> message option" where
  "receive_message pid ipc =
     (case bt_get (message_queues ipc) pid of
        None \<Rightarrow> (ipc, None)
      | Some [] \<Rightarrow> (ipc, None)
      | Some (m # ms) \<Rightarrow> (ipc\<lparr>message_queues := bt_put pid ms (message_queues ipc)\<rparr>, Some m))"

definition has_messages :: "u64 \<Rightarrow> ipc_manager \<Rightarrow> bool" where
  "has_messages pid ipc =
     (case bt_get (message_queues ipc) pid of None \<Rightarrow> False | Some q \<Rightarrow> q \<noteq> [])"

definition clear_messages :: "u64 \<Rightarrow> ipc_manager \<Rightarrow> ipc_manager" where
  "clear_messages pid ipc = ipc\<lparr>message_queues := bt_del pid (message_queues ipc)\<rparr>"

definition manager_stats :: "ipc_manager \<Rightarrow> ipc_stats" where
  "manager_stats ipc =
     \<lparr>queue_count = of_nat (length (message_queues ipc)),
      queued_messages = fold (\<lambda>(pid, q) n. n + of_nat (length q)) (message_queues ipc) 0,
      region_count = of_nat (length (shared_regions ipc)),
      max_queue_messages = of_nat MAX_QUEUE_MESSAGES\<rparr>"

definition ipc_stats_of :: "ipc_manager option \<Rightarrow> ipc_stats" where
  "ipc_stats_of oipc =
     (case oipc of
        Some ipc \<Rightarrow> manager_stats ipc
      | None \<Rightarrow> \<lparr>queue_count = 0, queued_messages = 0, region_count = 0, max_queue_messages = 0\<rparr>)"

definition ipc_init :: "ipc_manager option \<times> ipc_stats" where
  "ipc_init = (Some ipc_new, ipc_stats_of (Some ipc_new))"

text \<open>Sending bytes up to the waking of the receiver.\<close>

definition send_bytes_queue ::
  "(u64 \<Rightarrow> bool) \<Rightarrow> u64 \<Rightarrow> u64 \<Rightarrow> bytes \<Rightarrow> ipc_manager option \<Rightarrow> ipc_manager option \<times> (ipc_error + unit)" where
  "send_bytes_queue exists sender target data oipc =
     (if data = [] \<or> MAX_MESSAGE_SIZE < length data then (oipc, Inl MessageTooLarge)
      else
        case oipc of
          None \<Rightarrow> (None, Inl Unavailable)
        | Some ipc \<Rightarrow>
            (case send_message exists target (with_data sender (WindowClose 0) data) ipc of
               (ipc', r) \<Rightarrow> (Some ipc', r)))"

definition recv_bytes_with_sender ::
  "u64 \<Rightarrow> bytes \<Rightarrow> ipc_manager option \<Rightarrow> ipc_manager option \<times> bytes \<times> (ipc_error + u64 \<times> usize)" where
  "recv_bytes_with_sender pid out oipc =
     (case oipc of
        None \<Rightarrow> (None, out, Inl Unavailable)
      | Some ipc \<Rightarrow>
          (case bt_get (message_queues ipc) pid of
             None \<Rightarrow> (oipc, out, Inl NoMessage)
           | Some [] \<Rightarrow> (oipc, out, Inl NoMessage)
           | Some (m # ms) \<Rightarrow>
               if length out < msg_len m then (oipc, out, Inl MessageTooLarge)
               else (Some (ipc\<lparr>message_queues := bt_put pid ms (message_queues ipc)\<rparr>),
                     copy_at 0 (take (msg_len m) (msg_data m)) out,
                     Inr (msg_sender m, msg_len m))))"

definition recv_bytes :: "u64 \<Rightarrow> bytes \<Rightarrow> ipc_manager option \<Rightarrow> ipc_manager option \<times> bytes \<times> (ipc_error + usize)" where
  "recv_bytes pid out oipc =
     (case recv_bytes_with_sender pid out oipc of
        (oipc', out', Inl e) \<Rightarrow> (oipc', out', Inl e)
      | (oipc', out', Inr (sender, len)) \<Rightarrow> (oipc', out', Inr len))"

section \<open>Invariant\<close>

definition message_ok :: "message \<Rightarrow> bool" where
  "message_ok m \<longleftrightarrow> length (msg_data m) = MAX_MESSAGE_SIZE \<and> msg_len m \<le> MAX_MESSAGE_SIZE"

definition ipc_ok :: "ipc_manager \<Rightarrow> bool" where
  "ipc_ok ipc \<longleftrightarrow>
     (\<forall>pid q. bt_get (message_queues ipc) pid = Some q \<longrightarrow>
        length q \<le> MAX_QUEUE_MESSAGES \<and> (\<forall>m \<in> set q. message_ok m))"

lemma with_data_ok: "message_ok (with_data sender t data)"
  by (auto simp: message_ok_def with_data_def message_new_def copy_at_def Let_def)

lemma with_data_payload:
  "length data \<le> MAX_MESSAGE_SIZE \<Longrightarrow>
     msg_len (with_data sender t data) = length data \<and> msg_sender (with_data sender t data) = sender \<and>
     take (length data) (msg_data (with_data sender t data)) = data"
  by (simp add: with_data_def message_new_def copy_at_def Let_def)

lemma queue_of_ok: "ipc_ok ipc \<Longrightarrow> length (queue_of pid ipc) \<le> MAX_QUEUE_MESSAGES \<and> (\<forall>m \<in> set (queue_of pid ipc). message_ok m)"
  by (auto simp: ipc_ok_def queue_of_def split: option.splits)

lemma send_message_ok:
  assumes "ipc_ok ipc" "message_ok m"
  shows "ipc_ok (fst (send_message ex target m ipc))"
  using assms queue_of_ok [OF assms(1), of target]
  by (auto simp: send_message_def ipc_ok_def Let_def split: if_splits)

lemma send_bytes_ok:
  assumes "\<And>ipc. oipc = Some ipc \<Longrightarrow> ipc_ok ipc" "send_bytes_queue ex s t data oipc = (Some ipc', r)"
  shows "ipc_ok ipc'"
  using assms send_message_ok [OF _ with_data_ok, of _ ex t]
  by (auto simp: send_bytes_queue_def split: if_splits option.splits prod.splits) (metis fst_conv)

lemma recv_bytes_ok:
  assumes "\<And>ipc. oipc = Some ipc \<Longrightarrow> ipc_ok ipc" "recv_bytes_with_sender pid out oipc = (Some ipc', out', r)"
  shows "ipc_ok ipc'"
proof (cases oipc)
  case None
  then show ?thesis using assms(2) by (simp add: recv_bytes_with_sender_def)
next
  case (Some ipc)
  then have ok: "ipc_ok ipc" using assms(1) by simp
  show ?thesis
  proof (cases "\<exists>m ms. bt_get (message_queues ipc) pid = Some (m # ms) \<and> msg_len m \<le> length out")
    case True
    then obtain m ms where q: "bt_get (message_queues ipc) pid = Some (m # ms)" "msg_len m \<le> length out" by auto
    then have "ipc' = ipc\<lparr>message_queues := bt_put pid ms (message_queues ipc)\<rparr>"
      using assms(2) Some by (simp add: recv_bytes_with_sender_def)
    then show ?thesis using ok q(1) by (force simp: ipc_ok_def)
  next
    case False
    then have "ipc' = ipc" using assms(2) Some
      by (auto simp: recv_bytes_with_sender_def split: option.splits list.splits if_splits)
    then show ?thesis using ok by simp
  qed
qed

lemma clear_messages_ok: "ipc_ok ipc \<Longrightarrow> ipc_ok (clear_messages pid ipc)"
  by (simp add: ipc_ok_def clear_messages_def)

section \<open>Delivery\<close>

text \<open>Sequences of send and receive calls, with what was accepted and what was delivered.\<close>

datatype ipc_op = Send_op u64 u64 bytes | Recv_op u64 bytes

type_synonym letter = "u64 \<times> u64 \<times> bytes"

fun ipc_run ::
  "(u64 \<Rightarrow> bool) \<Rightarrow> ipc_op list \<Rightarrow> ipc_manager option \<Rightarrow> ipc_manager option \<times> letter list \<times> letter list" where
  "ipc_run exists [] oipc = (oipc, [], [])"
| "ipc_run exists (Send_op sender target data # ops) oipc =
     (case send_bytes_queue exists sender target data oipc of
        (oipc', r) \<Rightarrow>
          (case ipc_run exists ops oipc' of
             (oipc'', acc, del) \<Rightarrow>
               (oipc'', (case r of Inr _ \<Rightarrow> (target, sender, data) # acc | Inl _ \<Rightarrow> acc), del)))"
| "ipc_run exists (Recv_op pid out # ops) oipc =
     (case recv_bytes_with_sender pid out oipc of
        (oipc', out', r) \<Rightarrow>
          (case ipc_run exists ops oipc' of
             (oipc'', acc, del) \<Rightarrow>
               (oipc'', acc, (case r of Inr (sender, n) \<Rightarrow> (pid, sender, take n out') # del | Inl _ \<Rightarrow> del))))"

definition addressed :: "u64 \<Rightarrow> letter list \<Rightarrow> (u64 \<times> bytes) list" where
  "addressed pid ls = map snd (filter (\<lambda>l. fst l = pid) ls)"

definition pending :: "u64 \<Rightarrow> ipc_manager \<Rightarrow> (u64 \<times> bytes) list" where
  "pending pid ipc = map (\<lambda>m. (msg_sender m, take (msg_len m) (msg_data m))) (queue_of pid ipc)"

lemma addressed_simps [simp]:
  "addressed pid [] = []"
  "addressed pid ((t, x) # ls) = (if t = pid then x # addressed pid ls else addressed pid ls)"
  by (simp_all add: addressed_def)

lemma queue_of_put [simp]:
  "queue_of pid (ipc\<lparr>message_queues := bt_put t q (message_queues ipc)\<rparr>) = (if pid = t then q else queue_of pid ipc)"
  by (simp add: queue_of_def)

lemma send_bytes_cases:
  assumes "send_bytes_queue ex s t data (Some ipc) = (oipc', r)"
  obtains (sent) ipc' where "oipc' = Some ipc'" "r = Inr ()" "data \<noteq> []" "length data \<le> MAX_MESSAGE_SIZE"
      "ex t" "length (queue_of t ipc) < MAX_QUEUE_MESSAGES"
      "\<And>pid. pending pid ipc' = pending pid ipc @ (if pid = t then [(s, data)] else [])"
  | (failed) ipc' e where "oipc' = Some ipc'" "r = Inl e"
      "\<And>pid. queue_of pid ipc' = queue_of pid ipc"
      "e = MessageTooLarge \<and> (data = [] \<or> MAX_MESSAGE_SIZE < length data) \<or>
       e = InvalidTarget \<and> \<not> ex t \<or> e = QueueFull \<and> MAX_QUEUE_MESSAGES \<le> length (queue_of t ipc)"
proof (cases "data = [] \<or> MAX_MESSAGE_SIZE < length data \<or> \<not> ex t \<or> MAX_QUEUE_MESSAGES \<le> length (queue_of t ipc)")
  case True
  then show ?thesis using assms failed
    by (auto simp: send_bytes_queue_def send_message_def Let_def split: if_splits)
next
  case False
  then have len: "length data \<le> MAX_MESSAGE_SIZE" by simp
  let ?m = "with_data s (WindowClose 0) data"
  have "oipc' = Some (ipc\<lparr>message_queues := bt_put t (queue_of t ipc @ [?m]) (message_queues ipc)\<rparr>)" "r = Inr ()"
    using False assms by (auto simp: send_bytes_queue_def send_message_def)
  then show ?thesis using sent False with_data_payload [OF len, of s "WindowClose 0"]
    by (simp add: pending_def)
qed

lemma recv_bytes_cases:
  assumes "ipc_ok ipc" "recv_bytes_with_sender pid out (Some ipc) = (oipc', out', r)"
  obtains (got) ipc' s n where "oipc' = Some ipc'" "r = Inr (s, n)" "n \<le> length out" "n \<le> MAX_MESSAGE_SIZE"
      "length out' = length out" "pending pid ipc = (s, take n out') # pending pid ipc'"
      "\<And>p. p \<noteq> pid \<Longrightarrow> pending p ipc' = pending p ipc" "drop n out' = drop n out"
  | (failed) e where "oipc' = Some ipc" "out' = out" "r = Inl e"
      "e = NoMessage \<and> queue_of pid ipc = [] \<or>
       e = MessageTooLarge \<and> (\<exists>m ms. queue_of pid ipc = m # ms \<and> length out < msg_len m)"
proof (cases "\<exists>m ms. bt_get (message_queues ipc) pid = Some (m # ms) \<and> msg_len m \<le> length out")
  case True
  then obtain m ms where q: "bt_get (message_queues ipc) pid = Some (m # ms)" "msg_len m \<le> length out" by auto
  have "message_ok m" using assms(1) q(1) unfolding ipc_ok_def by fastforce
  then have "take (msg_len m) (copy_at 0 (take (msg_len m) (msg_data m)) out) = take (msg_len m) (msg_data m)"
    "drop (msg_len m) (copy_at 0 (take (msg_len m) (msg_data m)) out) = drop (msg_len m) out"
    "length (copy_at 0 (take (msg_len m) (msg_data m)) out) = length out" "msg_len m \<le> MAX_MESSAGE_SIZE"
    using q(2) by (auto simp: copy_at_def message_ok_def)
  then show ?thesis using assms(2) q
    by (intro got [of "ipc\<lparr>message_queues := bt_put pid ms (message_queues ipc)\<rparr>" "msg_sender m" "msg_len m"])
      (auto simp: recv_bytes_with_sender_def pending_def queue_of_def)
next
  case False
  then show ?thesis using assms(2) failed
    by (auto simp: recv_bytes_with_sender_def queue_of_def split: option.splits list.splits if_splits)
qed

lemma pending_cong: "(\<And>p. queue_of p a = queue_of p b) \<Longrightarrow> pending pid a = pending pid b"
  by (simp add: pending_def)

lemma ipc_run_fifo:
  assumes "ipc_ok ipc" "ipc_run ex ops (Some ipc) = (oipc', acc, del)"
  shows "\<exists>ipc'. oipc' = Some ipc' \<and> ipc_ok ipc' \<and>
    (\<forall>pid. pending pid ipc @ addressed pid acc = addressed pid del @ pending pid ipc')"
  using assms
proof (induction ops arbitrary: ipc acc del)
  case (Cons op ops)
  show ?case
  proof (cases op)
    case (Send_op s t data)
    obtain o1 r where s: "send_bytes_queue ex s t data (Some ipc) = (o1, r)" by fastforce
    from s show ?thesis
    proof (cases rule: send_bytes_cases)
      case (sent ipc1)
      have ok: "ipc_ok ipc1" using send_bytes_ok [of "Some ipc" ex s t data ipc1 r] s sent(1) Cons.prems(1) by simp
      obtain acc1 where r1: "ipc_run ex ops (Some ipc1) = (oipc', acc1, del)" "acc = (t, s, data) # acc1"
        using Cons.prems(2) Send_op s sent(1,2) by (auto split: prod.splits)
      obtain ipc' where fin: "oipc' = Some ipc'" "ipc_ok ipc'"
        "\<And>pid. pending pid ipc1 @ addressed pid acc1 = addressed pid del @ pending pid ipc'"
        using Cons.IH [OF ok r1(1)] by auto
      have "pending pid ipc @ addressed pid acc = addressed pid del @ pending pid ipc'" for pid
        using fin(3) [of pid] r1(2) by (simp add: sent(7) split: if_splits)
      then show ?thesis using fin(1,2) by simp
    next
      case (failed ipc1 e)
      have ok: "ipc_ok ipc1" using send_bytes_ok [of "Some ipc" ex s t data ipc1 r] s failed(1) Cons.prems(1) by simp
      have r1: "ipc_run ex ops (Some ipc1) = (oipc', acc, del)"
        using Cons.prems(2) Send_op s failed(1,2) by (auto split: prod.splits)
      show ?thesis using Cons.IH [OF ok r1] pending_cong [of ipc1 ipc] failed(3) by auto
    qed
  next
    case (Recv_op p out)
    obtain o1 out1 r where rc: "recv_bytes_with_sender p out (Some ipc) = (o1, out1, r)" by (metis prod_cases3)
    from Cons.prems(1) rc show ?thesis
    proof (cases rule: recv_bytes_cases)
      case (got ipc1 s n)
      have ok: "ipc_ok ipc1" using recv_bytes_ok [of "Some ipc" p out ipc1 out1 r] rc got(1) Cons.prems(1) by simp
      obtain del1 where r1: "ipc_run ex ops (Some ipc1) = (oipc', acc, del1)" "del = (p, s, take n out1) # del1"
        using Cons.prems(2) Recv_op rc got(1,2) by (auto split: prod.splits)
      obtain ipc' where fin: "oipc' = Some ipc'" "ipc_ok ipc'"
        "\<And>pid. pending pid ipc1 @ addressed pid acc = addressed pid del1 @ pending pid ipc'"
        using Cons.IH [OF ok r1(1)] by auto
      have "pending pid ipc @ addressed pid acc = addressed pid del @ pending pid ipc'" for pid
        using fin(3) [of pid] r1(2) got(6) got(7) [of pid] by (cases "pid = p") auto
      then show ?thesis using fin(1,2) by simp
    next
      case (failed e)
      have r1: "ipc_run ex ops (Some ipc) = (oipc', acc, del)"
        using Cons.prems(2) Recv_op rc failed(1,3) by (auto split: prod.splits)
      show ?thesis by (rule Cons.IH [OF Cons.prems(1) r1])
    qed
  qed
qed auto

lemma ipc_new_ok: "ipc_ok ipc_new"
  by (simp add: ipc_ok_def ipc_new_def)

lemma pending_new: "pending pid ipc_new = []"
  by (simp add: pending_def queue_of_def ipc_new_def)



text \<open>
  C29. Error paths of sending: with the manager present, a send succeeds exactly when the payload has
  1 to 256 bytes, the target exists and its queue has room; otherwise the error names the failed
  check in that order of precedence and no queue changes.
\<close>
theorem ipc_send_errors:
  "case send_bytes_queue ex sender target data (Some ipc) of (oipc', r) \<Rightarrow>
     r = (if data = [] \<or> 256 < length data then Inl MessageTooLarge
          else if \<not> ex target then Inl InvalidTarget
          else if 128 \<le> length (queue_of target ipc) then Inl QueueFull
          else Inr ()) \<and>
     (\<exists>ipc'. oipc' = Some ipc' \<and> (\<forall>pid. pending pid ipc' =
        pending pid ipc @ (if r = Inr () \<and> pid = target then [(sender, data)] else [])))"
proof -
  obtain o1 r where s: "send_bytes_queue ex sender target data (Some ipc) = (o1, r)" by fastforce
  then show ?thesis
  proof (cases rule: send_bytes_cases)
    case (sent ipc')
    then show ?thesis using s by (simp add: MAX_MESSAGE_SIZE_def MAX_QUEUE_MESSAGES_def)
  next
    case (failed ipc' e)
    have r: "r = (if data = [] \<or> 256 < length data then Inl MessageTooLarge
          else if \<not> ex target then Inl InvalidTarget
          else if 128 \<le> length (queue_of target ipc) then Inl QueueFull
          else Inr ())"
      using s by (auto simp: send_bytes_queue_def send_message_def Let_def MAX_MESSAGE_SIZE_def
          MAX_QUEUE_MESSAGES_def split: if_splits)
    show ?thesis using s failed(1,2) r pending_cong [of ipc' ipc, OF failed(3)] by simp
  qed
qed

section \<open>Shared memory regions\<close>

lemma detach_last_owner:
  assumes "bt_get (shared_regions ipc) sid = Some r" "set (owners r) \<subseteq> {pid}"
  shows "bt_get (shared_regions (detach_shared_memory sid pid ipc)) sid = None"
  using assms by (auto simp: detach_shared_memory_def remove_owner_def Let_def filter_empty_conv)




end
