(* ===== verification/Streams.thy ===== *)
theory Streams
  imports Prelude
begin

text \<open>
  The contract of a bounded byte ring, as the terminal endpoints rely on it: pushing appends a
  prefix of the data that fits, popping removes a prefix of the contents. Sequences of pushes and
  pops are verified here once against the contract.
\<close>

datatype 'a stream_op = Push_op "'a list" | Pop_op nat

fun stream_run ::
  "('a list \<Rightarrow> 's \<Rightarrow> 's \<times> nat) \<Rightarrow> (nat \<Rightarrow> 's \<Rightarrow> 's \<times> 'a list) \<Rightarrow> 'a stream_op list \<Rightarrow> 's \<Rightarrow>
     's \<times> 'a list \<times> 'a list" where
  "stream_run push pop [] q = (q, [], [])"
| "stream_run push pop (Push_op xs # ops) q =
     (case push xs q of (q1, n) \<Rightarrow>
        (case stream_run push pop ops q1 of (q2, acc, del) \<Rightarrow> (q2, take n xs @ acc, del)))"
| "stream_run push pop (Pop_op k # ops) q =
     (case pop k q of (q1, ys) \<Rightarrow>
        (case stream_run push pop ops q1 of (q2, acc, del) \<Rightarrow> (q2, acc, ys @ del)))"

locale bounded_stream =
  fixes cap :: nat
    and ok :: "'s \<Rightarrow> bool"
    and content :: "'s \<Rightarrow> 'a list"
    and push :: "'a list \<Rightarrow> 's \<Rightarrow> 's \<times> nat"
    and pop :: "nat \<Rightarrow> 's \<Rightarrow> 's \<times> 'a list"
  assumes push_content: "ok q \<Longrightarrow> push xs q = (q', n) \<Longrightarrow>
      ok q' \<and> n = min (length xs) (cap - length (content q)) \<and> content q' = content q @ take n xs"
    and pop_content: "ok q \<Longrightarrow> pop k q = (q', ys) \<Longrightarrow>
      ok q' \<and> ys = take k (content q) \<and> content q' = drop k (content q)"
begin

lemma push_bounded: "ok q \<Longrightarrow> push xs q = (q', n) \<Longrightarrow> length (content q) \<le> cap \<Longrightarrow> length (content q') \<le> cap"
  using push_content by fastforce

lemma push_all: "ok q \<Longrightarrow> length (content q) + length xs \<le> cap \<Longrightarrow> push xs q = (q', n) \<Longrightarrow>
    n = length xs \<and> content q' = content q @ xs"
  using push_content by fastforce

lemma run_stream:
  assumes "stream_run push pop ops q = (q', acc, del)" "ok q" "length (content q) \<le> cap"
  shows "content q @ acc = del @ content q' \<and> length (content q') \<le> cap"
  using assms
proof (induction ops arbitrary: q acc del)
  case (Cons oper ops)
  show ?case
  proof (cases oper)
    case (Push_op xs)
    obtain q1 n where p: "push xs q = (q1, n)" by fastforce
    then obtain acc1 where r: "stream_run push pop ops q1 = (q', acc1, del)" "acc = take n xs @ acc1"
      using Cons.prems(1) Push_op by (auto split: prod.splits)
    show ?thesis using Cons.IH [OF r(1) _ push_bounded [OF Cons.prems(2) p Cons.prems(3)]]
        push_content [OF Cons.prems(2) p] r(2) by simp
  next
    case (Pop_op k)
    obtain q1 ys where p: "pop k q = (q1, ys)" by fastforce
    then obtain del1 where r: "stream_run push pop ops q1 = (q', acc, del1)" "del = ys @ del1"
      using Cons.prems(1) Pop_op by (auto split: prod.splits)
    note popped = pop_content [OF Cons.prems(2) p]
    have "length (content q1) \<le> cap" using popped Cons.prems(3) by simp
    then show ?thesis using Cons.IH [OF r(1)] popped r(2)
      by (metis append.assoc append_take_drop_id)
  qed
qed auto

end

end
