(* ===== verification/Pty.thy ===== *)
theory Pty
  imports Streams
begin

text \<open>
  Pseudo terminals (\<^verbatim>\<open>kernel/src/pty/mod.rs\<close>): a table of endpoints, each with a ring per
  direction, a termios block and the pending line of canonical mode. Whether a process still exists
  is asked of the process table (argument \<open>exists\<close>).
\<close>

section \<open>Data\<close>

definition PTY_RING_CAP :: nat where
  "PTY_RING_CAP = 8192"

definition TERMIOS_SIZE :: nat where
  "TERMIOS_SIZE = 60"

definition C_LFLAG_OFF :: nat where
  "C_LFLAG_OFF = 12"

definition C_CC_OFF :: nat where
  "C_CC_OFF = 17"

definition ICANON :: u32 where
  "ICANON = 2"

definition ECHO_FLAG :: u32 where
  "ECHO_FLAG = 8"

definition VERASE :: nat where
  "VERASE = 2"

definition VMIN :: nat where
  "VMIN = 6"

datatype slave_read = SlaveData usize | SlaveWouldBlock | SlaveEof

record pty =
  pty_master :: u64
  pty_slave :: "u64 option"
  to_slave :: bytes
  to_master :: bytes
  termios :: bytes
  canon :: bytes

record pty_table =
  ptys :: "(u32, pty) btree"
  next_pty_id :: u64

definition raw_termios :: bytes where
  "raw_termios = (replicate TERMIOS_SIZE 0)[C_CC_OFF + VERASE := 0x7f, C_CC_OFF + VMIN := 1]"

definition termios_lflag :: "bytes \<Rightarrow> u32" where
  "termios_lflag t = from_le_bytes (slice t C_LFLAG_OFF (C_LFLAG_OFF + 4))"

definition pty_table_init :: pty_table where
  "pty_table_init = \<lparr>ptys = [], next_pty_id = 1\<rparr>"

section \<open>Rings\<close>

definition ring_push :: "bytes \<Rightarrow> bytes \<Rightarrow> bytes \<times> nat" where
  "ring_push data ring =
     (let space = PTY_RING_CAP - length ring; n = min space (length data)
      in (ring @ take n data, n))"

definition ring_pop :: "bytes \<Rightarrow> bytes \<Rightarrow> bytes \<times> bytes \<times> nat" where
  "ring_pop out ring =
     (let n = min (length ring) (length out)
      in (drop n ring, copy_at 0 (take n ring) out, n))"

definition ring_put :: "bytes \<Rightarrow> bytes \<Rightarrow> bytes" where
  "ring_put data ring = fst (ring_push data ring)"

section \<open>Operations\<close>

definition find_by_slave :: "u64 \<Rightarrow> pty_table \<Rightarrow> u32 option" where
  "find_by_slave pid t = map_option fst (find (\<lambda>(k, p). pty_slave p = Some pid) (ptys t))"

definition pty_create :: "u64 \<Rightarrow> pty_table \<Rightarrow> pty_table \<times> u32" where
  "pty_create master t =
     (let k = (ucast (next_pty_id t) :: u32)
      in (\<lparr>ptys = bt_put k \<lparr>pty_master = master, pty_slave = None, to_slave = [], to_master = [],
                            termios = raw_termios, canon = []\<rparr> (ptys t),
           next_pty_id = next_pty_id t + 1\<rparr>, k))"

definition attach_slave :: "u32 \<Rightarrow> u64 \<Rightarrow> u64 \<Rightarrow> pty_table \<Rightarrow> pty_table \<times> bool" where
  "attach_slave k master slave t =
     (case bt_get (ptys t) k of
        Some p \<Rightarrow>
          if pty_master p = master
          then (t\<lparr>ptys := bt_put k (p\<lparr>pty_slave := Some slave\<rparr>) (ptys t)\<rparr>, True)
          else (t, False)
      | None \<Rightarrow> (t, False))"

text \<open>One byte through the line discipline.\<close>

definition feed_byte :: "bool \<Rightarrow> bool \<Rightarrow> u8 \<Rightarrow> u8 \<Rightarrow> pty \<Rightarrow> pty" where
  "feed_byte canonical echo erase b p =
     (if canonical \<and> (b = erase \<or> b = 0x08) then
        (if canon p \<noteq> [] then
           p\<lparr>canon := butlast (canon p),
             to_master := (if echo then ring_put [0x08, 0x20, 0x08] (to_master p) else to_master p)\<rparr>
         else p)
      else if canonical then
        (let p1 = p\<lparr>canon := canon p @ [b],
                    to_master := (if echo then ring_put [b] (to_master p) else to_master p)\<rparr>
         in if b = 0x0a then p1\<lparr>canon := [], to_slave := ring_put (canon p1) (to_slave p1)\<rparr> else p1)
      else
        p\<lparr>to_slave := ring_put [b] (to_slave p),
          to_master := (if echo then ring_put [b] (to_master p) else to_master p)\<rparr>)"

definition master_write :: "u32 \<Rightarrow> u64 \<Rightarrow> bytes \<Rightarrow> pty_table \<Rightarrow> pty_table \<times> usize option" where
  "master_write k master data t =
     (case bt_get (ptys t) k of
        None \<Rightarrow> (t, None)
      | Some p \<Rightarrow>
          if pty_master p \<noteq> master then (t, None)
          else
            let lflag = termios_lflag (termios p);
                canonical = (lflag AND ICANON \<noteq> 0);
                echo = (lflag AND ECHO_FLAG \<noteq> 0)
            in if \<not> canonical \<and> \<not> echo then
                 (case ring_push data (to_slave p) of
                    (r, n) \<Rightarrow> (t\<lparr>ptys := bt_put k (p\<lparr>to_slave := r\<rparr>) (ptys t)\<rparr>, Some n))
               else
                 let erase = termios p ! (C_CC_OFF + VERASE)
                 in (t\<lparr>ptys := bt_put k (fold (feed_byte canonical echo erase) data p) (ptys t)\<rparr>,
                     Some (length data)))"

definition get_termios :: "u64 \<Rightarrow> pty_table \<Rightarrow> bytes option" where
  "get_termios pid t =
     (case find_by_slave pid t of
        None \<Rightarrow> None
      | Some k \<Rightarrow> map_option termios (bt_get (ptys t) k))"

text \<open>\<open>update_pty\<close> is \<open>table().get_mut(&id).unwrap()\<close> for an id just found in the table.\<close>

definition update_pty :: "u32 \<Rightarrow> (pty \<Rightarrow> pty) \<Rightarrow> pty_table \<Rightarrow> pty_table" where
  "update_pty k f t =
     (case bt_get (ptys t) k of None \<Rightarrow> t | Some p \<Rightarrow> t\<lparr>ptys := bt_put k (f p) (ptys t)\<rparr>)"

definition set_termios :: "u64 \<Rightarrow> bytes \<Rightarrow> pty_table \<Rightarrow> pty_table \<times> bool" where
  "set_termios pid blob t =
     (case find_by_slave pid t of
        None \<Rightarrow> (t, False)
      | Some k \<Rightarrow>
          let n = min (length blob) TERMIOS_SIZE
          in (update_pty k (\<lambda>p. p\<lparr>termios := copy_at 0 (take n blob) (termios p)\<rparr>) t, True))"

definition is_slave :: "u64 \<Rightarrow> pty_table \<Rightarrow> bool" where
  "is_slave pid t \<longleftrightarrow> find_by_slave pid t \<noteq> None"

definition master_read ::
  "(u64 \<Rightarrow> bool) \<Rightarrow> u32 \<Rightarrow> u64 \<Rightarrow> bytes \<Rightarrow> pty_table \<Rightarrow> pty_table \<times> bytes \<times> (usize \<times> bool) option" where
  "master_read exists k master out t =
     (case bt_get (ptys t) k of
        Some p \<Rightarrow>
          if pty_master p = master then
            (case ring_pop out (to_master p) of
               (r, out', n) \<Rightarrow>
                 let slave_gone = (case pty_slave p of Some slave \<Rightarrow> \<not> exists slave | None \<Rightarrow> False)
                 in (t\<lparr>ptys := bt_put k (p\<lparr>to_master := r\<rparr>) (ptys t)\<rparr>, out', Some (n, slave_gone \<and> r = [])))
          else (t, out, None)
      | None \<Rightarrow> (t, out, None))"

definition pty_close :: "u32 \<Rightarrow> u64 \<Rightarrow> pty_table \<Rightarrow> pty_table \<times> bool" where
  "pty_close k master t =
     (case bt_get (ptys t) k of
        Some p \<Rightarrow> if pty_master p = master then (t\<lparr>ptys := bt_del k (ptys t)\<rparr>, True) else (t, False)
      | None \<Rightarrow> (t, False))"

text \<open>The canonical read loop: \<open>room\<close> is what is left of the caller's buffer.\<close>

fun canon_pop :: "nat \<Rightarrow> bytes \<Rightarrow> bytes \<times> bytes" where
  "canon_pop 0 ring = (ring, [])"
| "canon_pop (Suc room) [] = ([], [])"
| "canon_pop (Suc room) (b # ring) =
     (if b = 0x0a then (ring, [b])
      else case canon_pop room ring of (ring', got) \<Rightarrow> (ring', b # got))"

definition slave_pop :: "pty \<Rightarrow> bytes \<Rightarrow> bytes \<times> bytes \<times> nat" where
  "slave_pop p out =
     (if termios_lflag (termios p) AND ICANON \<noteq> 0 then
        (case canon_pop (length out) (to_slave p) of
           (r, got) \<Rightarrow> (r, copy_at 0 got out, length got))
      else ring_pop out (to_slave p))"

definition slave_read_stdin ::
  "(u64 \<Rightarrow> bool) \<Rightarrow> u64 \<Rightarrow> bytes \<Rightarrow> pty_table \<Rightarrow> pty_table \<times> bytes \<times> slave_read option" where
  "slave_read_stdin exists pid out t =
     (case find_by_slave pid t of
        None \<Rightarrow> (t, out, None)
      | Some k \<Rightarrow>
          (case bt_get (ptys t) k of
             None \<Rightarrow> (t, out, None)
           | Some p \<Rightarrow>
               (case slave_pop p out of
                  (r, out', n) \<Rightarrow>
                    (t\<lparr>ptys := bt_put k (p\<lparr>to_slave := r\<rparr>) (ptys t)\<rparr>, out',
                     Some (if n > 0 then SlaveData n
                           else if exists (pty_master p) then SlaveWouldBlock else SlaveEof)))))"

definition slave_write_stdout :: "u64 \<Rightarrow> bytes \<Rightarrow> pty_table \<Rightarrow> pty_table \<times> bool" where
  "slave_write_stdout pid data t =
     (case find_by_slave pid t of
        Some k \<Rightarrow> (update_pty k (\<lambda>p. p\<lparr>to_master := ring_put data (to_master p)\<rparr>) t, True)
      | None \<Rightarrow> (t, False))"

definition on_process_exit :: "u64 \<Rightarrow> pty_table \<Rightarrow> pty_table" where
  "on_process_exit pid t =
     (let dead = map fst (filter (\<lambda>(k, p). pty_master p = pid) (ptys t))
      in t\<lparr>ptys := fold bt_del dead (ptys t)\<rparr>)"

section \<open>Invariant\<close>

definition pty_ok :: "pty \<Rightarrow> bool" where
  "pty_ok p \<longleftrightarrow> length (to_slave p) \<le> PTY_RING_CAP \<and> length (to_master p) \<le> PTY_RING_CAP \<and>
     length (termios p) = TERMIOS_SIZE \<and> 0x0a \<notin> set (canon p)"

definition pty_table_ok :: "pty_table \<Rightarrow> bool" where
  "pty_table_ok t \<longleftrightarrow> bt_ok (ptys t) \<and> (\<forall>k p. bt_get (ptys t) k = Some p \<longrightarrow> pty_ok p)"

lemma ring_put_bound [simp]: "length ring \<le> PTY_RING_CAP \<Longrightarrow> length (ring_put data ring) \<le> PTY_RING_CAP"
  by (simp add: ring_put_def ring_push_def Let_def)

lemma ring_put_fits: "length ring + length data \<le> PTY_RING_CAP \<Longrightarrow> ring_put data ring = ring @ data"
  by (simp add: ring_put_def ring_push_def Let_def)

lemma canon_pop_split: "canon_pop room ring = (r, got) \<Longrightarrow> ring = got @ r \<and> length got \<le> room"
  by (induction room ring arbitrary: r got rule: canon_pop.induct) (auto split: if_splits prod.splits)

lemma slave_pop_split:
  assumes "slave_pop p out = (r, out', n)"
  shows "to_slave p = take n out' @ r \<and> n \<le> length out \<and> length out' = length out"
proof (cases "termios_lflag (termios p) AND ICANON \<noteq> 0")
  case True
  obtain r1 got where c: "canon_pop (length out) (to_slave p) = (r1, got)" by fastforce
  then show ?thesis using canon_pop_split [OF c] assms True by (auto simp: slave_pop_def copy_at_def)
next
  case False
  then show ?thesis using assms by (auto simp: slave_pop_def ring_pop_def copy_at_def Let_def)
qed

lemma feed_byte_ok: "pty_ok p \<Longrightarrow> pty_ok (feed_byte c e er b p)"
  by (auto simp: feed_byte_def pty_ok_def Let_def dest: in_set_butlastD)

lemma feed_bytes_ok: "pty_ok p \<Longrightarrow> pty_ok (fold (feed_byte c e er) data p)"
  by (induction data arbitrary: p) (simp_all add: feed_byte_ok)

lemma table_put_ok: "pty_table_ok t \<Longrightarrow> pty_ok p \<Longrightarrow> pty_table_ok (t\<lparr>ptys := bt_put k p (ptys t)\<rparr>)"
  by (simp add: pty_table_ok_def)

lemma table_get_ok: "pty_table_ok t \<Longrightarrow> bt_get (ptys t) k = Some p \<Longrightarrow> pty_ok p"
  by (simp add: pty_table_ok_def)

lemma update_pty_ok: "pty_table_ok t \<Longrightarrow> (\<And>p. pty_ok p \<Longrightarrow> pty_ok (f p)) \<Longrightarrow> pty_table_ok (update_pty k f t)"
  by (auto simp: update_pty_def table_put_ok table_get_ok split: option.splits)

lemma bt_get_fold_del: "bt_get (fold bt_del ks m) k = (if k \<in> set ks then None else bt_get m k)"
  by (induction ks arbitrary: m) auto

lemma bt_ok_fold_del: "bt_ok m \<Longrightarrow> bt_ok (fold bt_del ks m)"
  by (induction ks arbitrary: m) auto

lemma pty_create_ok: "pty_table_ok t \<Longrightarrow> pty_table_ok (fst (pty_create m t))"
  by (simp add: pty_table_ok_def pty_create_def pty_ok_def raw_termios_def Let_def)

lemma attach_slave_ok: "pty_table_ok t \<Longrightarrow> pty_table_ok (fst (attach_slave k m s t))"
  using table_get_ok [of t k] by (auto simp: attach_slave_def pty_ok_def intro!: table_put_ok split: option.splits)

lemma master_write_ok:
  assumes "pty_table_ok t"
  shows "pty_table_ok (fst (master_write k m data t))"
proof (cases "bt_get (ptys t) k")
  case None
  then show ?thesis using assms by (simp add: master_write_def)
next
  case (Some p)
  have p: "pty_ok p" using table_get_ok [OF assms Some] .
  have "pty_ok (p\<lparr>to_slave := fst (ring_push data (to_slave p))\<rparr>)"
    using p ring_put_bound [of "to_slave p" data] by (simp add: pty_ok_def ring_put_def)
  then show ?thesis using assms p Some
    by (auto simp: master_write_def Let_def intro!: table_put_ok feed_bytes_ok split: prod.splits)
qed

lemma set_termios_ok: "pty_table_ok t \<Longrightarrow> pty_table_ok (fst (set_termios pid blob t))"
  by (auto simp: set_termios_def Let_def pty_ok_def copy_at_def intro!: update_pty_ok split: option.splits)

lemma master_read_ok: "pty_table_ok t \<Longrightarrow> pty_table_ok (fst (master_read ex k m out t))"
  using table_get_ok [of t k]
  by (auto simp: master_read_def ring_pop_def Let_def pty_ok_def intro!: table_put_ok split: option.splits)

lemma pty_close_ok: "pty_table_ok t \<Longrightarrow> pty_table_ok (fst (pty_close k m t))"
  by (auto simp: pty_close_def pty_table_ok_def split: option.splits if_splits)

lemma slave_read_ok:
  assumes "pty_table_ok t"
  shows "pty_table_ok (fst (slave_read_stdin ex pid out t))"
proof -
  have "pty_table_ok (t\<lparr>ptys := bt_put k (p\<lparr>to_slave := r\<rparr>) (ptys t)\<rparr>)"
    if "bt_get (ptys t) k = Some p" "slave_pop p out = (r, out', n)" for k p r out' n
    using table_get_ok [OF assms that(1)] slave_pop_split [OF that(2)]
    by (intro table_put_ok assms) (auto simp: pty_ok_def)
  then show ?thesis using assms by (auto simp: slave_read_stdin_def split: option.splits prod.splits)
qed

lemma slave_write_ok: "pty_table_ok t \<Longrightarrow> pty_table_ok (fst (slave_write_stdout pid data t))"
  by (auto simp: slave_write_stdout_def pty_ok_def intro!: update_pty_ok split: option.splits)

lemma exit_ok: "pty_table_ok t \<Longrightarrow> pty_table_ok (on_process_exit pid t)"
  by (auto simp: on_process_exit_def pty_table_ok_def Let_def bt_get_fold_del bt_ok_fold_del split: if_splits)

inductive pty_reach :: "pty_table \<Rightarrow> bool" where
  reach_init: "pty_reach pty_table_init"
| reach_create: "pty_reach t \<Longrightarrow> pty_reach (fst (pty_create m t))"
| reach_attach: "pty_reach t \<Longrightarrow> pty_reach (fst (attach_slave k m s t))"
| reach_master_write: "pty_reach t \<Longrightarrow> pty_reach (fst (master_write k m data t))"
| reach_set_termios: "pty_reach t \<Longrightarrow> pty_reach (fst (set_termios pid blob t))"
| reach_master_read: "pty_reach t \<Longrightarrow> pty_reach (fst (master_read ex k m out t))"
| reach_close: "pty_reach t \<Longrightarrow> pty_reach (fst (pty_close k m t))"
| reach_slave_read: "pty_reach t \<Longrightarrow> pty_reach (fst (slave_read_stdin ex pid out t))"
| reach_slave_write: "pty_reach t \<Longrightarrow> pty_reach (fst (slave_write_stdout pid data t))"
| reach_exit: "pty_reach t \<Longrightarrow> pty_reach (on_process_exit pid t)"

lemmas pty_ops_ok = pty_create_ok attach_slave_ok master_write_ok set_termios_ok master_read_ok
  pty_close_ok slave_read_ok slave_write_ok exit_ok

lemma pty_reach_ok: "pty_reach t \<Longrightarrow> pty_table_ok t"
  by (induction rule: pty_reach.induct)
    (simp_all add: pty_ops_ok, simp add: pty_table_ok_def pty_table_init_def)

text \<open>
  C25. In every state the terminal calls can reach, both rings of every endpoint hold at most 8192
  bytes, its termios block keeps its 60 bytes, and the pending line of canonical mode holds no
  newline.
\<close>
theorem pty_endpoint_shape:
  assumes "pty_reach t" "bt_get (ptys t) k = Some p"
  shows "length (to_slave p) \<le> 8192 \<and> length (to_master p) \<le> 8192 \<and>
    length (termios p) = 60 \<and> 0x0a \<notin> set (canon p)"
  using table_get_ok [OF pty_reach_ok [OF assms(1)] assms(2)]
  by (simp add: pty_ok_def PTY_RING_CAP_def TERMIOS_SIZE_def)

theorem pty_endpoint_shape_witness:
  "\<exists>p. bt_get (ptys (fst (pty_create 5 pty_table_init))) 1 = Some p \<and> length (termios p) = 60"
proof -
  have r: "pty_reach (fst (pty_create 5 pty_table_init))" by (intro reach_create reach_init)
  obtain p where p: "bt_get (ptys (fst (pty_create 5 pty_table_init))) 1 = Some p"
    by (simp add: pty_create_def pty_table_init_def Let_def)
  show ?thesis using pty_endpoint_shape [OF r p] p by auto
qed

section \<open>Raw mode\<close>

definition ring_take :: "nat \<Rightarrow> bytes \<Rightarrow> bytes \<times> bytes" where
  "ring_take k ring = (case ring_pop (replicate k 0) ring of (r, out, n) \<Rightarrow> (r, take n out))"

interpretation ring: bounded_stream PTY_RING_CAP "\<lambda>r. True" "\<lambda>r. r" ring_push ring_take
  by unfold_locales (auto simp: ring_push_def ring_take_def ring_pop_def copy_at_def Let_def min_def)

text \<open>A raw terminal as a stream from the master's writes to the slave's reads.\<close>

definition raw_pty :: "pty \<Rightarrow> bool" where
  "raw_pty p \<longleftrightarrow> termios_lflag (termios p) AND ICANON = 0 \<and> termios_lflag (termios p) AND ECHO_FLAG = 0"

definition raw_link :: "u32 \<Rightarrow> u64 \<Rightarrow> u64 \<Rightarrow> pty_table \<Rightarrow> bool" where
  "raw_link k master slave t \<longleftrightarrow>
     bt_ok (ptys t) \<and> find_by_slave slave t = Some k \<and>
     (case bt_get (ptys t) k of Some p \<Rightarrow> pty_master p = master \<and> pty_slave p = Some slave \<and> raw_pty p | None \<Rightarrow> False)"

definition stdin_of :: "u32 \<Rightarrow> pty_table \<Rightarrow> bytes" where
  "stdin_of k t = (case bt_get (ptys t) k of Some p \<Rightarrow> to_slave p | None \<Rightarrow> [])"

definition link_push :: "u32 \<Rightarrow> u64 \<Rightarrow> bytes \<Rightarrow> pty_table \<Rightarrow> pty_table \<times> nat" where
  "link_push k master data t =
     (case master_write k master data t of (t', Some n) \<Rightarrow> (t', n) | (t', None) \<Rightarrow> (t', 0))"

definition link_pop :: "(u64 \<Rightarrow> bool) \<Rightarrow> u64 \<Rightarrow> nat \<Rightarrow> pty_table \<Rightarrow> pty_table \<times> bytes" where
  "link_pop ex slave n t =
     (case slave_read_stdin ex slave (replicate n 0) t of
        (t', out, Some (SlaveData m)) \<Rightarrow> (t', take m out)
      | (t', out, _) \<Rightarrow> (t', []))"

lemma find_put_same:
  assumes "bt_ok m" "bt_get m k = Some p" "pty_slave p' = pty_slave p"
  shows "map_option fst (find (\<lambda>(k, p). pty_slave p = Some s) (bt_put k p' m)) =
    map_option fst (find (\<lambda>(k, p). pty_slave p = Some s) m)"
  using assms
proof (induction m)
  case (Cons e m)
  obtain k1 p1 where e: "e = (k1, p1)" by (cases e)
  show ?case
  proof (cases "k1 = k")
    case True
    then show ?thesis using Cons.prems e by auto
  next
    case False
    then have "k1 < k" "bt_get m k = Some p"
      using Cons.prems e bt_get_in_keys [of m k p] by (auto simp: bt_ok_Cons split: if_splits)
    then show ?thesis using Cons.IH Cons.prems e False by (auto simp: bt_ok_Cons)
  qed
qed simp

lemma raw_link_put:
  assumes "raw_link k m s t" "bt_get (ptys t) k = Some p"
    and "pty_master p' = pty_master p" "pty_slave p' = pty_slave p" "termios p' = termios p"
  shows "raw_link k m s (t\<lparr>ptys := bt_put k p' (ptys t)\<rparr>)"
  using assms find_put_same [OF _ assms(2,4), of s]
  by (simp add: raw_link_def find_by_slave_def raw_pty_def)

lemma raw_linkD:
  assumes "raw_link k m s t"
  obtains p where "bt_get (ptys t) k = Some p" "pty_master p = m" "raw_pty p" "find_by_slave s t = Some k"
  using assms by (auto simp: raw_link_def split: option.splits)

interpretation raw_tty: bounded_stream PTY_RING_CAP "raw_link k m s" "stdin_of k" "link_push k m" "link_pop ex s"
proof
  fix xs q q' n
  assume link: "raw_link k m s q" and run: "link_push k m xs q = (q', n)"
  from link obtain p where p: "bt_get (ptys q) k = Some p" "pty_master p = m" "raw_pty p" "find_by_slave s q = Some k"
    by (rule raw_linkD)
  have "q' = q\<lparr>ptys := bt_put k (p\<lparr>to_slave := fst (ring_push xs (to_slave p))\<rparr>) (ptys q)\<rparr>"
    "n = snd (ring_push xs (to_slave p))"
    using run p by (auto simp: link_push_def master_write_def raw_pty_def Let_def split: prod.splits)
  then show "raw_link k m s q' \<and> n = min (length xs) (PTY_RING_CAP - length (stdin_of k q)) \<and>
      stdin_of k q' = stdin_of k q @ take n xs"
    using raw_link_put [OF link p(1)] p by (auto simp: stdin_of_def ring_push_def Let_def)
next
  fix n q q' ys
  assume link: "raw_link k m s q" and run: "link_pop ex s n q = (q', ys)"
  from link obtain p where p: "bt_get (ptys q) k = Some p" "pty_master p = m" "raw_pty p" "find_by_slave s q = Some k"
    by (rule raw_linkD)
  have "q' = q\<lparr>ptys := bt_put k (p\<lparr>to_slave := drop n (to_slave p)\<rparr>) (ptys q)\<rparr>" "ys = take n (to_slave p)"
    using run p by (auto simp: link_pop_def slave_read_stdin_def slave_pop_def ring_pop_def raw_pty_def copy_at_def
        Let_def min_def split: if_splits)
  then show "raw_link k m s q' \<and> ys = take n (stdin_of k q) \<and> stdin_of k q' = drop n (stdin_of k q)"
    using raw_link_put [OF link p(1)] p by (simp add: stdin_of_def)
qed

text \<open>
  A raw terminal is a lossless stream: over any sequence of master writes and slave reads, the
  bytes reported as accepted come out of the slave's reads in order, followed by what is still
  buffered, and the buffer never exceeds its capacity.
\<close>
lemma pty_raw_stream:
  assumes "raw_link k m s t" "length (stdin_of k t) \<le> PTY_RING_CAP"
    and "stream_run (link_push k m) (link_pop ex s) ops t = (t', accepted, delivered)"
  shows "stdin_of k t @ accepted = delivered @ stdin_of k t' \<and> length (stdin_of k t') \<le> PTY_RING_CAP"
  by (rule raw_tty.run_stream [OF assms(3,1,2)])

lemma raw_termios_flags: "termios_lflag raw_termios = 0"
  by code_simp

lemma pty_raw_stream_witness:
  "\<exists>t. raw_link 1 5 6 t \<and>
     (\<exists>t' acc del. stream_run (link_push 1 5) (link_pop (\<lambda>_. True) 6) [Push_op [104, 105], Pop_op 1] t = (t', acc, del) \<and>
        acc = del @ stdin_of 1 t')"
proof -
  let ?t = "fst (attach_slave 1 5 6 (fst (pty_create 5 pty_table_init)))"
  have l: "raw_link 1 5 6 ?t" "stdin_of 1 ?t = []"
    by (simp_all add: raw_link_def attach_slave_def pty_create_def pty_table_init_def find_by_slave_def raw_pty_def
        raw_termios_flags stdin_of_def Let_def bt_ok_Cons)
  obtain t' acc del where r: "stream_run (link_push 1 5) (link_pop (\<lambda>_. True) 6) [Push_op [104, 105], Pop_op 1] ?t = (t', acc, del)"
    by (metis prod_cases3)
  show ?thesis using pty_raw_stream [OF l(1) _ r] l r by auto
qed

section \<open>Canonical mode\<close>

text \<open>
  Reference line discipline: the lines released by an input and the pending rest, given the
  pending line before it.
\<close>

fun cooked :: "u8 \<Rightarrow> bytes \<Rightarrow> bytes \<Rightarrow> bytes list \<times> bytes" where
  "cooked erase pend [] = ([], pend)"
| "cooked erase pend (b # bs) =
     (if b = erase \<or> b = 0x08 then cooked erase (butlast pend) bs
      else if b = 0x0a then (case cooked erase [] bs of (ls, rest) \<Rightarrow> ((pend @ [b]) # ls, rest))
      else cooked erase (pend @ [b]) bs)"

fun echoed :: "u8 \<Rightarrow> bytes \<Rightarrow> bytes \<Rightarrow> bytes list" where
  "echoed erase pend [] = []"
| "echoed erase pend (b # bs) =
     (if b = erase \<or> b = 0x08
      then (if pend = [] then echoed erase [] bs else [0x08, 0x20, 0x08] # echoed erase (butlast pend) bs)
      else [b] # echoed erase (if b = 0x0a then [] else pend @ [b]) bs)"

lemma feed_bytes_cooked:
  "fold (feed_byte True echo erase) data p =
     (case cooked erase (canon p) data of (ls, rest) \<Rightarrow>
        p\<lparr>canon := rest, to_slave := fold ring_put ls (to_slave p),
          to_master := (if echo then fold ring_put (echoed erase (canon p) data) (to_master p) else to_master p)\<rparr>)"
proof (induction data arbitrary: p)
  case (Cons b bs)
  consider "b = erase \<or> b = 0x08" | "b \<noteq> erase" "b \<noteq> 0x08" "b = 0x0a" | "b \<noteq> erase" "b \<noteq> 0x08" "b \<noteq> 0x0a" by blast
  then show ?case
    unfolding fold_Cons o_apply Cons.IH feed_byte_def [of True echo erase b p]
    by cases (auto simp: Let_def split: prod.splits)
qed simp

lemma canon_pop_line:
  "0x0a \<notin> set line \<Longrightarrow> length line < room \<Longrightarrow> canon_pop room (line @ 0x0a # rest) = (rest, line @ [0x0a])"
proof (induction line arbitrary: room)
  case Nil
  then show ?case by (cases room) auto
next
  case (Cons b line)
  then show ?case by (cases room) auto
qed

lemma master_write_cooked:
  assumes "bt_get (ptys t) k = Some p" "pty_master p = m" "termios_lflag (termios p) AND ICANON \<noteq> 0"
    and "cooked (termios p ! 19) (canon p) data = (released, rest)"
  shows "master_write k m data t =
    (t\<lparr>ptys := bt_put k (p\<lparr>canon := rest, to_slave := fold ring_put released (to_slave p),
        to_master := (if termios_lflag (termios p) AND ECHO_FLAG \<noteq> 0
          then fold ring_put (echoed (termios p ! 19) (canon p) data) (to_master p) else to_master p)\<rparr>) (ptys t)\<rparr>,
     Some (length data))"
  using assms by (simp add: master_write_def Let_def feed_bytes_cooked C_CC_OFF_def VERASE_def)

text \<open>
  C24. Canonical mode implements the reference line discipline: writing \<open>data\<close> releases exactly the
  lines the reference edits out of the pending line and the input (erase removes the last pending
  byte and never crosses a newline), keeps the rest pending, and echoes through the bounded ring to
  the master exactly when the echo flag is set.
\<close>
theorem pty_canonical_refines:
  assumes "bt_get (ptys t) k = Some p" "pty_master p = m" "termios_lflag (termios p) AND ICANON \<noteq> 0"
    and "cooked (termios p ! 19) (canon p) data = (released, rest)"
  shows "master_write k m data t =
    (t\<lparr>ptys := bt_put k (p\<lparr>canon := rest, to_slave := fold ring_put released (to_slave p),
        to_master := (if termios_lflag (termios p) AND ECHO_FLAG \<noteq> 0
          then fold ring_put (echoed (termios p ! 19) (canon p) data) (to_master p) else to_master p)\<rparr>) (ptys t)\<rparr>,
     Some (length data))"
  by (rule master_write_cooked [OF assms])

theorem pty_canonical_refines_witness:
  "\<exists>p t. bt_get (ptys t) 1 = Some p \<and>
     master_write 1 5 [0x61, 0x62, 0x7f, 0x0a, 0x63] t =
       (t\<lparr>ptys := bt_put 1 (p\<lparr>canon := [0x63], to_slave := [0x61, 0x0a]\<rparr>) (ptys t)\<rparr>, Some 5)"
proof -
  let ?tio = "raw_termios[12 := 2]"
  let ?p = "\<lparr>pty_master = 5, pty_slave = Some 6, to_slave = [], to_master = [], termios = ?tio, canon = []\<rparr>"
  let ?t = "\<lparr>ptys = [(1, ?p)], next_pty_id = 2\<rparr> :: pty_table"
  have fl: "termios_lflag ?tio = 2"
    by code_simp
  have er: "raw_termios ! 19 = 0x7f" by code_simp
  have "master_write 1 5 [0x61, 0x62, 0x7f, 0x0a, 0x63] ?t =
      (?t\<lparr>ptys := bt_put 1 (?p\<lparr>canon := [0x63], to_slave := [0x61, 0x0a]\<rparr>) (ptys ?t)\<rparr>, Some 5)"
    using pty_canonical_refines [of ?t 1 ?p 5 "[0x61, 0x62, 0x7f, 0x0a, 0x63]" "[[0x61, 0x0a]]" "[0x63]"]
    by (simp add: er fl ICANON_def ECHO_FLAG_def ring_put_fits PTY_RING_CAP_def)
  then show ?thesis by (intro exI [of _ ?p] exI [of _ ?t]) simp
qed

text \<open>
  C32. In canonical mode the count returned to the master is the length of the input even when the
  released line does not fit the ring: with the ring full, a newline-terminated line is dropped
  entirely and still reported as accepted.
\<close>
theorem pty_canonical_overcount:
  assumes "bt_get (ptys t) k = Some p" "pty_master p = m" "termios_lflag (termios p) AND ICANON \<noteq> 0"
    and "length (to_slave p) = PTY_RING_CAP" "canon p = []"
    and "set line \<inter> {termios p ! 19, 0x08, 0x0a} = {}" "termios p ! 19 \<noteq> 0x0a"
  shows "\<exists>t' p'. master_write k m (line @ [0x0a]) t = (t', Some (Suc (length line))) \<and>
    bt_get (ptys t') k = Some p' \<and> to_slave p' = to_slave p \<and> canon p' = []"
proof -
  have c: "cooked (termios p ! 19) pend (line @ [0x0a]) = ([pend @ line @ [0x0a]], [])" for pend
    using assms(6,7) by (induction line arbitrary: pend) auto
  have "ring_put x (to_slave p) = to_slave p" for x
    using assms(4) by (simp add: ring_put_def ring_push_def)
  then show ?thesis using master_write_cooked [OF assms(1-3), of "line @ [0x0a]"] assms(5) c [of "[]"] by simp
qed

theorem pty_canonical_overcount_witness:
  "\<exists>t t' p p'. bt_get (ptys t) 1 = Some p \<and> master_write 1 5 [0x61, 0x0a] t = (t', Some 2) \<and>
     bt_get (ptys t') 1 = Some p' \<and> to_slave p' = to_slave p \<and> canon p' = []"
proof -
  let ?tio = "raw_termios[12 := 2]"
  let ?p = "\<lparr>pty_master = 5, pty_slave = Some 6, to_slave = replicate PTY_RING_CAP 0, to_master = [],
     termios = ?tio, canon = []\<rparr>"
  let ?t = "\<lparr>ptys = [(1, ?p)], next_pty_id = 2\<rparr> :: pty_table"
  have fl: "termios_lflag ?tio = 2"
    by code_simp
  have er: "raw_termios ! 19 = 0x7f" by code_simp
  have "\<exists>t' p'. master_write 1 5 ([0x61] @ [0x0a]) ?t = (t', Some (Suc (length [0x61 :: u8]))) \<and>
    bt_get (ptys t') 1 = Some p' \<and> to_slave p' = to_slave ?p \<and> canon p' = []"
    by (rule pty_canonical_overcount) (simp_all add: fl er ICANON_def)
  then obtain t' p' where "master_write 1 5 [0x61, 0x0a] ?t = (t', Some 2)"
      "bt_get (ptys t') 1 = Some p'" "to_slave p' = to_slave ?p" "canon p' = []"
    by (auto simp: numeral_2_eq_2)
  then show ?thesis by (intro exI [of _ ?t] exI [of _ t'] exI [of _ ?p] exI [of _ p']) simp
qed

end
