(* ===== verification/Paging.thy ===== *)
theory Paging
  imports Pmm "HOL-Library.Sublist"
begin

text \<open>
  Page tables and address spaces (\<^verbatim>\<open>kernel/src/memory/vmm.rs\<close>): the four-level walk, mapping,
  unmapping and changing the access of user pages, and the life cycle of an address space. Physical
  memory is a store of 64-bit words indexed by physical address, reached in the kernel through the
  direct map; the page tables live in it, so that a write to one table can be seen through another
  if the two overlap. The translation cache of the processor is not represented.

  The abstract view of an address space is the map from user pages to frames and access flags. The
  operations are shown to act on this view alone, and to keep the tables a tree that no user page
  can reach.
\<close>

section \<open>Page table entries\<close>

definition USER_SPACE_END :: usize where
  "USER_SPACE_END = 0x800000000000"

definition PML4_KERNEL_START :: nat where
  "PML4_KERNEL_START = 256"

definition UNINITIALIZED_ROOT :: usize where
  "UNINITIALIZED_ROOT = usize_max"

definition PF_PRESENT :: u64 where "PF_PRESENT = 1"
definition PF_WRITABLE :: u64 where "PF_WRITABLE = 2"
definition PF_USER :: u64 where "PF_USER = 4"
definition PF_WRITE_THROUGH :: u64 where "PF_WRITE_THROUGH = 8"
definition PF_NO_CACHE :: u64 where "PF_NO_CACHE = 16"
definition PF_HUGE :: u64 where "PF_HUGE = 128"
definition PF_NO_EXECUTE :: u64 where "PF_NO_EXECUTE = 0x8000000000000000"

text \<open>All flags of \<open>PageFlags\<close>, which \<open>from_bits_truncate\<close> keeps.\<close>

definition PF_ALL :: u64 where
  "PF_ALL = 0x80000000000001FF"

definition pf_contains :: "u64 \<Rightarrow> u64 \<Rightarrow> bool" where
  "pf_contains flags f \<longleftrightarrow> flags AND f = f"

definition pte_flags :: "u64 \<Rightarrow> u64" where
  "pte_flags e = e AND PF_ALL"

definition PTE_ADDR_MASK :: u64 where
  "PTE_ADDR_MASK = 0x000FFFFFFFFFF000"

definition pte_addr :: "u64 \<Rightarrow> usize" where
  "pte_addr e = unat (e AND PTE_ADDR_MASK)"

definition pte_make :: "usize \<Rightarrow> u64 \<Rightarrow> u64" where
  "pte_make addr flags = of_nat addr OR flags"

definition p4_index :: "usize \<Rightarrow> nat" where "p4_index v = (v div 2 ^ 39) mod 512"
definition p3_index :: "usize \<Rightarrow> nat" where "p3_index v = (v div 2 ^ 30) mod 512"
definition p2_index :: "usize \<Rightarrow> nat" where "p2_index v = (v div 2 ^ 21) mod 512"
definition p1_index :: "usize \<Rightarrow> nat" where "p1_index v = (v div 2 ^ 12) mod 512"
definition page_offset :: "usize \<Rightarrow> nat" where "page_offset v = v mod 4096"

section \<open>Machine and address spaces\<close>

type_synonym phys_mem = "usize \<Rightarrow> u64"

record machine =
  mem :: phys_mem
  m_pmm :: "pmm option"
  kernel_root :: usize
  cr3 :: usize

record address_space =
  root_frame :: usize
  user_frames :: "usize list"
  page_table_frames :: "usize list"

datatype address_space_error =
    NoPhysicalMemoryManager | SpaceOutOfMemory | InvalidUserAddress | HugePageInPath | KernelRootNotInitialized

text \<open>Entry \<open>i\<close> of the table in the frame at \<open>t\<close>.\<close>

definition slot :: "usize \<Rightarrow> nat \<Rightarrow> usize" where
  "slot t i = t + 8 * i"

definition zero_page :: "usize \<Rightarrow> phys_mem \<Rightarrow> phys_mem" where
  "zero_page f m = (\<lambda>a. if f \<le> a \<and> a < f + PAGE_SIZE then 0 else m a)"

definition sync_kernel_half_into :: "usize \<Rightarrow> machine \<Rightarrow> machine \<times> (address_space_error + unit)" where
  "sync_kernel_half_into root st =
     (if kernel_root st = UNINITIALIZED_ROOT then (st, Inl KernelRootNotInitialized)
      else if root = kernel_root st then (st, Inr ())
      else
        (st\<lparr>mem := fold (\<lambda>i m. m(slot root i := m (slot (kernel_root st) i)))
             [PML4_KERNEL_START..<512] (mem st)\<rparr>, Inr ()))"

definition switch_to_root_frame :: "usize \<Rightarrow> machine \<Rightarrow> machine outcome" where
  "switch_to_root_frame root st =
     (case sync_kernel_half_into root st of
        (st', Inl _) \<Rightarrow> Panic
      | (st', Inr _) \<Rightarrow> Ret (st'\<lparr>cr3 := root\<rparr>))"

definition space_new :: "machine \<Rightarrow> machine \<times> (address_space_error + address_space)" where
  "space_new st =
     (case m_pmm st of
        None \<Rightarrow> (st, Inl NoPhysicalMemoryManager)
      | Some pm \<Rightarrow>
          (case alloc_frame pm of
             (pm', None) \<Rightarrow> (st\<lparr>m_pmm := Some pm'\<rparr>, Inl SpaceOutOfMemory)
           | (pm', Some root) \<Rightarrow>
               (case sync_kernel_half_into root (st\<lparr>m_pmm := Some pm', mem := zero_page root (mem st)\<rparr>) of
                  (st1, Inl e) \<Rightarrow> (st1\<lparr>m_pmm := map_option (free_frame root) (m_pmm st1)\<rparr>, Inl e)
                | (st1, Inr _) \<Rightarrow>
                    (st1, Inr \<lparr>root_frame = root, user_frames = [], page_table_frames = [root]\<rparr>))))"

definition user_page_mapping_from_root ::
  "usize \<Rightarrow> usize \<Rightarrow> phys_mem \<Rightarrow> address_space_error + (usize \<times> u64) option" where
  "user_page_mapping_from_root root v m =
     (if USER_SPACE_END \<le> v then Inl InvalidUserAddress
      else
        let p4 = m (slot root (p4_index v))
        in if p4 = 0 then Inr None
           else if pf_contains (pte_flags p4) PF_HUGE then Inl HugePageInPath
           else
             let p3 = m (slot (pte_addr p4) (p3_index v))
             in if p3 = 0 then Inr None
                else if pf_contains (pte_flags p3) PF_HUGE then Inl HugePageInPath
                else
                  let p2 = m (slot (pte_addr p3) (p2_index v))
                  in if p2 = 0 then Inr None
                     else if pf_contains (pte_flags p2) PF_HUGE then Inl HugePageInPath
                     else
                       let p1 = m (slot (pte_addr p2) (p1_index v))
                       in if p1 = 0 then Inr None
                          else Inr (Some (pte_addr p1 + page_offset v, pte_flags p1)))"

definition user_page_mapping :: "address_space \<Rightarrow> usize \<Rightarrow> machine \<Rightarrow> address_space_error + (usize \<times> u64) option" where
  "user_page_mapping sp v st = user_page_mapping_from_root (root_frame sp) v (mem st)"

definition translate_user_page :: "address_space \<Rightarrow> usize \<Rightarrow> machine \<Rightarrow> address_space_error + usize option" where
  "translate_user_page sp v st =
     (case user_page_mapping sp v st of Inl e \<Rightarrow> Inl e | Inr r \<Rightarrow> Inr (map_option fst r))"

definition user_page_flags :: "address_space \<Rightarrow> usize \<Rightarrow> machine \<Rightarrow> address_space_error + u64 option" where
  "user_page_flags sp v st =
     (case user_page_mapping sp v st of Inl e \<Rightarrow> Inl e | Inr r \<Rightarrow> Inr (map_option snd r))"

definition active_user_page_flags :: "usize \<Rightarrow> machine \<Rightarrow> address_space_error + u64 option" where
  "active_user_page_flags v st =
     (case user_page_mapping_from_root (cr3 st) v (mem st) of Inl e \<Rightarrow> Inl e | Inr r \<Rightarrow> Inr (map_option snd r))"

definition ensure_next_table ::
  "usize \<Rightarrow> address_space \<Rightarrow> machine \<Rightarrow> address_space \<times> machine \<times> (address_space_error + usize)" where
  "ensure_next_table s sp st =
     (let e = mem st s
      in if e \<noteq> 0 then
           if pf_contains (pte_flags e) PF_HUGE then (sp, st, Inl HugePageInPath)
           else
             let e' = (if pf_contains (pte_flags e) PF_USER then e else e OR PF_USER)
             in (sp, st\<lparr>mem := (mem st)(s := e')\<rparr>, Inr (pte_addr e'))
         else
           case m_pmm st of
             None \<Rightarrow> (sp, st, Inl NoPhysicalMemoryManager)
           | Some pm \<Rightarrow>
               (case alloc_frame pm of
                  (pm', None) \<Rightarrow> (sp, st\<lparr>m_pmm := Some pm'\<rparr>, Inl SpaceOutOfMemory)
                | (pm', Some frame) \<Rightarrow>
                    (sp\<lparr>page_table_frames := page_table_frames sp @ [frame]\<rparr>,
                     st\<lparr>m_pmm := Some pm',
                        mem := (zero_page frame (mem st))(s := pte_make frame (PF_PRESENT OR PF_WRITABLE OR PF_USER))\<rparr>,
                     Inr frame)))"

definition bad_user_page :: "usize \<Rightarrow> bool" where
  "bad_user_page v \<longleftrightarrow> v = 0 \<or> USER_SPACE_END \<le> v \<or> v mod PAGE_SIZE \<noteq> 0"

definition map_user_frame ::
  "usize \<Rightarrow> usize \<Rightarrow> u64 \<Rightarrow> address_space \<Rightarrow> machine \<Rightarrow> address_space \<times> machine \<times> (address_space_error + unit)" where
  "map_user_frame v phys flags sp st =
     (if bad_user_page v \<or> phys mod PAGE_SIZE \<noteq> 0 then (sp, st, Inl InvalidUserAddress)
      else
        case ensure_next_table (slot (root_frame sp) (p4_index v)) sp st of
          (sp, st, Inl e) \<Rightarrow> (sp, st, Inl e)
        | (sp, st, Inr p3) \<Rightarrow>
            (case ensure_next_table (slot p3 (p3_index v)) sp st of
               (sp, st, Inl e) \<Rightarrow> (sp, st, Inl e)
             | (sp, st, Inr p2) \<Rightarrow>
                 (case ensure_next_table (slot p2 (p2_index v)) sp st of
                    (sp, st, Inl e) \<Rightarrow> (sp, st, Inl e)
                  | (sp, st, Inr p1) \<Rightarrow>
                      let s = slot p1 (p1_index v)
                      in if mem st s \<noteq> 0 then (sp, st, Inl InvalidUserAddress)
                         else (sp, st\<lparr>mem := (mem st)(s := pte_make phys (flags OR PF_PRESENT OR PF_USER))\<rparr>, Inr ()))))"

definition map_user_page ::
  "usize \<Rightarrow> u64 \<Rightarrow> address_space \<Rightarrow> machine \<Rightarrow> address_space \<times> machine \<times> (address_space_error + usize)" where
  "map_user_page v flags sp st =
     (if bad_user_page v then (sp, st, Inl InvalidUserAddress)
      else
        case m_pmm st of
          None \<Rightarrow> (sp, st, Inl NoPhysicalMemoryManager)
        | Some pm \<Rightarrow>
            (case alloc_frame pm of
               (pm', None) \<Rightarrow> (sp, st\<lparr>m_pmm := Some pm'\<rparr>, Inl SpaceOutOfMemory)
             | (pm', Some frame) \<Rightarrow>
                 (case map_user_frame v frame (flags OR PF_PRESENT OR PF_USER) sp
                         (st\<lparr>m_pmm := Some pm', mem := zero_page frame (mem st)\<rparr>) of
                    (sp1, st1, Inl e) \<Rightarrow> (sp1, st1\<lparr>m_pmm := map_option (free_frame frame) (m_pmm st1)\<rparr>, Inl e)
                  | (sp1, st1, Inr _) \<Rightarrow> (sp1\<lparr>user_frames := user_frames sp1 @ [frame]\<rparr>, st1, Inr frame))))"

text \<open>The leaf entry of a page, found by following the tables without further checks.\<close>

definition leaf_slot :: "usize \<Rightarrow> usize \<Rightarrow> phys_mem \<Rightarrow> usize" where
  "leaf_slot root v m =
     (let p3 = pte_addr (m (slot root (p4_index v)));
          p2 = pte_addr (m (slot p3 (p3_index v)));
          p1 = pte_addr (m (slot p2 (p2_index v)))
      in slot p1 (p1_index v))"

definition unmap_user_page ::
  "usize \<Rightarrow> address_space \<Rightarrow> machine \<Rightarrow> address_space \<times> machine \<times> (address_space_error + bool)" where
  "unmap_user_page v sp st =
     (if bad_user_page v then (sp, st, Inl InvalidUserAddress)
      else
        case user_page_mapping sp v st of
          Inl e \<Rightarrow> (sp, st, Inl e)
        | Inr None \<Rightarrow> (sp, st, Inr False)
        | Inr (Some (frame, _)) \<Rightarrow>
            let st1 = st\<lparr>mem := (mem st)(leaf_slot (root_frame sp) v (mem st) := 0)\<rparr>;
                start = align_down frame PAGE_SIZE
            in case position (\<lambda>owned. owned = start) (user_frames sp) of
                 None \<Rightarrow> (sp, st1, Inr True)
               | Some i \<Rightarrow>
                   (sp\<lparr>user_frames := swap_remove i (user_frames sp)\<rparr>,
                    st1\<lparr>m_pmm := map_option (free_frame start) (m_pmm st1)\<rparr>, Inr True))"

definition protect_user_page ::
  "usize \<Rightarrow> u64 \<Rightarrow> bool \<Rightarrow> address_space \<Rightarrow> machine \<Rightarrow> machine \<times> (address_space_error + bool)" where
  "protect_user_page v flags present sp st =
     (if bad_user_page v then (st, Inl InvalidUserAddress)
      else
        case user_page_mapping sp v st of
          Inl e \<Rightarrow> (st, Inl e)
        | Inr None \<Rightarrow> (st, Inr False)
        | Inr (Some (phys, _)) \<Rightarrow>
            let new_flags = (if present then flags OR PF_USER OR PF_PRESENT else flags OR PF_USER)
            in (st\<lparr>mem := (mem st)(leaf_slot (root_frame sp) v (mem st) := pte_make phys new_flags)\<rparr>, Inr True))"

definition space_drop :: "address_space \<Rightarrow> machine \<Rightarrow> machine" where
  "space_drop sp st =
     st\<lparr>m_pmm := map_option (\<lambda>pm. fold free_frame (page_table_frames sp) (fold free_frame (user_frames sp) pm)) (m_pmm st)\<rparr>"

section \<open>Bits of an entry\<close>

lemma bit_PF_ALL: "bit PF_ALL n \<longleftrightarrow> n < 9 \<or> n = 63"
proof -
  have eq: "PF_ALL = mask 9 OR push_bit 63 1" by (simp add: PF_ALL_def mask_eq_exp_minus_1)
  show ?thesis unfolding eq bit_or_iff bit_mask_iff bit_push_bit_iff by (auto simp: bit_1_iff)
qed

lemma bit_addr_mask: "bit PTE_ADDR_MASK n \<longleftrightarrow> 12 \<le> n \<and> n < 52"
proof -
  have eq: "PTE_ADDR_MASK = push_bit 12 (mask 40)"
    by (simp add: PTE_ADDR_MASK_def mask_eq_exp_minus_1 push_bit_eq_mult)
  show ?thesis unfolding eq bit_mask_iff bit_push_bit_iff by auto
qed

text \<open>Frame addresses that an entry can hold.\<close>

definition frame_addr_ok :: "usize \<Rightarrow> bool" where
  "frame_addr_ok a \<longleftrightarrow> PAGE_SIZE dvd a \<and> a < 2 ^ 52"

lemma bit_frame_addr: "frame_addr_ok a \<Longrightarrow> bit (of_nat a :: u64) n \<Longrightarrow> 12 \<le> n \<and> n < 52"
proof -
  assume ok: "frame_addr_ok a" and b: "bit (of_nat a :: u64) n"
  then have bn: "bit a n" by (simp add: bit_of_nat_iff)
  obtain k where k: "a = 2 ^ 12 * k" using ok by (auto simp: frame_addr_ok_def PAGE_SIZE_def dvd_def)
  have "a = push_bit 12 k" unfolding k by (simp add: push_bit_eq_mult)
  then have "12 \<le> n" using bn bit_push_bit_iff [of 12 k n] by simp
  moreover have "take_bit 52 a = a" using ok by (simp add: frame_addr_ok_def take_bit_nat_eq_self)
  then have "n < 52" using bn by (metis bit_take_bit_iff)
  ultimately show ?thesis by simp
qed

definition flags_ok :: "u64 \<Rightarrow> bool" where
  "flags_ok fl \<longleftrightarrow> fl AND PF_ALL = fl"

lemma bit_flags_ok: "flags_ok fl \<Longrightarrow> bit fl n \<Longrightarrow> n < 9 \<or> n = 63"
  unfolding flags_ok_def by (metis bit_PF_ALL bit_and_iff)

lemma flags_ok_or: "flags_ok a \<Longrightarrow> flags_ok b \<Longrightarrow> flags_ok (a OR b)"
  unfolding flags_ok_def by (simp add: bit.conj_disj_distrib2)

lemma flags_ok_consts [simp]:
  "flags_ok PF_PRESENT" "flags_ok PF_WRITABLE" "flags_ok PF_USER" "flags_ok PF_NO_EXECUTE" "flags_ok 0"
  by (simp_all add: flags_ok_def PF_ALL_def PF_PRESENT_def PF_WRITABLE_def PF_USER_def PF_NO_EXECUTE_def)

lemma pte_addr_make:
  assumes "frame_addr_ok a" "flags_ok fl"
  shows "pte_addr (pte_make a fl) = a"
proof -
  have "pte_make a fl AND PTE_ADDR_MASK = (of_nat a :: u64)"
  proof (rule bit_eqI)
    fix n assume "possible_bit TYPE(64 word) n"
    show "bit (pte_make a fl AND PTE_ADDR_MASK) n = bit (of_nat a :: u64) n"
      using bit_frame_addr [OF assms(1), of n] bit_flags_ok [OF assms(2), of n]
      by (auto simp: pte_make_def bit_and_iff bit_or_iff bit_addr_mask)
  qed
  then show ?thesis using assms(1) by (simp add: pte_addr_def frame_addr_ok_def unat_of_nat take_bit_nat_eq_self)
qed

lemma pte_flags_make:
  assumes "frame_addr_ok a" "flags_ok fl"
  shows "pte_flags (pte_make a fl) = fl"
proof (rule bit_eqI)
  fix n assume "possible_bit TYPE(64 word) n"
  show "bit (pte_flags (pte_make a fl)) n = bit fl n"
    using bit_frame_addr [OF assms(1), of n] bit_flags_ok [OF assms(2), of n]
    by (auto simp: pte_flags_def pte_make_def bit_and_iff bit_or_iff bit_PF_ALL)
qed

lemma pf_contains_bit:
  "pf_contains fl PF_USER \<longleftrightarrow> bit fl 2" "pf_contains fl PF_HUGE \<longleftrightarrow> bit fl 7" "pf_contains fl PF_PRESENT \<longleftrightarrow> bit fl 0"
proof -
  have "fl AND push_bit n 1 = push_bit n 1 \<longleftrightarrow> bit fl n" if "n < 64" for n :: nat
    unfolding bit_eq_iff bit_and_iff bit_push_bit_iff using that by (auto simp: bit_1_iff)
  from this [of 2] this [of 7] this [of 0]
  show "pf_contains fl PF_USER \<longleftrightarrow> bit fl 2" "pf_contains fl PF_HUGE \<longleftrightarrow> bit fl 7" "pf_contains fl PF_PRESENT \<longleftrightarrow> bit fl 0"
    by (simp_all add: pf_contains_def PF_USER_def PF_HUGE_def PF_PRESENT_def push_bit_eq_mult)
qed

section \<open>The tree of tables\<close>

definition next_table :: "phys_mem \<Rightarrow> usize \<Rightarrow> nat \<Rightarrow> usize option" where
  "next_table m t i =
     (let e = m (slot t i) in if e = 0 \<or> pf_contains (pte_flags e) PF_HUGE then None else Some (pte_addr e))"

text \<open>The table reached from the root by a path of indices, newest index last.\<close>

fun table_at :: "phys_mem \<Rightarrow> usize \<Rightarrow> nat list \<Rightarrow> usize option" where
  "table_at m t [] = Some t"
| "table_at m t (i # is) = Option.bind (next_table m t i) (\<lambda>t'. table_at m t' is)"

lemma table_at_snoc: "table_at m t (is @ [i]) = Option.bind (table_at m t is) (\<lambda>t'. next_table m t' i)"
  by (induction "is" arbitrary: t) (auto split: bind_split)

text \<open>Paths into the user half: the index into the root is below 256.\<close>

definition user_path :: "nat list \<Rightarrow> bool" where
  "user_path p \<longleftrightarrow> length p \<le> 3 \<and> (\<forall>i \<in> set p. i < 512) \<and> (p \<noteq> [] \<longrightarrow> hd p < 256)"

definition user_slot :: "nat list \<Rightarrow> nat \<Rightarrow> bool" where
  "user_slot p i \<longleftrightarrow> user_path p \<and> i < 512 \<and> (p = [] \<longrightarrow> i < 256)"

lemma user_path_snoc: "user_path (p @ [i]) \<longleftrightarrow> user_slot p i \<and> length p < 3"
  by (cases p) (auto simp: user_path_def user_slot_def)

lemma user_path_Nil [simp]: "user_path []"
  by (simp add: user_path_def)

definition tables_ok :: "phys_mem \<Rightarrow> usize \<Rightarrow> usize set \<Rightarrow> bool" where
  "tables_ok m root T \<longleftrightarrow> (\<forall>t \<in> T. frame_addr_ok t) \<and>
     (\<forall>p t. user_path p \<longrightarrow> table_at m root p = Some t \<longrightarrow> t \<in> T) \<and>
     (\<forall>p q t. user_path p \<longrightarrow> user_path q \<longrightarrow> table_at m root p = Some t \<longrightarrow> table_at m root q = Some t \<longrightarrow> p = q) \<and>
     (\<forall>p i t. user_slot p i \<longrightarrow> length p < 3 \<longrightarrow> table_at m root p = Some t \<longrightarrow> m (slot t i) \<noteq> 0 \<longrightarrow>
        \<not> pf_contains (pte_flags (m (slot t i))) PF_HUGE)"

lemma tables_okI:
  assumes "\<forall>t \<in> T. frame_addr_ok t"
    and "\<And>p t. user_path p \<Longrightarrow> table_at m root p = Some t \<Longrightarrow> t \<in> T"
    and "\<And>p q t. user_path p \<Longrightarrow> user_path q \<Longrightarrow> table_at m root p = Some t \<Longrightarrow> table_at m root q = Some t \<Longrightarrow> p = q"
    and "\<And>p i t. user_slot p i \<Longrightarrow> length p < 3 \<Longrightarrow> table_at m root p = Some t \<Longrightarrow> m (slot t i) \<noteq> 0 \<Longrightarrow>
      \<not> pf_contains (pte_flags (m (slot t i))) PF_HUGE"
  shows "tables_ok m root T"
  unfolding tables_ok_def using assms by blast

lemma tables_okD:
  assumes "tables_ok m root T" "user_path p" "table_at m root p = Some t"
  shows "t \<in> T" "frame_addr_ok t"
    and "\<And>q. user_path q \<Longrightarrow> table_at m root q = Some t \<Longrightarrow> q = p"
    and "\<And>i. length p < 3 \<Longrightarrow> user_slot p i \<Longrightarrow> m (slot t i) \<noteq> 0 \<Longrightarrow> \<not> pf_contains (pte_flags (m (slot t i))) PF_HUGE"
  using assms unfolding tables_ok_def by blast+

lemma slot_inj:
  assumes "PAGE_SIZE dvd t" "PAGE_SIZE dvd u" "i < 512" "j < 512" "slot t i = slot u j"
  shows "t = u \<and> i = j"
proof -
  obtain k l where kl: "t = 4096 * k" "u = 4096 * l" using assms(1,2) by (auto simp: PAGE_SIZE_def dvd_def)
  have "512 * k + i = 512 * l + j" using assms(5) by (simp add: slot_def kl)
  then have "(512 * k + i) div 512 = (512 * l + j) div 512" by simp
  then have "k = l" using assms(3,4) by simp
  then show ?thesis using \<open>512 * k + i = 512 * l + j\<close> kl by simp
qed

lemma slot_in_page: "i < 512 \<Longrightarrow> t \<le> slot t i \<and> slot t i < t + PAGE_SIZE"
  by (simp add: slot_def PAGE_SIZE_def)

lemma slot_other_page:
  assumes "PAGE_SIZE dvd t" "PAGE_SIZE dvd f" "t \<noteq> f" "i < 512"
  shows "\<not> (f \<le> slot t i \<and> slot t i < f + PAGE_SIZE)"
proof -
  obtain k l where kl: "t = 4096 * k" "f = 4096 * l" using assms(1,2) by (auto simp: PAGE_SIZE_def dvd_def)
  have "k \<noteq> l" using assms(3) kl by simp
  then show ?thesis using assms(4) unfolding slot_def kl PAGE_SIZE_def by linarith
qed

lemma zero_page_other: "PAGE_SIZE dvd t \<Longrightarrow> PAGE_SIZE dvd f \<Longrightarrow> t \<noteq> f \<Longrightarrow> i < 512 \<Longrightarrow> zero_page f m (slot t i) = m (slot t i)"
  using slot_other_page [of t f i] by (auto simp: zero_page_def)

lemma zero_page_same: "i < 512 \<Longrightarrow> zero_page f m (slot f i) = 0"
  using slot_in_page [of i f] by (auto simp: zero_page_def)

text \<open>Memory that agrees on the tables gives the same tree.\<close>

lemma table_at_cong:
  assumes "tables_ok m root T" "\<And>t i. t \<in> T \<Longrightarrow> i < 512 \<Longrightarrow> m' (slot t i) = m (slot t i)" "user_path p"
  shows "table_at m' root p = table_at m root p"
  using assms(3)
proof (induction p rule: rev_induct)
  case (snoc i p)
  then have p: "user_path p" "i < 512" by (auto simp: user_path_snoc user_slot_def)
  then show ?case using snoc.IH tables_okD(1) [OF assms(1) p(1)] assms(2)
    by (auto simp: table_at_snoc next_table_def split: bind_split)
qed simp

lemma tables_ok_same:
  assumes "tables_ok m root T" "\<And>p. user_path p \<Longrightarrow> table_at m' root p = table_at m root p"
    and "\<And>p i t. user_slot p i \<Longrightarrow> length p < 3 \<Longrightarrow> table_at m root p = Some t \<Longrightarrow>
      m' (slot t i) = m (slot t i) \<or> \<not> pf_contains (pte_flags (m' (slot t i))) PF_HUGE"
  shows "tables_ok m' root T"
proof (rule tables_okI)
  show "\<forall>t \<in> T. frame_addr_ok t" using assms(1) by (simp add: tables_ok_def)
  show "t \<in> T" if "user_path p" "table_at m' root p = Some t" for p t
    using that tables_okD(1) [OF assms(1)] assms(2) by simp
  show "p = q" if "user_path p" "user_path q" "table_at m' root p = Some t" "table_at m' root q = Some t" for p q t
    using that tables_okD(3) [OF assms(1)] assms(2) by simp
  show "\<not> pf_contains (pte_flags (m' (slot t i))) PF_HUGE"
    if "user_slot p i" "length p < 3" "table_at m' root p = Some t" "m' (slot t i) \<noteq> 0" for p i t
  proof -
    have "user_path p" using that(1) by (simp add: user_slot_def)
    then have "table_at m root p = Some t" using that(3) assms(2) by simp
    then show ?thesis using assms(3) [OF that(1,2)] tables_okD(4) [OF assms(1) \<open>user_path p\<close>] that by auto
  qed
qed

lemma tables_ok_cong:
  assumes "tables_ok m root T" "\<And>t i. t \<in> T \<Longrightarrow> i < 512 \<Longrightarrow> m' (slot t i) = m (slot t i)"
  shows "tables_ok m' root T"
proof (rule tables_ok_same [OF assms(1) table_at_cong [OF assms]])
  show "m' (slot t i) = m (slot t i) \<or> \<not> pf_contains (pte_flags (m' (slot t i))) PF_HUGE"
    if "user_slot p i" "table_at m root p = Some t" for p i t
    using assms(2) tables_okD(1) [OF assms(1)] that by (auto simp: user_slot_def)
qed

text \<open>A write to one entry is seen only through that entry.\<close>

lemma table_at_write:
  assumes "tables_ok m root T" "user_slot q i" "table_at m root q = Some t" "user_path p" "\<not> prefix (q @ [i]) p"
  shows "table_at (m(slot t i := e)) root p = table_at m root p"
  using assms(4,5)
proof (induction p rule: rev_induct)
  case (snoc j p)
  have p: "user_path p" "j < 512" using snoc.prems(1) by (auto simp: user_path_snoc user_slot_def)
  have IH: "table_at (m(slot t i := e)) root p = table_at m root p"
    using snoc.IH p(1) snoc.prems(2) prefix_prefix by blast
  have q: "user_path q" "i < 512" using assms(2) by (auto simp: user_slot_def)
  have "slot u j \<noteq> slot t i" if u: "table_at m root p = Some u" for u
  proof
    assume "slot u j = slot t i"
    then have "u = t \<and> j = i"
      using slot_inj [of u t j i] tables_okD(2) [OF assms(1) p(1) u] tables_okD(2) [OF assms(1) q(1) assms(3)] p(2) q(2)
      by (auto simp: frame_addr_ok_def)
    then have "p = q" using tables_okD(3) [OF assms(1) q(1) assms(3) p(1)] u by simp
    then show False using \<open>u = t \<and> j = i\<close> snoc.prems(2) by simp
  qed
  then show ?case unfolding table_at_snoc IH by (cases "table_at m root p") (simp_all add: next_table_def)
qed simp

lemma tables_ok_slot:
  assumes "tables_ok m root T" "user_slot p i" "table_at m root p = Some t" "user_slot q j" "table_at m root q = Some u"
    and "slot t i = slot u j"
  shows "p = q \<and> i = j \<and> t = u"
proof -
  have p: "user_path p" "i < 512" "user_path q" "j < 512" using assms(2,4) by (auto simp: user_slot_def)
  have "t = u \<and> i = j"
    using slot_inj [OF _ _ p(2,4) assms(6)] tables_okD(2) [OF assms(1) p(1) assms(3)]
      tables_okD(2) [OF assms(1) p(3) assms(5)] by (simp add: frame_addr_ok_def)
  then show ?thesis using tables_okD(3) [OF assms(1) p(3) assms(5) p(1)] assms(3) by simp
qed

text \<open>The three writes of the walk: into a leaf, of the access bits of a link, and of a new table.\<close>

lemma leaf_write_tables:
  assumes "tables_ok m root T" "user_slot q i" "length q = 3" "table_at m root q = Some t"
  shows "tables_ok (m(slot t i := e)) root T"
    and "user_path p \<Longrightarrow> table_at (m(slot t i := e)) root p = table_at m root p"
proof -
  have c: "table_at (m(slot t i := e)) root p = table_at m root p" if "user_path p" for p
  proof (rule table_at_write [OF assms(1,2,4) that])
    show "\<not> prefix (q @ [i]) p" using that assms(3) by (auto simp: user_path_def dest: prefix_length_le)
  qed
  then show "user_path p \<Longrightarrow> table_at (m(slot t i := e)) root p = table_at m root p" .
  show "tables_ok (m(slot t i := e)) root T"
  proof (rule tables_ok_same [OF assms(1) c])
    show "(m(slot t i := e)) (slot u j) = m (slot u j) \<or> \<not> pf_contains (pte_flags ((m(slot t i := e)) (slot u j))) PF_HUGE"
      if "user_slot p j" "length p < 3" "table_at m root p = Some u" for p j u
      using tables_ok_slot [OF assms(1) that(1,3) assms(2,4)] that(2) assms(3) by auto
  qed
qed

lemma pte_or_user:
  "pte_addr (e OR PF_USER) = pte_addr e" "pf_contains (pte_flags (e OR PF_USER)) PF_HUGE = pf_contains (pte_flags e) PF_HUGE"
  "e OR PF_USER \<noteq> 0"
proof -
  have u: "PF_USER = push_bit 2 1" by (simp add: PF_USER_def)
  have "(e OR PF_USER) AND PTE_ADDR_MASK = e AND PTE_ADDR_MASK"
    unfolding u bit_eq_iff bit_and_iff bit_or_iff bit_push_bit_iff bit_addr_mask by (auto simp: bit_1_iff)
  then show "pte_addr (e OR PF_USER) = pte_addr e" by (simp add: pte_addr_def)
  show "pf_contains (pte_flags (e OR PF_USER)) PF_HUGE = pf_contains (pte_flags e) PF_HUGE"
    unfolding pf_contains_bit pte_flags_def u bit_and_iff bit_or_iff bit_push_bit_iff by (auto simp: bit_1_iff)
  have "bit (e OR PF_USER) 2" unfolding u bit_or_iff bit_push_bit_iff by simp
  then show "e OR PF_USER \<noteq> 0" by auto
qed

lemma link_write_tables:
  assumes "tables_ok m root T" "m s \<noteq> 0" "e = m s \<or> e = m s OR PF_USER"
  shows "tables_ok (m(s := e)) root T" and "table_at (m(s := e)) r p = table_at m r p"
proof -
  have n: "next_table (m(s := e)) t i = next_table m t i" for t i
    using assms(2,3) by (auto simp: next_table_def pte_or_user)
  have c: "table_at (m(s := e)) r p = table_at m r p" for r p
    by (induction p arbitrary: r) (simp_all add: n)
  then show "table_at (m(s := e)) r p = table_at m r p" .
  show "tables_ok (m(s := e)) root T"
  proof (rule tables_ok_same [OF assms(1) c])
    show "(m(s := e)) (slot u j) = m (slot u j) \<or> \<not> pf_contains (pte_flags ((m(s := e)) (slot u j))) PF_HUGE"
      if "user_slot p j" "length p < 3" "table_at m root p = Some u" for p j u
      using tables_okD(4) [OF assms(1) _ that(3,2,1)] assms(2,3) that(1) by (auto simp: pte_or_user user_slot_def)
  qed
qed

lemma table_at_append: "table_at m t (p @ q) = Option.bind (table_at m t p) (\<lambda>t'. table_at m t' q)"
  by (induction p arbitrary: t) (auto split: bind_split)

definition with_table :: "usize \<Rightarrow> nat \<Rightarrow> usize \<Rightarrow> u64 \<Rightarrow> phys_mem \<Rightarrow> phys_mem" where
  "with_table t i f fl m = (zero_page f m)(slot t i := pte_make f fl)"

lemma pte_make_nonzero: "frame_addr_ok a \<Longrightarrow> flags_ok fl \<Longrightarrow> fl \<noteq> 0 \<Longrightarrow> pte_make a fl \<noteq> 0"
  using pte_flags_make [of a fl] by (auto simp: pte_flags_def)

lemma with_table_at:
  assumes ok: "tables_ok m root T" and qi: "user_slot q i" "length q < 3" and at: "table_at m root q = Some t"
    and f: "f \<notin> T" "frame_addr_ok f" and fl: "flags_ok fl" "\<not> bit fl 7" "fl \<noteq> 0" and p: "user_path p"
  shows "table_at (with_table t i f fl m) root p =
    (if p = q @ [i] then Some f else if prefix (q @ [i]) p then None else table_at m root p)"
proof -
  have q: "user_path q" "i < 512" using qi(1) by (auto simp: user_slot_def)
  have tT: "t \<in> T" "frame_addr_ok t" using tables_okD(1,2) [OF ok q(1) at] by auto
  have zero: "zero_page f m (slot u j) = m (slot u j)" if "u \<in> T" "j < 512" for u j
    using zero_page_other [of u f j m] that f ok by (auto simp: tables_ok_def frame_addr_ok_def)
  have okz: "tables_ok (zero_page f m) root T" by (rule tables_ok_cong [OF ok]) (rule zero)
  have atz: "table_at (zero_page f m) root p = table_at m root p" if "user_path p" for p
    by (rule table_at_cong [OF ok _ that]) (rule zero)
  have old: "table_at (with_table t i f fl m) root p = table_at m root p" if "user_path p" "\<not> prefix (q @ [i]) p" for p
    unfolding with_table_def using table_at_write [OF okz qi(1) _ that] atz [OF that(1)] atz [OF q(1)] at by simp
  have "table_at (with_table t i f fl m) root q = Some t" using old [OF q(1)] at by (auto dest: prefix_length_le)
  moreover have "next_table (with_table t i f fl m) t i = Some f"
    using pte_addr_make [OF f(2) fl(1)] pte_flags_make [OF f(2) fl(1)] pte_make_nonzero [OF f(2) fl(1,3)] fl(2)
    by (simp add: next_table_def with_table_def pf_contains_bit)
  ultimately have new: "table_at (with_table t i f fl m) root (q @ [i]) = Some f" by (simp add: table_at_snoc)
  have "next_table (with_table t i f fl m) f j = None" if "j < 512" for j
    using zero_page_same [OF that, of f m] slot_inj [of f t j i] that q(2) tT f
    by (auto simp: next_table_def with_table_def frame_addr_ok_def)
  then have "table_at (with_table t i f fl m) root p = None" if ext: "prefix (q @ [i]) p" "p \<noteq> q @ [i]"
  proof -
    obtain j r where pr: "p = (q @ [i]) @ j # r" using ext by (auto simp: prefix_def) (metis list.exhaust append_Nil2)
    then have "j < 512" using p by (simp add: user_path_def)
    then show ?thesis unfolding pr table_at_append [of _ _ "q @ [i]"] new
      using \<open>\<And>j. j < 512 \<Longrightarrow> next_table (with_table t i f fl m) f j = None\<close> by simp
  qed
  then show ?thesis using new old [OF p] by auto
qed

lemma with_table_ok:
  assumes ok: "tables_ok m root T" and qi: "user_slot q i" "length q < 3" and at: "table_at m root q = Some t"
    and f: "f \<notin> T" "frame_addr_ok f" and fl: "flags_ok fl" "\<not> bit fl 7" "fl \<noteq> 0"
  shows "tables_ok (with_table t i f fl m) root (insert f T)"
proof (rule tables_okI)
  let ?m = "with_table t i f fl m"
  note tab = with_table_at [OF assms]
  have q: "user_path q" "i < 512" using qi(1) by (auto simp: user_slot_def)
  have tT: "t \<in> T" "frame_addr_ok t" using tables_okD(1,2) [OF ok q(1) at] by auto
  show "\<forall>t \<in> insert f T. frame_addr_ok t" using ok f by (simp add: tables_ok_def)
  have old: "p = q @ [i] \<and> u = f \<or> table_at m root p = Some u \<and> u \<in> T" if "user_path p" "table_at ?m root p = Some u" for p u
    using that tab [OF that(1)] tables_okD(1) [OF ok that(1)] by (auto split: if_splits)
  then show "u \<in> insert f T" if "user_path p" "table_at ?m root p = Some u" for p u using that by blast
  show "p = p'" if "user_path p" "user_path p'" "table_at ?m root p = Some u" "table_at ?m root p' = Some u" for p p' u
    using old [OF that(1,3)] old [OF that(2,4)] f(1) tables_okD(3) [OF ok that(1)] that(2) by metis
  show "\<not> pf_contains (pte_flags (?m (slot u j))) PF_HUGE"
    if pj: "user_slot p j" "length p < 3" "table_at ?m root p = Some u" "?m (slot u j) \<noteq> 0" for p j u
  proof -
    have p: "user_path p" "j < 512" using pj(1) by (auto simp: user_slot_def)
    consider "p = q @ [i]" "u = f" | "table_at m root p = Some u" "u \<in> T" using old [OF p(1) pj(3)] by blast
    then show ?thesis
    proof cases
      case 1
      have "?m (slot f j) = 0"
        using zero_page_same [OF p(2), of f m] slot_inj [of f t j i] p(2) q(2) tT f by (auto simp: with_table_def frame_addr_ok_def)
      then show ?thesis using pj(4) 1 by simp
    next
      case 2
      show ?thesis
      proof (cases "slot u j = slot t i")
        case True
        then show ?thesis using pte_flags_make [OF f(2) fl(1)] fl(2) by (simp add: with_table_def pf_contains_bit)
      next
        case False
        have "zero_page f m (slot u j) = m (slot u j)"
          using zero_page_other [of u f j m] 2(2) p(2) f ok by (auto simp: tables_ok_def frame_addr_ok_def)
        then have "?m (slot u j) = m (slot u j)" using False by (simp add: with_table_def)
        then show ?thesis using tables_okD(4) [OF ok p(1) 2(1) pj(2,1)] pj(4) by simp
      qed
    qed
  qed
qed

section \<open>The view of an address space\<close>

definition user_page :: "usize \<Rightarrow> bool" where
  "user_page v \<longleftrightarrow> v < USER_SPACE_END \<and> v mod PAGE_SIZE = 0"

definition page_path :: "usize \<Rightarrow> nat list" where
  "page_path v = [p4_index v, p3_index v, p2_index v]"

definition leaf :: "phys_mem \<Rightarrow> usize \<Rightarrow> usize \<Rightarrow> (usize \<times> u64) option" where
  "leaf m root v =
     (case table_at m root (page_path v) of
        None \<Rightarrow> None
      | Some t \<Rightarrow> let e = m (slot t (p1_index v)) in if e = 0 then None else Some (pte_addr e, pte_flags e))"

lemma page_path_user: "user_page v \<Longrightarrow> user_slot (page_path v) (p1_index v) \<and> length (page_path v) = 3"
  by (auto simp: user_page_def USER_SPACE_END_def user_slot_def user_path_def page_path_def p4_index_def p3_index_def
      p2_index_def p1_index_def)

lemma digits_sum:
  "512 * a + w = n \<Longrightarrow> 512 * b + y = a \<Longrightarrow> 512 * c + z = b \<Longrightarrow> v = 4096 * n \<Longrightarrow>
     v = c * 2 ^ 39 + z * 2 ^ 30 + y * 2 ^ 21 + w * 2 ^ 12" for v :: nat
  by simp

lemma page_digits:
  assumes "v < 2 ^ 48" "v mod 4096 = (0 :: nat)"
  shows "v = p4_index v * 2 ^ 39 + p3_index v * 2 ^ 30 + p2_index v * 2 ^ 21 + p1_index v * 2 ^ 12"
proof -
  define n a b c where "n = v div 4096" and "a = n div 512" and "b = a div 512" and "c = b div 512"
  have vn: "v = 4096 * n" unfolding n_def using assms(2) by (metis add.right_neutral mult_div_mod_eq)
  have d: "v div 2 ^ 39 = c" "v div 2 ^ 30 = b" "v div 2 ^ 21 = a" "v div 2 ^ 12 = n"
    unfolding c_def b_def a_def n_def by (simp_all add: div_mult2_eq [symmetric])
  have "c < 512" using assms(1) unfolding c_def b_def a_def n_def by (simp add: less_mult_imp_div_less)
  then have c: "c mod 512 = c" by simp
  have "512 * a + n mod 512 = n" "512 * b + a mod 512 = a" "512 * c + b mod 512 = b"
    unfolding a_def b_def c_def by (simp_all only: mult_div_mod_eq)
  from digits_sum [OF this vn] show ?thesis
    unfolding p4_index_def p3_index_def p2_index_def p1_index_def d c .
qed

lemma page_path_inj:
  assumes "user_page v" "user_page w" "page_path v = page_path w" "p1_index v = p1_index w"
  shows "v = w"
  using page_digits [of v] page_digits [of w] assms by (simp add: user_page_def USER_SPACE_END_def PAGE_SIZE_def page_path_def)

lemma next_table_ok:
  assumes "tables_ok m root T" "user_slot p i" "length p < 3" "table_at m root p = Some t"
  shows "next_table m t i = (if m (slot t i) = 0 then None else Some (pte_addr (m (slot t i))))"
    and "m (slot t i) \<noteq> 0 \<Longrightarrow> \<not> pf_contains (pte_flags (m (slot t i))) PF_HUGE"
  using tables_okD(4) [OF assms(1) _ assms(4,3,2)] assms(2) by (auto simp: next_table_def user_slot_def)

lemma walk_leaf:
  assumes "tables_ok m root T" "user_page v"
  shows "user_page_mapping_from_root root v m = Inr (leaf m root v)"
    and "table_at m root (page_path v) = Some t \<Longrightarrow> leaf_slot root v m = slot t (p1_index v)"
proof -
  have u: "user_slot [] (p4_index v)" "user_slot [p4_index v] (p3_index v)" "user_slot [p4_index v, p3_index v] (p2_index v)"
    using page_path_user [OF assms(2)] by (auto simp: user_slot_def user_path_def page_path_def p3_index_def p2_index_def)
  have v: "\<not> USER_SPACE_END \<le> v" "page_offset v = 0" using assms(2) by (auto simp: user_page_def page_offset_def PAGE_SIZE_def)
  define e4 where "e4 = m (slot root (p4_index v))"
  define e3 where "e3 = m (slot (pte_addr e4) (p3_index v))"
  define e2 where "e2 = m (slot (pte_addr e3) (p2_index v))"
  note defs = e4_def [symmetric] e3_def [symmetric] e2_def [symmetric]
  have walk: "user_page_mapping_from_root root v m = Inr (leaf m root v) \<and>
      (table_at m root (page_path v) = Some t \<longrightarrow> leaf_slot root v m = slot t (p1_index v))"
  proof (cases "e4 = 0")
    case True
    then have "table_at m root (page_path v) = None" using next_table_ok(1) [OF assms(1) u(1)] by (simp add: page_path_def defs)
    then show ?thesis using True v by (simp add: user_page_mapping_from_root_def leaf_def defs)
  next
    case e4: False
    have at4: "table_at m root [p4_index v] = Some (pte_addr e4)" and h4: "\<not> pf_contains (pte_flags e4) PF_HUGE"
      using next_table_ok [OF assms(1) u(1)] e4 by (simp_all add: defs)
    show ?thesis
    proof (cases "e3 = 0")
      case True
      then have "table_at m root (page_path v) = None"
        using next_table_ok(1) [OF assms(1) u(2) _ at4] at4 by (simp add: page_path_def defs bind_eq_None_conv)
      then show ?thesis using True e4 h4 v by (simp add: user_page_mapping_from_root_def leaf_def defs)
    next
      case e3: False
      have n3: "next_table m (pte_addr e4) (p3_index v) = Some (pte_addr e3)" and h3: "\<not> pf_contains (pte_flags e3) PF_HUGE"
        using next_table_ok [OF assms(1) u(2) _ at4] e3 by (simp_all add: defs)
      have at3: "table_at m root [p4_index v, p3_index v] = Some (pte_addr e3)"
        using table_at_snoc [of m root "[p4_index v]" "p3_index v"] at4 n3 by simp
      note n2 = next_table_ok [OF assms(1) u(3) _ at3, unfolded defs, simplified]
      have "page_path v = [p4_index v, p3_index v] @ [p2_index v]" by (simp add: page_path_def)
      then have "table_at m root (page_path v) = next_table m (pte_addr e3) (p2_index v)"
        by (simp only: table_at_snoc at3 bind.simps)
      then show ?thesis using n2 e4 h4 e3 h3 v
        by (auto simp: user_page_mapping_from_root_def leaf_def leaf_slot_def defs Let_def)
    qed
  qed
  then show "user_page_mapping_from_root root v m = Inr (leaf m root v)"
    "table_at m root (page_path v) = Some t \<Longrightarrow> leaf_slot root v m = slot t (p1_index v)" by simp_all
qed

text \<open>What each kind of write does to the view.\<close>

lemma leaf_cong:
  assumes "tables_ok m root T" "user_page w"
    and "table_at m' root (page_path w) = table_at m root (page_path w)"
    and "\<And>t. table_at m root (page_path w) = Some t \<Longrightarrow> m' (slot t (p1_index w)) = m (slot t (p1_index w))"
  shows "leaf m' root w = leaf m root w"
  using assms(3,4) by (cases "table_at m root (page_path w)") (simp_all add: leaf_def)

lemma leaf_write:
  assumes "tables_ok m root T" "user_page v" "user_page w" "table_at m root (page_path v) = Some t"
  shows "leaf (m(slot t (p1_index v) := e)) root w =
    (if w = v then if e = 0 then None else Some (pte_addr e, pte_flags e) else leaf m root w)"
proof -
  let ?m = "m(slot t (p1_index v) := e)"
  have v: "user_slot (page_path v) (p1_index v)" "length (page_path v) = 3" using page_path_user [OF assms(2)] by auto
  have w: "user_slot (page_path w) (p1_index w)" "user_path (page_path w)" using page_path_user [OF assms(3)] by (auto simp: user_slot_def)
  note tab = leaf_write_tables(2) [OF assms(1) v assms(4) w(2), of e]
  show ?thesis
  proof (cases "w = v")
    case True
    then show ?thesis using tab assms(4) by (simp add: leaf_def)
  next
    case False
    have "?m (slot u (p1_index w)) = m (slot u (p1_index w))" if "table_at m root (page_path w) = Some u" for u
      using tables_ok_slot [OF assms(1) w(1) that v(1) assms(4)] page_path_inj [OF assms(3,2)] False by auto
    then show ?thesis using leaf_cong [OF assms(1,3) tab] False by simp
  qed
qed

lemma leaf_link_write:
  assumes "tables_ok m root T" "user_slot q i" "length q < 3" "table_at m root q = Some t" "m (slot t i) \<noteq> 0"
    and "e = m (slot t i) \<or> e = m (slot t i) OR PF_USER" "user_page w"
  shows "leaf (m(slot t i := e)) root w = leaf m root w"
proof (rule leaf_cong [OF assms(1,7) link_write_tables(2) [OF assms(1,5,6)]])
  have w: "user_slot (page_path w) (p1_index w)" "length (page_path w) = 3" using page_path_user [OF assms(7)] by auto
  show "(m(slot t i := e)) (slot u (p1_index w)) = m (slot u (p1_index w))" if "table_at m root (page_path w) = Some u" for u
    using tables_ok_slot [OF assms(1) w(1) that assms(2,4)] w(2) assms(3) by auto
qed

lemma leaf_zero_page:
  assumes "tables_ok m root T" "f \<notin> T" "frame_addr_ok f" "user_page w"
  shows "leaf (zero_page f m) root w = leaf m root w" and "tables_ok (zero_page f m) root T"
    and "user_path p \<Longrightarrow> table_at (zero_page f m) root p = table_at m root p"
proof -
  have z: "zero_page f m (slot u j) = m (slot u j)" if "u \<in> T" "j < 512" for u j
    using zero_page_other [of u f j m] that assms(1-3) by (auto simp: tables_ok_def frame_addr_ok_def)
  show "tables_ok (zero_page f m) root T" by (rule tables_ok_cong [OF assms(1)]) (rule z)
  show at: "user_path p \<Longrightarrow> table_at (zero_page f m) root p = table_at m root p" for p
    by (rule table_at_cong [OF assms(1)]) (rule z)
  have w: "user_path (page_path w)" "p1_index w < 512" using page_path_user [OF assms(4)] by (auto simp: user_slot_def)
  show "leaf (zero_page f m) root w = leaf m root w"
    by (rule leaf_cong [OF assms(1,4) at [OF w(1)]]) (use z w tables_okD(1) [OF assms(1) w(1)] in blast)
qed

lemma leaf_with_table:
  assumes "tables_ok m root T" "user_slot q i" "length q < 3" "table_at m root q = Some t" "m (slot t i) = 0"
    and f: "f \<notin> T" "frame_addr_ok f" and fl: "flags_ok fl" "\<not> bit fl 7" "fl \<noteq> 0" and w: "user_page w"
  shows "leaf (with_table t i f fl m) root w = leaf m root w"
proof -
  have pw: "user_path (page_path w)" "length (page_path w) = 3" "user_slot (page_path w) (p1_index w)" "p1_index w < 512"
    using page_path_user [OF w] by (auto simp: user_slot_def)
  note tab = with_table_at [OF assms(1-4) f fl pw(1)]
  have q: "user_path q" "i < 512" using assms(2) by (auto simp: user_slot_def)
  show ?thesis
  proof (cases "prefix (q @ [i]) (page_path w)")
    case True
    then obtain r where r: "page_path w = (q @ [i]) @ r" by (auto simp: prefix_def)
    have "table_at m root (page_path w) = None"
      unfolding r table_at_append [of _ _ "q @ [i]"] table_at_snoc using assms(4,5) by (simp add: next_table_def)
    moreover have "with_table t i f fl m (slot f (p1_index w)) = 0"
      using zero_page_same [OF pw(4), of f m] slot_inj [of f t "p1_index w" i] pw(4) q(2) f
        tables_okD(1,2) [OF assms(1) q(1) assms(4)] by (auto simp: with_table_def frame_addr_ok_def)
    ultimately show ?thesis
      using tab True by (cases "page_path w = q @ [i]") (simp_all add: leaf_def)
  next
    case False
    have "with_table t i f fl m (slot u (p1_index w)) = m (slot u (p1_index w))" if u: "table_at m root (page_path w) = Some u" for u
    proof -
      have "u \<in> T" "frame_addr_ok u" using tables_okD(1,2) [OF assms(1) pw(1) u] by auto
      then have "zero_page f m (slot u (p1_index w)) = m (slot u (p1_index w))"
        using zero_page_other [of u f "p1_index w" m] pw(4) f by (auto simp: frame_addr_ok_def)
      moreover have "slot u (p1_index w) \<noteq> slot t i"
        using tables_ok_slot [OF assms(1) pw(3) u assms(2,4)] assms(3) pw(2) by auto
      ultimately show ?thesis by (simp add: with_table_def)
    qed
    moreover have "table_at (with_table t i f fl m) root (page_path w) = table_at m root (page_path w)"
      using tab False by (cases "page_path w = q @ [i]") simp_all
    ultimately show ?thesis by (intro leaf_cong [OF assms(1) w])
  qed
qed

section \<open>Operations on the tables\<close>

definition free_set :: "machine \<Rightarrow> usize set" where
  "free_set st = (case m_pmm st of None \<Rightarrow> {} | Some pm \<Rightarrow> free_addrs pm)"

definition pool_set :: "machine \<Rightarrow> usize set" where
  "pool_set st = (case m_pmm st of None \<Rightarrow> {} | Some pm \<Rightarrow> pool_addrs pm)"

text \<open>The allocator is sound and its frames can be held by an entry.\<close>

definition frames_ok :: "machine \<Rightarrow> bool" where
  "frames_ok st \<longleftrightarrow> (\<exists>pm. m_pmm st = Some pm \<and> pmm_ok pm) \<and> (\<forall>a \<in> pool_set st. a < 2 ^ 52)"

definition tab_ok :: "address_space \<Rightarrow> machine \<Rightarrow> bool" where
  "tab_ok sp st \<longleftrightarrow> frames_ok st \<and> tables_ok (mem st) (root_frame sp) (set (page_table_frames sp)) \<and>
     set (page_table_frames sp) \<subseteq> pool_set st - free_set st"

lemma pool_frame_ok: "frames_ok st \<Longrightarrow> a \<in> pool_set st \<Longrightarrow> frame_addr_ok a"
  by (auto simp: frames_ok_def frame_addr_ok_def pool_set_def pool_addrs_def frame_of_dvd)

lemma free_in_pool: "frames_ok st \<Longrightarrow> free_set st \<subseteq> pool_set st"
  by (auto simp: frames_ok_def free_set_def pool_set_def intro: subsetD [OF frames.avail_pool])

lemma alloc_machine:
  assumes "frames_ok st" "m_pmm st = Some pm" "alloc_frame pm = (pm', r)"
  shows "frames_ok (st\<lparr>m_pmm := Some pm', mem := m\<rparr>) \<and> pool_set (st\<lparr>m_pmm := Some pm', mem := m\<rparr>) = pool_set st \<and>
    (case r of None \<Rightarrow> free_set (st\<lparr>m_pmm := Some pm', mem := m\<rparr>) = free_set st
     | Some f \<Rightarrow> f \<in> free_set st \<and> frame_addr_ok f \<and> free_set (st\<lparr>m_pmm := Some pm', mem := m\<rparr>) = free_set st - {f})"
proof -
  have ok: "pmm_ok pm" using assms(1,2) by (auto simp: frames_ok_def)
  show ?thesis
  proof (cases r)
    case None
    then show ?thesis using frames.alloc_None [OF ok] assms by (auto simp: frames_ok_def pool_set_def free_set_def)
  next
    case (Some f)
    have s: "pmm_ok pm' \<and> pool_addrs pm' = pool_addrs pm \<and> f \<in> free_addrs pm \<and> free_addrs pm' = free_addrs pm - {f}"
      using frames.alloc_Some [OF ok] assms(3) Some by simp
    have "f \<in> pool_set st" using s frames.avail_pool [OF ok] assms(2) by (auto simp: pool_set_def)
    then show ?thesis using s Some assms pool_frame_ok [OF assms(1)] by (auto simp: frames_ok_def pool_set_def free_set_def)
  qed
qed

lemma machine_mem_simps [simp]:
  "free_set (st\<lparr>mem := m\<rparr>) = free_set st" "pool_set (st\<lparr>mem := m\<rparr>) = pool_set st" "frames_ok (st\<lparr>mem := m\<rparr>) = frames_ok st"
  by (simp_all add: free_set_def pool_set_def frames_ok_def)

text \<open>
  Growing the tables: new table frames come from the free pool, the view stays, and memory outside
  the tables is untouched.
\<close>

definition grown :: "address_space \<Rightarrow> machine \<Rightarrow> address_space \<Rightarrow> machine \<Rightarrow> bool" where
  "grown sp st sp' st' \<longleftrightarrow> tab_ok sp' st' \<and> root_frame sp' = root_frame sp \<and> user_frames sp' = user_frames sp \<and>
     pool_set st' = pool_set st \<and> kernel_root st' = kernel_root st \<and> cr3 st' = cr3 st \<and>
     (\<exists>new. page_table_frames sp' = page_table_frames sp @ new \<and> distinct new \<and> set new \<subseteq> free_set st \<and>
        free_set st' = free_set st - set new) \<and>
     (\<forall>w. user_page w \<longrightarrow> leaf (mem st') (root_frame sp) w = leaf (mem st) (root_frame sp) w) \<and>
     (\<forall>f i. frame_addr_ok f \<longrightarrow> f \<notin> set (page_table_frames sp') \<longrightarrow> i < 512 \<longrightarrow> mem st' (slot f i) = mem st (slot f i))"

lemma grown_refl: "tab_ok sp st \<Longrightarrow> grown sp st sp st"
  by (auto simp: grown_def)

lemma grown_trans:
  assumes "grown sp st sp1 st1" "grown sp1 st1 sp2 st2"
  shows "grown sp st sp2 st2"
proof -
  obtain new where n: "page_table_frames sp1 = page_table_frames sp @ new" "distinct new" "set new \<subseteq> free_set st"
    "free_set st1 = free_set st - set new" using assms(1) by (auto simp: grown_def)
  obtain new' where n': "page_table_frames sp2 = page_table_frames sp1 @ new'" "distinct new'" "set new' \<subseteq> free_set st1"
    "free_set st2 = free_set st1 - set new'" using assms(2) by (auto simp: grown_def)
  have "page_table_frames sp2 = page_table_frames sp @ (new @ new')" "distinct (new @ new')" "set (new @ new') \<subseteq> free_set st"
    "free_set st2 = free_set st - set (new @ new')" using n n' by auto
  then have "\<exists>new. page_table_frames sp2 = page_table_frames sp @ new \<and> distinct new \<and> set new \<subseteq> free_set st \<and>
    free_set st2 = free_set st - set new" by blast
  moreover have "set (page_table_frames sp1) \<subseteq> set (page_table_frames sp2)" using n'(1) by simp
  then have "f \<notin> set (page_table_frames sp1)" if "f \<notin> set (page_table_frames sp2)" for f using that by blast
  ultimately show ?thesis using assms unfolding grown_def by simp
qed

lemma pf_table_flags:
  "flags_ok (PF_PRESENT OR PF_WRITABLE OR PF_USER)" "\<not> bit (PF_PRESENT OR PF_WRITABLE OR PF_USER) 7"
  "PF_PRESENT OR PF_WRITABLE OR PF_USER \<noteq> 0"
  by (simp_all add: flags_ok_def PF_ALL_def PF_PRESENT_def PF_WRITABLE_def PF_USER_def)

lemma ensure_next_table_spec:
  assumes ok: "tab_ok sp st" and q: "user_slot q i" "length q < 3" "table_at (mem st) (root_frame sp) q = Some t"
    and run: "ensure_next_table (slot t i) sp st = (sp', st', r)"
  shows "grown sp st sp' st' \<and> (\<forall>t'. r = Inr t' \<longrightarrow> table_at (mem st') (root_frame sp') (q @ [i]) = Some t')"
proof -
  let ?m = "mem st" and ?root = "root_frame sp" and ?T = "set (page_table_frames sp)"
  have t: "tables_ok ?m ?root ?T" "frames_ok st" using ok by (auto simp: tab_ok_def)
  have "t \<in> ?T" "frame_addr_ok t" "i < 512" using tables_okD(1,2) [OF t(1) _ q(3)] q(1) by (auto simp: user_slot_def)
  then have other: "slot f j \<noteq> slot t i" if "frame_addr_ok f" "f \<notin> ?T" "j < 512" for f j
    using slot_inj [of f t j i] that by (auto simp: frame_addr_ok_def)
  show ?thesis
  proof (cases "?m (slot t i) = 0")
    case False
    define e where "e = (if pf_contains (pte_flags (?m (slot t i))) PF_USER then ?m (slot t i) else ?m (slot t i) OR PF_USER)"
    have e: "e = ?m (slot t i) \<or> e = ?m (slot t i) OR PF_USER" by (simp add: e_def)
    note n = next_table_ok [OF t(1) q]
    have r: "sp' = sp" "st' = st\<lparr>mem := ?m(slot t i := e)\<rparr>" "r = Inr (pte_addr e)"
      using run False n(2) by (auto simp: ensure_next_table_def e_def Let_def)
    have "tab_ok sp' st'" using ok link_write_tables(1) [OF t(1) False e] unfolding r by (simp add: tab_ok_def)
    moreover have "pte_addr e = pte_addr (?m (slot t i))" using e by (auto simp: pte_or_user)
    moreover have "table_at ?m ?root (q @ [i]) = Some (pte_addr (?m (slot t i)))"
      using n(1) False q(3) by (simp add: table_at_snoc)
    ultimately show ?thesis
      using leaf_link_write [OF t(1) q False e] other
      unfolding r grown_def by (simp add: link_write_tables(2) [OF t(1) False e])
  next
    case zero: True
    obtain pm where pm: "m_pmm st = Some pm" using t(2) by (auto simp: frames_ok_def)
    obtain pm' a where al: "alloc_frame pm = (pm', a)" by fastforce
    show ?thesis
    proof (cases a)
      case None
      have "sp' = sp" "st' = st\<lparr>m_pmm := Some pm'\<rparr>" "r = Inl SpaceOutOfMemory"
        using run zero pm al None by (auto simp: ensure_next_table_def)
      moreover have "st\<lparr>m_pmm := Some pm'\<rparr> = st\<lparr>m_pmm := Some pm', mem := ?m\<rparr>" by simp
      ultimately show ?thesis using alloc_machine [OF t(2) pm al, of ?m] None ok
        by (simp add: grown_def tab_ok_def)
    next
      case (Some f)
      let ?fl = "PF_PRESENT OR PF_WRITABLE OR PF_USER"
      have r: "sp' = sp\<lparr>page_table_frames := page_table_frames sp @ [f]\<rparr>"
        "st' = st\<lparr>m_pmm := Some pm', mem := with_table t i f ?fl ?m\<rparr>" "r = Inr f"
        using run zero pm al Some by (auto simp: ensure_next_table_def with_table_def)
      note am = alloc_machine [OF t(2) pm al, of "with_table t i f ?fl ?m"]
      have f: "f \<notin> ?T" "frame_addr_ok f" using am Some ok by (auto simp: tab_ok_def)
      have "tab_ok sp' st'"
        using with_table_ok [OF t(1) q f pf_table_flags] am Some ok free_in_pool [OF t(2)] unfolding r
        by (auto simp: tab_ok_def)
      moreover have "table_at (with_table t i f ?fl ?m) ?root (q @ [i]) = Some f"
        using with_table_at [OF t(1) q f pf_table_flags, of "q @ [i]"] q(1,2) by (simp add: user_path_snoc)
      moreover have "with_table t i f ?fl ?m (slot g j) = ?m (slot g j)"
        if "frame_addr_ok g" "g \<notin> set (page_table_frames sp @ [f])" "j < 512" for g j
        using other [of g j] zero_page_other [of g f j ?m] that f by (auto simp: with_table_def frame_addr_ok_def)
      ultimately show ?thesis
        using leaf_with_table [OF t(1) q zero f pf_table_flags] am Some unfolding r by (simp add: grown_def)
    qed
  qed
qed

text \<open>Mapping a frame: the walk to the leaf table, then the leaf.\<close>

lemma user_page_not_bad: "\<not> bad_user_page v \<longleftrightarrow> user_page v \<and> v \<noteq> 0"
  by (auto simp: bad_user_page_def user_page_def)

lemma walk_tables:
  assumes "tab_ok sp st" "user_page v"
    and "ensure_next_table (slot (root_frame sp) (p4_index v)) sp st = (sp1, st1, Inr p3)"
    and "ensure_next_table (slot p3 (p3_index v)) sp1 st1 = (sp2, st2, Inr p2)"
    and "ensure_next_table (slot p2 (p2_index v)) sp2 st2 = (sp3, st3, r)"
  shows "grown sp st sp3 st3 \<and> (\<forall>p1. r = Inr p1 \<longrightarrow> table_at (mem st3) (root_frame sp) (page_path v) = Some p1)"
proof -
  have u: "user_slot [] (p4_index v)" "user_slot [p4_index v] (p3_index v)" "user_slot [p4_index v, p3_index v] (p2_index v)"
    using page_path_user [OF assms(2)] by (auto simp: user_slot_def user_path_def page_path_def p3_index_def p2_index_def)
  have g1: "grown sp st sp1 st1" "table_at (mem st1) (root_frame sp1) [p4_index v] = Some p3"
    using ensure_next_table_spec [OF assms(1) u(1) _ _ assms(3)] by simp_all
  then have ok1: "tab_ok sp1 st1" by (simp add: grown_def)
  have g2: "grown sp1 st1 sp2 st2" "table_at (mem st2) (root_frame sp2) [p4_index v, p3_index v] = Some p2"
    using ensure_next_table_spec [OF ok1 u(2) _ g1(2) assms(4)] by simp_all
  then have ok2: "tab_ok sp2 st2" by (simp add: grown_def)
  have g3: "grown sp2 st2 sp3 st3" "\<forall>p1. r = Inr p1 \<longrightarrow> table_at (mem st3) (root_frame sp3) (page_path v) = Some p1"
    using ensure_next_table_spec [OF ok2 u(3) _ g2(2) assms(5)] by (simp_all add: page_path_def)
  have g: "grown sp st sp3 st3" by (rule grown_trans [OF grown_trans [OF g1(1) g2(1)] g3(1)])
  moreover have "root_frame sp3 = root_frame sp" using g by (simp add: grown_def)
  ultimately show ?thesis using g3(2) by simp
qed

lemma map_user_frame_spec:
  assumes ok: "tab_ok sp st" and fl: "flags_ok fl" and ph: "frame_addr_ok ph"
    and run: "map_user_frame v ph fl sp st = (sp', st', r)"
  shows "case r of
      Inl e \<Rightarrow> grown sp st sp' st'
    | Inr _ \<Rightarrow> user_page v \<and> v \<noteq> 0 \<and> leaf (mem st) (root_frame sp) v = None \<and>
        (\<exists>st1 p1. grown sp st sp' st1 \<and> table_at (mem st1) (root_frame sp) (page_path v) = Some p1 \<and>
           st' = st1\<lparr>mem := (mem st1)(slot p1 (p1_index v) := pte_make ph (fl OR PF_PRESENT OR PF_USER))\<rparr>)"
proof (cases "bad_user_page v \<or> ph mod PAGE_SIZE \<noteq> 0")
  case True
  then show ?thesis using run grown_refl [OF ok] by (auto simp: map_user_frame_def)
next
  case False
  then have v: "user_page v" "v \<noteq> 0" by (simp_all add: user_page_not_bad)
  have u: "user_slot [] (p4_index v)" using page_path_user [OF v(1)] by (auto simp: user_slot_def user_path_def page_path_def)
  obtain sp1 st1 r1 where e1: "ensure_next_table (slot (root_frame sp) (p4_index v)) sp st = (sp1, st1, r1)" by (metis prod_cases3)
  note g1 = ensure_next_table_spec [OF ok u _ _ e1, simplified]
  show ?thesis
  proof (cases r1)
    case (Inl e)
    then show ?thesis using run False e1 g1 by (auto simp: map_user_frame_def)
  next
    case p3: (Inr p3)
    have u2: "user_slot [p4_index v] (p3_index v)"
      using page_path_user [OF v(1)] by (auto simp: user_slot_def user_path_def page_path_def p3_index_def)
    obtain sp2 st2 r2 where e2: "ensure_next_table (slot p3 (p3_index v)) sp1 st1 = (sp2, st2, r2)" by (metis prod_cases3)
    have ok1: "tab_ok sp1 st1" using g1 by (simp add: grown_def)
    note g2 = ensure_next_table_spec [OF ok1 u2 _ _ e2, simplified]
    show ?thesis
    proof (cases r2)
      case (Inl e)
      have "grown sp st sp2 st2" using grown_trans g1 g2 p3 by blast
      then show ?thesis using run False e1 e2 p3 Inl by (auto simp: map_user_frame_def)
    next
      case p2: (Inr p2)
      obtain sp3 st3 r3 where e3: "ensure_next_table (slot p2 (p2_index v)) sp2 st2 = (sp3, st3, r3)" by (metis prod_cases3)
      note w = walk_tables [OF ok v(1) e1 [unfolded p3] e2 [unfolded p2] e3]
      show ?thesis
      proof (cases r3)
        case (Inl e)
        then show ?thesis using run False e1 e2 e3 p3 p2 w by (auto simp: map_user_frame_def)
      next
        case (Inr p1)
        have at: "table_at (mem st3) (root_frame sp) (page_path v) = Some p1" using w Inr by simp
        have "leaf (mem st) (root_frame sp) v = leaf (mem st3) (root_frame sp) v" using w v(1) by (simp add: grown_def)
        also have "\<dots> = None \<longleftrightarrow> mem st3 (slot p1 (p1_index v)) = 0" using at by (simp add: leaf_def Let_def)
        finally have "mem st3 (slot p1 (p1_index v)) = 0 \<longleftrightarrow> leaf (mem st) (root_frame sp) v = None" by simp
        note zero = this
        show ?thesis
        proof (cases "mem st3 (slot p1 (p1_index v)) = 0")
          case True
          have "sp' = sp3" "r = Inr ()"
            "st' = st3\<lparr>mem := (mem st3)(slot p1 (p1_index v) := pte_make ph (fl OR PF_PRESENT OR PF_USER))\<rparr>"
            using run False e1 e2 e3 p3 p2 Inr True by (auto simp: map_user_frame_def Let_def)
          moreover have "grown sp st sp3 st3" using w by simp
          ultimately show ?thesis using v at zero True by auto
        next
          case nz: False
          then show ?thesis using run False e1 e2 e3 p3 p2 Inr w by (auto simp: map_user_frame_def Let_def)
        qed
      qed
    qed
  qed
qed

section \<open>Address spaces\<close>

definition space_view :: "address_space \<Rightarrow> machine \<Rightarrow> usize \<Rightarrow> (usize \<times> u64) option" where
  "space_view sp st v = (if user_page v then leaf (mem st) (root_frame sp) v else None)"

text \<open>
  The invariant of an address space, relative to the frames \<open>F\<close> that are mapped into it but owned by
  others: its own frames are distinct, allocated and apart from \<open>F\<close>; a mapped page lies in an owned
  or foreign frame, never in a page table; an owned frame is mapped at one page only.
\<close>

definition space_ok :: "usize set \<Rightarrow> address_space \<Rightarrow> machine \<Rightarrow> bool" where
  "space_ok F sp st \<longleftrightarrow> tab_ok sp st \<and> distinct (page_table_frames sp @ user_frames sp) \<and>
     set (user_frames sp) \<subseteq> pool_set st - free_set st \<and>
     F \<inter> (set (page_table_frames sp) \<union> set (user_frames sp) \<union> free_set st) = {} \<and> (\<forall>a \<in> F. frame_addr_ok a) \<and>
     (\<forall>v f fl. space_view sp st v = Some (f, fl) \<longrightarrow> flags_ok fl \<and> f \<in> set (user_frames sp) \<union> F) \<and>
     (\<forall>v w f fl fl'. space_view sp st v = Some (f, fl) \<longrightarrow> space_view sp st w = Some (f, fl') \<longrightarrow>
        f \<in> set (user_frames sp) \<longrightarrow> v = w)"

lemma space_okD:
  assumes "space_ok F sp st"
  shows "tab_ok sp st" "tables_ok (mem st) (root_frame sp) (set (page_table_frames sp))" "frames_ok st"
  using assms by (auto simp: space_ok_def tab_ok_def)

lemma space_ok_view: "space_ok F sp st \<Longrightarrow> space_view sp st v = Some (f, fl) \<Longrightarrow> flags_ok fl \<and> f \<in> set (user_frames sp) \<union> F"
  unfolding space_ok_def by blast

lemma space_ok_inj:
  "space_ok F sp st \<Longrightarrow> space_view sp st v = Some (f, fl) \<Longrightarrow> space_view sp st w = Some (f, fl') \<Longrightarrow>
     f \<in> set (user_frames sp) \<Longrightarrow> v = w"
  unfolding space_ok_def by blast

lemma space_view_mapping:
  "space_ok F sp st \<Longrightarrow> user_page v \<Longrightarrow> user_page_mapping sp v st = Inr (space_view sp st v)"
  using walk_leaf(1) [OF space_okD(2)] by (simp add: user_page_mapping_def space_view_def)

text \<open>Growing the tables keeps the invariant and the view.\<close>

lemma grown_view: "grown sp st sp' st' \<Longrightarrow> space_view sp' st' = space_view sp st"
  by (auto simp: grown_def space_view_def)

lemma grown_ok:
  assumes ok: "space_ok F sp st" and g: "grown sp st sp' st'"
  shows "space_ok F sp' st'"
proof -
  obtain new where n: "page_table_frames sp' = page_table_frames sp @ new" "distinct new" "set new \<subseteq> free_set st"
    "free_set st' = free_set st - set new" using g by (auto simp: grown_def)
  have o: "distinct (page_table_frames sp @ user_frames sp)" "set (user_frames sp) \<subseteq> pool_set st - free_set st"
    "F \<inter> (set (page_table_frames sp) \<union> set (user_frames sp) \<union> free_set st) = {}"
    "set (page_table_frames sp) \<subseteq> pool_set st - free_set st" using ok by (auto simp: space_ok_def tab_ok_def)
  have "distinct (page_table_frames sp' @ user_frames sp')" using o n g by (auto simp: grown_def)
  moreover have "set (user_frames sp') \<subseteq> pool_set st' - free_set st'" using o n g by (auto simp: grown_def)
  moreover have "F \<inter> (set (page_table_frames sp') \<union> set (user_frames sp') \<union> free_set st') = {}" using o n g by (auto simp: grown_def)
  ultimately show ?thesis using ok g unfolding space_ok_def grown_view [OF g] by (simp add: grown_def)
qed

text \<open>Writing the leaf of a page.\<close>

lemma leaf_update_ok:
  assumes t: "tab_ok sp st" and v: "user_page v" "table_at (mem st) (root_frame sp) (page_path v) = Some p1"
  shows "tab_ok sp (st\<lparr>mem := (mem st)(slot p1 (p1_index v) := e)\<rparr>) \<and>
    space_view sp (st\<lparr>mem := (mem st)(slot p1 (p1_index v) := e)\<rparr>) =
      (space_view sp st)(v := if e = 0 then None else Some (pte_addr e, pte_flags e))"
proof -
  have tt: "tables_ok (mem st) (root_frame sp) (set (page_table_frames sp))" using t by (simp add: tab_ok_def)
  have u: "user_slot (page_path v) (p1_index v)" "length (page_path v) = 3" using page_path_user [OF v(1)] by auto
  show ?thesis
    using t leaf_write_tables(1) [OF tt u v(2)] leaf_write [OF tt v(1) _ v(2)] v(1)
    by (auto simp: tab_ok_def space_view_def fun_eq_iff)
qed

lemma or_flags_nonzero: "fl OR PF_PRESENT OR PF_USER \<noteq> 0"
  using pte_or_user(3) [of "fl OR PF_PRESENT"] by (simp add: or.assoc)

lemma map_frame_view:
  assumes ok: "tab_ok sp st" and fl: "flags_ok fl" and ph: "frame_addr_ok ph"
    and run: "map_user_frame v ph fl sp st = (sp', st', Inr u)"
  shows "\<exists>st1. grown sp st sp' st1 \<and> tab_ok sp' st' \<and> free_set st' = free_set st1 \<and> pool_set st' = pool_set st1 \<and>
    m_pmm st' = m_pmm st1 \<and> user_page v \<and> v \<noteq> 0 \<and> space_view sp st v = None \<and>
    space_view sp' st' = (space_view sp st)(v \<mapsto> (ph, fl OR PF_PRESENT OR PF_USER)) \<and>
    (\<forall>g i. frame_addr_ok g \<longrightarrow> g \<notin> set (page_table_frames sp') \<longrightarrow> i < 512 \<longrightarrow> mem st' (slot g i) = mem st (slot g i))"
proof -
  obtain st1 p1 where g: "user_page v" "v \<noteq> 0" "leaf (mem st) (root_frame sp) v = None" "grown sp st sp' st1"
    and at: "table_at (mem st1) (root_frame sp') (page_path v) = Some p1"
    and st': "st' = st1\<lparr>mem := (mem st1)(slot p1 (p1_index v) := pte_make ph (fl OR PF_PRESENT OR PF_USER))\<rparr>"
    using map_user_frame_spec [OF ok fl ph run] by (auto simp: grown_def)
  have f: "flags_ok (fl OR PF_PRESENT OR PF_USER)" by (intro flags_ok_or fl flags_ok_consts)
  have t1: "tab_ok sp' st1" using g(4) by (simp add: grown_def)
  note up = leaf_update_ok [OF t1 g(1) at, of "pte_make ph (fl OR PF_PRESENT OR PF_USER)", folded st']
  have p1: "p1 \<in> set (page_table_frames sp')" "frame_addr_ok p1" "p1_index v < 512"
    using t1 tables_okD(1,2) [OF _ _ at] page_path_user [OF g(1)] by (auto simp: tab_ok_def user_slot_def)
  have "mem st' (slot x i) = mem st (slot x i)" if "frame_addr_ok x" "x \<notin> set (page_table_frames sp')" "i < 512" for x i
  proof -
    have "slot x i \<noteq> slot p1 (p1_index v)" using slot_inj [of x p1 i "p1_index v"] p1 that by (auto simp: frame_addr_ok_def)
    then show ?thesis using g(4) that by (simp add: st' grown_def)
  qed
  then show ?thesis
    using up g grown_view [OF g(4)] pte_addr_make [OF ph f] pte_flags_make [OF ph f] pte_make_nonzero [OF ph f or_flags_nonzero]
    by (intro exI [of _ st1]) (simp add: st' space_view_def)
qed

lemma free_machine:
  assumes "frames_ok st" "f \<in> pool_set st"
  shows "frames_ok (st\<lparr>m_pmm := map_option (free_frame f) (m_pmm st)\<rparr>) \<and>
    pool_set (st\<lparr>m_pmm := map_option (free_frame f) (m_pmm st)\<rparr>) = pool_set st \<and>
    free_set (st\<lparr>m_pmm := map_option (free_frame f) (m_pmm st)\<rparr>) = insert f (free_set st)"
proof -
  obtain pm where pm: "m_pmm st = Some pm" "pmm_ok pm" using assms(1) by (auto simp: frames_ok_def)
  then show ?thesis using frames.dealloc_pool [OF pm(2), of f] assms by (simp add: frames_ok_def pool_set_def free_set_def)
qed

lemma space_view_pmm [simp]: "space_view sp (st\<lparr>m_pmm := x\<rparr>) = space_view sp st"
  "space_view (sp\<lparr>user_frames := u\<rparr>) st = space_view sp st"
  by (simp_all add: space_view_def fun_eq_iff)

lemma space_ok_free:
  assumes "space_ok F sp st" "f \<in> pool_set st" "f \<notin> set (page_table_frames sp) \<union> set (user_frames sp) \<union> F"
  shows "space_ok F sp (st\<lparr>m_pmm := map_option (free_frame f) (m_pmm st)\<rparr>)"
proof -
  note fm = free_machine [OF space_okD(3) [OF assms(1)] assms(2)]
  have "tab_ok sp (st\<lparr>m_pmm := map_option (free_frame f) (m_pmm st)\<rparr>)"
    using assms fm by (auto simp: space_ok_def tab_ok_def)
  moreover have "set (user_frames sp) \<subseteq> pool_set st - insert f (free_set st)" using assms by (auto simp: space_ok_def)
  ultimately show ?thesis using assms fm unfolding space_ok_def by simp
qed

lemma space_ok_alloc:
  assumes ok: "space_ok F sp st" and pm: "m_pmm st = Some pm" "alloc_frame pm = (pm', Some f)"
    and st0: "st0 = st\<lparr>m_pmm := Some pm', mem := zero_page f (mem st)\<rparr>"
  shows "space_ok F sp st0 \<and> space_view sp st0 = space_view sp st \<and> f \<in> free_set st \<and> f \<in> pool_set st0 \<and> frame_addr_ok f \<and>
    f \<notin> free_set st0 \<and> f \<notin> set (page_table_frames sp) \<union> set (user_frames sp) \<union> F \<and> (\<forall>i < 512. mem st0 (slot f i) = 0)"
proof -
  note so = space_okD [OF ok]
  have am: "frames_ok st0" "pool_set st0 = pool_set st" "f \<in> free_set st" "frame_addr_ok f" "free_set st0 = free_set st - {f}"
    using alloc_machine [OF so(3) pm, of "zero_page f (mem st)"] by (simp_all add: st0)
  have nf: "f \<notin> set (page_table_frames sp) \<union> set (user_frames sp) \<union> F" using am(3) ok by (auto simp: space_ok_def tab_ok_def)
  then have nt: "f \<notin> set (page_table_frames sp)" by simp
  note z = leaf_zero_page [OF so(2) nt am(4)]
  have t0: "tab_ok sp st0" using so(1) am z(2) [of 0] by (auto simp: tab_ok_def st0 user_page_def USER_SPACE_END_def)
  have view: "space_view sp st0 = space_view sp st" using z(1) by (auto simp: space_view_def st0 fun_eq_iff)
  have "space_ok F sp st0" using ok t0 am unfolding space_ok_def view by auto
  moreover have "f \<in> pool_set st0" using am(2,3) free_in_pool [OF so(3)] by auto
  moreover have "\<forall>i < 512. mem st0 (slot f i) = 0" by (simp add: st0 zero_page_same)
  ultimately show ?thesis using view am nf by simp
qed

lemma or_flags_idem: "(fl OR PF_PRESENT OR PF_USER) OR PF_PRESENT OR PF_USER = fl OR PF_PRESENT OR PF_USER" for fl :: u64
  by (simp add: bit_eq_iff bit_or_iff)

text \<open>A page mapped to a frame that becomes owned.\<close>

lemma space_ok_own:
  assumes ok: "space_ok F sp st" and t: "tab_ok sp st'" and fr: "free_set st' = free_set st" "pool_set st' = pool_set st"
    and f: "f \<notin> set (page_table_frames sp) \<union> set (user_frames sp) \<union> F" "f \<in> pool_set st - free_set st" and fl: "flags_ok fl"
    and view: "space_view sp st' = (space_view sp st)(v \<mapsto> (f, fl))"
  shows "space_ok F (sp\<lparr>user_frames := user_frames sp @ [f]\<rparr>) st'"
  unfolding space_ok_def
proof (intro conjI allI impI)
  let ?sp = "sp\<lparr>user_frames := user_frames sp @ [f]\<rparr>"
  show "tab_ok ?sp st'" using t by (simp add: tab_ok_def)
next
  fix w g gl assume "space_view (sp\<lparr>user_frames := user_frames sp @ [f]\<rparr>) st' w = Some (g, gl)"
  then have "w = v \<and> g = f \<and> gl = fl \<or> space_view sp st w = Some (g, gl)" by (auto simp: view split: if_splits)
  then show "flags_ok gl" "g \<in> set (user_frames (sp\<lparr>user_frames := user_frames sp @ [f]\<rparr>)) \<union> F"
    using space_ok_view [OF ok, of w g gl] fl by auto
next
  fix w w' g gl gl'
  assume "space_view (sp\<lparr>user_frames := user_frames sp @ [f]\<rparr>) st' w = Some (g, gl)"
    "space_view (sp\<lparr>user_frames := user_frames sp @ [f]\<rparr>) st' w' = Some (g, gl')"
    "g \<in> set (user_frames (sp\<lparr>user_frames := user_frames sp @ [f]\<rparr>))"
  then have "w = v \<and> g = f \<or> space_view sp st w = Some (g, gl)" "w' = v \<and> g = f \<or> space_view sp st w' = Some (g, gl')"
    "g \<in> set (user_frames sp) \<or> g = f" by (auto simp: view split: if_splits)
  moreover have "space_view sp st x \<noteq> Some (f, xl)" for x xl using space_ok_view [OF ok, of x f xl] f(1) by auto
  ultimately show "w = w'" using space_ok_inj [OF ok] by blast
qed (use ok f fr in \<open>auto simp: space_ok_def\<close>)

text \<open>The frames an address space holds, together with the free ones: no operation changes them.\<close>

definition held :: "address_space \<Rightarrow> machine \<Rightarrow> usize set" where
  "held sp st = free_set st \<union> set (page_table_frames sp) \<union> set (user_frames sp)"

lemma grown_held: "grown sp st sp' st' \<Longrightarrow> held sp' st' = held sp st"
  by (auto simp: grown_def held_def)

lemma map_user_page_spec:
  assumes ok: "space_ok F sp st" and fl: "flags_ok fl" and run: "map_user_page v fl sp st = (sp', st', r)"
  shows "space_ok F sp' st' \<and> held sp' st' = held sp st \<and>
    (case r of
       Inl e \<Rightarrow> space_view sp' st' = space_view sp st
     | Inr f \<Rightarrow> f \<in> free_set st \<and> (\<forall>i < 512. mem st' (slot f i) = 0) \<and> user_page v \<and> space_view sp st v = None \<and>
         space_view sp' st' = (space_view sp st)(v \<mapsto> (f, fl OR PF_PRESENT OR PF_USER)))"
proof (cases "bad_user_page v")
  case True
  then show ?thesis using run ok by (auto simp: map_user_page_def)
next
  case v: False
  note so = space_okD [OF ok]
  obtain pm where pm: "m_pmm st = Some pm" using so(3) by (auto simp: frames_ok_def)
  obtain pm' a where al: "alloc_frame pm = (pm', a)" by fastforce
  show ?thesis
  proof (cases a)
    case None
    have "sp' = sp" "st' = st\<lparr>m_pmm := Some pm'\<rparr>" "r = Inl SpaceOutOfMemory" using run v pm al None by (auto simp: map_user_page_def)
    moreover have "grown sp st sp (st\<lparr>m_pmm := Some pm'\<rparr>)"
      using alloc_machine [OF so(3) pm al, of "mem st"] None so(1) by (simp add: grown_def tab_ok_def)
    ultimately show ?thesis using grown_ok [OF ok] grown_view grown_held by simp
  next
    case (Some f)
    let ?fl = "fl OR PF_PRESENT OR PF_USER"
    define st0 where "st0 = st\<lparr>m_pmm := Some pm', mem := zero_page f (mem st)\<rparr>"
    note a0 = space_ok_alloc [OF ok pm al [unfolded Some] st0_def]
    have h0: "insert f (held sp st0) = held sp st"
      using alloc_machine [OF so(3) pm al, of "zero_page f (mem st)"] Some a0 by (auto simp: held_def st0_def)
    have t0: "tab_ok sp st0" using a0 space_okD(1) by blast
    have flo: "flags_ok ?fl" by (intro flags_ok_or fl flags_ok_consts)
    obtain sp1 st1 r1 where m: "map_user_frame v f ?fl sp st0 = (sp1, st1, r1)" by (metis prod_cases3)
    show ?thesis
    proof (cases r1)
      case (Inl e)
      have g: "grown sp st0 sp1 st1" using map_user_frame_spec [OF t0 flo _ m] a0 Inl by simp
      have "space_ok F sp1 st1" using grown_ok [OF _ g] a0 by simp
      moreover have "f \<in> pool_set st1" "f \<notin> set (page_table_frames sp1) \<union> set (user_frames sp1) \<union> F" using g a0 by (auto simp: grown_def)
      moreover have "sp' = sp1" "st' = st1\<lparr>m_pmm := map_option (free_frame f) (m_pmm st1)\<rparr>" "r = Inl e"
        using run v pm al Some m Inl by (auto simp: map_user_page_def st0_def)
      moreover from calculation have "held sp' st' = insert f (held sp1 st1)"
        using free_machine [OF space_okD(3), of F sp1 st1 f] by (auto simp: held_def)
      ultimately show ?thesis using space_ok_free [of F sp1 st1 f] grown_view [OF g] grown_held [OF g] a0 h0 by simp
    next
      case (Inr u)
      obtain st2 where g: "grown sp st0 sp1 st2" and t1: "tab_ok sp1 st1" and fr: "free_set st1 = free_set st2" "pool_set st1 = pool_set st2"
        and v0: "user_page v" "space_view sp st0 v = None" and view: "space_view sp1 st1 = (space_view sp st0)(v \<mapsto> (f, ?fl))"
        and z: "\<forall>g i. frame_addr_ok g \<longrightarrow> g \<notin> set (page_table_frames sp1) \<longrightarrow> i < 512 \<longrightarrow> mem st1 (slot g i) = mem st0 (slot g i)"
        using map_frame_view [OF t0 flo _ m [unfolded Inr]] a0 by (auto simp: or_flags_idem)
      have r: "sp' = sp1\<lparr>user_frames := user_frames sp1 @ [f]\<rparr>" "st' = st1" "r = Inr f"
        using run v pm al Some m Inr by (auto simp: map_user_page_def st0_def)
      have o2: "space_ok F sp1 st2" using grown_ok [OF _ g] a0 by simp
      have f1: "f \<notin> set (page_table_frames sp1) \<union> set (user_frames sp1) \<union> F" "f \<in> pool_set st2 - free_set st2"
        using g a0 by (auto simp: grown_def)
      have "space_view sp1 st1 = (space_view sp1 st2)(v \<mapsto> (f, ?fl))" using view grown_view [OF g] by simp
      then have "space_ok F sp' st'" unfolding r by (rule space_ok_own [OF o2 t1 fr f1 flo])
      moreover have "held sp' st' = held sp st" using grown_held [OF g] fr h0 r by (auto simp: held_def)
      moreover have "\<forall>i < 512. mem st1 (slot f i) = 0" using z f1(1) a0 by auto
      ultimately show ?thesis using r view a0 v0 by simp
    qed
  qed
qed

text \<open>Unmapping and changing the access of a page.\<close>

lemma mapped_leaf:
  assumes "space_ok F sp st" "space_view sp st v = Some (f, fl)"
  shows "\<exists>p1. user_page v \<and> table_at (mem st) (root_frame sp) (page_path v) = Some p1 \<and>
    leaf_slot (root_frame sp) v (mem st) = slot p1 (p1_index v)"
  using assms(2) walk_leaf(2) [OF space_okD(2) [OF assms(1)]]
  by (auto simp: space_view_def leaf_def split: if_splits option.splits)

lemma space_frame_ok:
  assumes "space_ok F sp st" "space_view sp st v = Some (f, fl)"
  shows "frame_addr_ok f"
  using space_ok_view [OF assms] pool_frame_ok [OF space_okD(3) [OF assms(1)]] assms(1) by (auto simp: space_ok_def)

lemma align_down_frame: "frame_addr_ok f \<Longrightarrow> align_down f PAGE_SIZE = f"
  by (simp add: frame_addr_ok_def align_down_def dvd_eq_mod_eq_0)

lemma swap_remove_spec:
  assumes "distinct xs" "position (\<lambda>y. y = x) xs = Some i"
  shows "distinct (swap_remove i xs) \<and> set (swap_remove i xs) = set xs - {x}"
proof -
  have i: "i < length xs" "xs ! i = x" using position_Some [of "\<lambda>y. y = x" xs i] assms(2) by auto
  obtain ys z where xs: "xs = ys @ [z]" using i(1) by (metis list.size(3) not_less_zero rev_exhaust)
  show ?thesis
  proof (cases "i = length ys")
    case True
    then show ?thesis using assms(1) i(2) by (auto simp: swap_remove_def xs)
  next
    case False
    then have "i < length ys" using i(1) xs by simp
    then have "swap_remove i xs = ys[i := z]" by (simp add: swap_remove_def xs list_update_append)
    moreover have "x = ys ! i" using i(2) \<open>i < length ys\<close> by (simp add: xs nth_append)
    moreover have "z \<notin> set ys" "distinct ys" using assms(1) by (auto simp: xs)
    ultimately show ?thesis using \<open>i < length ys\<close>
      by (auto simp: distinct_list_update set_update_distinct xs)
  qed
qed

lemma space_ok_disown:
  assumes ok: "space_ok F sp st" and us: "distinct us" "set us = set (user_frames sp) - {f}"
    and none: "\<And>w fl. space_view sp st w \<noteq> Some (f, fl)"
  shows "space_ok F (sp\<lparr>user_frames := us\<rparr>) st"
  unfolding space_ok_def space_view_pmm
proof (intro conjI allI impI)
  fix w g gl assume "space_view sp st w = Some (g, gl)"
  then show "flags_ok gl" "g \<in> set (user_frames (sp\<lparr>user_frames := us\<rparr>)) \<union> F"
    using space_ok_view [OF ok, of w g gl] none [of w gl] us(2) by auto
next
  fix w w' g gl gl'
  assume "space_view sp st w = Some (g, gl)" "space_view sp st w' = Some (g, gl')" "g \<in> set (user_frames (sp\<lparr>user_frames := us\<rparr>))"
  then show "w = w'" using space_ok_inj [OF ok] us(2) by auto
qed (use ok us in \<open>auto simp: space_ok_def tab_ok_def\<close>)

lemma unmap_user_page_spec:
  assumes ok: "space_ok F sp st" and run: "unmap_user_page v sp st = (sp', st', r)"
  shows "space_ok F sp' st' \<and> page_table_frames sp' = page_table_frames sp \<and>
    (case r of
       Inl e \<Rightarrow> sp' = sp \<and> st' = st \<and> bad_user_page v
     | Inr b \<Rightarrow> (b \<longleftrightarrow> space_view sp st v \<noteq> None) \<and> space_view sp' st' = (space_view sp st)(v := None) \<and>
         free_set st' = free_set st \<union> (set (user_frames sp) - set (user_frames sp')) \<and>
         set (user_frames sp') = set (user_frames sp) - fst ` set_option (space_view sp st v))"
proof (cases "bad_user_page v \<or> space_view sp st v = None")
  case True
  then show ?thesis using run ok space_view_mapping [OF ok, of v] user_page_not_bad [of v]
    by (auto simp: unmap_user_page_def fun_upd_idem)
next
  case False
  then obtain f fl where v: "space_view sp st v = Some (f, fl)" "\<not> bad_user_page v" by auto
  obtain p1 where p1: "user_page v" "table_at (mem st) (root_frame sp) (page_path v) = Some p1"
    "leaf_slot (root_frame sp) v (mem st) = slot p1 (p1_index v)" using mapped_leaf [OF ok v(1)] by blast
  define st1 where "st1 = st\<lparr>mem := (mem st)(slot p1 (p1_index v) := 0)\<rparr>"
  have up: "tab_ok sp st1" "space_view sp st1 = (space_view sp st)(v := None)"
    using leaf_update_ok [OF space_okD(1) [OF ok] p1(1,2), of 0] by (simp_all add: st1_def)
  have ok1: "space_ok F sp st1" using ok up unfolding space_ok_def by (simp add: st1_def)
  have fo: "align_down f PAGE_SIZE = f" by (rule align_down_frame [OF space_frame_ok [OF ok v(1)]])
  have map: "user_page_mapping sp v st = Inr (Some (f, fl))" using space_view_mapping [OF ok p1(1)] v(1) by simp
  show ?thesis
  proof (cases "position (\<lambda>owned. owned = f) (user_frames sp)")
    case None
    then have "sp' = sp" "st' = st1" "r = Inr True"
      using run v map fo p1(3) by (auto simp: unmap_user_page_def st1_def Let_def)
    moreover have "f \<notin> set (user_frames sp)" using None by (auto simp: position_None)
    ultimately show ?thesis using ok1 up v(1) by (auto simp: st1_def)
  next
    case (Some i)
    have r: "sp' = sp\<lparr>user_frames := swap_remove i (user_frames sp)\<rparr>"
      "st' = st1\<lparr>m_pmm := map_option (free_frame f) (m_pmm st1)\<rparr>" "r = Inr True"
      using run v map fo p1(3) Some by (auto simp: unmap_user_page_def st1_def Let_def)
    have sw: "distinct (swap_remove i (user_frames sp))" "set (swap_remove i (user_frames sp)) = set (user_frames sp) - {f}"
      using swap_remove_spec [OF _ Some] ok by (auto simp: space_ok_def)
    have fu: "f \<in> set (user_frames sp)" using Some by (auto simp: position_Some)
    have "space_view sp st1 w \<noteq> Some (f, gl)" for w gl
      using space_ok_inj [OF ok v(1), of w gl] fu by (auto simp: up(2) split: if_splits)
    then have ok2: "space_ok F (sp\<lparr>user_frames := swap_remove i (user_frames sp)\<rparr>) st1"
      by (rule space_ok_disown [OF ok1 sw])
    have "space_ok F sp' st'" unfolding r
    proof (rule space_ok_free [OF ok2])
      show "f \<in> pool_set st1" using ok1 fu by (auto simp: space_ok_def)
      show "f \<notin> set (page_table_frames (sp\<lparr>user_frames := swap_remove i (user_frames sp)\<rparr>)) \<union>
          set (user_frames (sp\<lparr>user_frames := swap_remove i (user_frames sp)\<rparr>)) \<union> F"
        using ok1 sw fu by (auto simp: space_ok_def)
    qed
    moreover have "free_set st' = insert f (free_set st)"
      using free_machine [OF space_okD(3) [OF ok1], of f] ok1 fu unfolding r by (auto simp: space_ok_def st1_def)
    ultimately show ?thesis using r up v(1) sw fu by auto
  qed
qed

definition access_flags :: "u64 \<Rightarrow> bool \<Rightarrow> u64" where
  "access_flags flags present = (if present then flags OR PF_USER OR PF_PRESENT else flags OR PF_USER)"

lemma access_flags_ok: "flags_ok fl \<Longrightarrow> flags_ok (access_flags fl p) \<and> access_flags fl p \<noteq> 0"
proof -
  assume "flags_ok fl"
  then have "flags_ok (access_flags fl p)" by (simp add: access_flags_def flags_ok_or)
  moreover have "access_flags fl p \<noteq> 0"
    using pte_or_user(3) [of fl] pte_or_user(3) [of "fl OR PF_PRESENT"] by (simp add: access_flags_def or.commute or.left_commute)
  ultimately show ?thesis by simp
qed

lemma protect_user_page_spec:
  assumes ok: "space_ok F sp st" and fl: "flags_ok fl" and run: "protect_user_page v fl present sp st = (st', r)"
  shows "space_ok F sp st' \<and> free_set st' = free_set st \<and>
    (case r of
       Inl e \<Rightarrow> st' = st \<and> bad_user_page v
     | Inr b \<Rightarrow> (b \<longleftrightarrow> space_view sp st v \<noteq> None) \<and>
         space_view sp st' = (space_view sp st)(v := map_option (\<lambda>(f, _). (f, access_flags fl present)) (space_view sp st v)))"
proof (cases "bad_user_page v \<or> space_view sp st v = None")
  case True
  then show ?thesis using run ok space_view_mapping [OF ok, of v] user_page_not_bad [of v]
    by (auto simp: protect_user_page_def fun_upd_idem)
next
  case False
  then obtain f fl0 where v: "space_view sp st v = Some (f, fl0)" "\<not> bad_user_page v" by auto
  obtain p1 where p1: "user_page v" "table_at (mem st) (root_frame sp) (page_path v) = Some p1"
    "leaf_slot (root_frame sp) v (mem st) = slot p1 (p1_index v)" using mapped_leaf [OF ok v(1)] by blast
  let ?e = "pte_make f (access_flags fl present)"
  have map: "user_page_mapping sp v st = Inr (Some (f, fl0))" using space_view_mapping [OF ok p1(1)] v(1) by simp
  have r: "st' = st\<lparr>mem := (mem st)(slot p1 (p1_index v) := ?e)\<rparr>" "r = Inr True"
    using run v map p1(3) by (auto simp: protect_user_page_def access_flags_def Let_def)
  note fo = space_frame_ok [OF ok v(1)] and ao = access_flags_ok [OF fl, of present]
  have up: "tab_ok sp st'" "space_view sp st' = (space_view sp st)(v \<mapsto> (f, access_flags fl present))"
    using leaf_update_ok [OF space_okD(1) [OF ok] p1(1,2), of ?e] pte_addr_make [OF fo] pte_flags_make [OF fo] pte_make_nonzero [OF fo] ao
    by (simp_all add: r)
  have view: "\<exists>gl'. space_view sp st w = Some (g, gl')" "flags_ok gl" if "space_view sp st' w = Some (g, gl)" for w g gl
    using that v(1) ao space_ok_view [OF ok, of w g gl] by (auto simp: up(2) split: if_splits)
  have "space_ok F sp st'"
    unfolding space_ok_def
  proof (intro conjI allI impI)
    show "tab_ok sp st'" by (rule up)
  next
    fix w g gl assume "space_view sp st' w = Some (g, gl)"
    then show "flags_ok gl" "g \<in> set (user_frames sp) \<union> F" using view [of w g gl] space_ok_view [OF ok, of w g] by blast+
  next
    fix w w' g gl gl'
    assume "space_view sp st' w = Some (g, gl)" "space_view sp st' w' = Some (g, gl')" "g \<in> set (user_frames sp)"
    then show "w = w'" using view(1) [of w g gl] view(1) [of w' g gl'] space_ok_inj [OF ok] by blast
  qed (use ok in \<open>auto simp: space_ok_def r\<close>)
  then show ?thesis using r up v(1) by (simp add: r)
qed

lemma space_drop_spec:
  assumes "space_ok F sp st"
  shows "frames_ok (space_drop sp st) \<and>
    free_set (space_drop sp st) = free_set st \<union> set (page_table_frames sp) \<union> set (user_frames sp)"
proof -
  obtain pm where pm: "m_pmm st = Some pm" "pmm_ok pm" using space_okD(3) [OF assms] by (auto simp: frames_ok_def)
  have sub: "set (user_frames sp) \<subseteq> pool_addrs pm" "set (page_table_frames sp) \<subseteq> pool_addrs pm"
    using assms pm by (auto simp: space_ok_def tab_ok_def pool_set_def)
  note u = frames.dealloc_all [OF pm(2) sub(1)]
  have "pmm_ok (fold free_frame (user_frames sp) pm)" "set (page_table_frames sp) \<subseteq> pool_addrs (fold free_frame (user_frames sp) pm)"
    using u sub(2) by auto
  from frames.dealloc_all [OF this] u show ?thesis
    using pm space_okD(3) [OF assms] by (auto simp: space_drop_def free_set_def frames_ok_def pool_set_def)
qed

text \<open>A new address space maps no user page.\<close>

lemma copy_entries_other:
  assumes "PAGE_SIZE dvd root" "\<forall>i \<in> set is. 256 \<le> i \<and> i < 512" "PAGE_SIZE dvd t" "j < 512" "t \<noteq> root \<or> j < 256"
  shows "fold (\<lambda>i m. m(slot root i := m (slot k i))) is m (slot t j) = m (slot t j)"
  using assms(2)
proof (induction "is" arbitrary: m)
  case (Cons i "is")
  have "slot t j \<noteq> slot root i" using slot_inj [of t root j i] Cons.prems assms by auto
  then show ?case using Cons by simp
qed simp

lemma sync_kernel_half_mem:
  assumes "sync_kernel_half_into root st = (st', Inr u)" "PAGE_SIZE dvd root"
  shows "m_pmm st' = m_pmm st \<and> kernel_root st' = kernel_root st \<and> cr3 st' = cr3 st"
    and "PAGE_SIZE dvd t \<Longrightarrow> i < 512 \<Longrightarrow> t \<noteq> root \<or> i < 256 \<Longrightarrow> mem st' (slot t i) = mem st (slot t i)"
proof -
  define ks where "ks = [PML4_KERNEL_START..<512]"
  have ks: "\<forall>i \<in> set ks. 256 \<le> i \<and> i < 512" unfolding ks_def set_upt PML4_KERNEL_START_def by simp
  have st': "st' = st \<or> st' = st\<lparr>mem := fold (\<lambda>i m. m(slot root i := m (slot (kernel_root st) i))) ks (mem st)\<rparr>"
    using assms(1) unfolding sync_kernel_half_into_def ks_def [symmetric] by (auto split: if_splits)
  then show "m_pmm st' = m_pmm st \<and> kernel_root st' = kernel_root st \<and> cr3 st' = cr3 st" by auto
  show "mem st' (slot t i) = mem st (slot t i)" if "PAGE_SIZE dvd t" "i < 512" "t \<noteq> root \<or> i < 256"
    using st' copy_entries_other [OF assms(2) ks that] by auto
qed

lemma space_new_spec:
  assumes fr: "frames_ok st" and F: "F \<inter> free_set st = {}" "\<forall>a \<in> F. frame_addr_ok a" and run: "space_new st = (st', Inr sp)"
  shows "space_ok F sp st' \<and> space_view sp st' = (\<lambda>_. None) \<and> user_frames sp = [] \<and> page_table_frames sp = [root_frame sp] \<and>
    free_set st' = free_set st - {root_frame sp}"
proof -
  obtain pm where pm: "m_pmm st = Some pm" using fr by (auto simp: frames_ok_def)
  obtain pm' a where al: "alloc_frame pm = (pm', a)" by fastforce
  obtain root where a: "a = Some root" using run pm al by (cases a) (auto simp: space_new_def)
  let ?st0 = "st\<lparr>m_pmm := Some pm', mem := zero_page root (mem st)\<rparr>"
  have am: "frames_ok ?st0" "pool_set ?st0 = pool_set st" "root \<in> free_set st" "frame_addr_ok root" "free_set ?st0 = free_set st - {root}"
    using alloc_machine [OF fr pm al, of "zero_page root (mem st)"] a by simp_all
  obtain u where sy: "sync_kernel_half_into root ?st0 = (st', Inr u)" and sp: "sp = \<lparr>root_frame = root, user_frames = [], page_table_frames = [root]\<rparr>"
    using run pm al a by (auto simp: space_new_def split: prod.splits sum.splits)
  have dv: "PAGE_SIZE dvd root" using am(4) by (simp add: frame_addr_ok_def)
  note sm = sync_kernel_half_mem [OF sy dv]
  have z: "mem st' (slot root i) = 0" if "i < 256" for i
    using sm(2) [OF dv, of i] zero_page_same [of i root "mem st"] that by simp
  have at: "table_at (mem st') root p = (if p = [] then Some root else None)" if "user_path p" for p
    using that z by (cases p) (auto simp: user_path_def next_table_def)
  have "tables_ok (mem st') root {root}"
    by (rule tables_okI) (use am(4) at z in \<open>auto simp: user_slot_def split: if_splits\<close>)
  moreover have fs: "free_set st' = free_set st - {root}" "pool_set st' = pool_set st" "frames_ok st'"
    using sm(1) am by (simp_all add: free_set_def pool_set_def frames_ok_def)
  ultimately have t: "tab_ok sp st'" using am(3) free_in_pool [OF fr] by (auto simp: tab_ok_def sp)
  have "table_at (mem st') root (page_path v) = None" if "user_page v" for v
    using at [of "page_path v"] page_path_user [OF that] by (auto simp: user_slot_def)
  then have view: "space_view sp st' = (\<lambda>_. None)" by (simp add: space_view_def leaf_def sp fun_eq_iff)
  have "root \<notin> F" using F(1) am(3) by blast
  then have "space_ok F sp st'" using t F fs unfolding space_ok_def view by (auto simp: sp)
  then show ?thesis using view fs by (simp add: sp)
qed

section \<open>Properties\<close>

datatype space_op = MapPage usize u64 | MapFrame usize usize u64 | UnmapPage usize | ProtectPage usize u64 bool

text \<open>One operation with its outcome: an error, or the frame of a newly mapped page.\<close>

fun space_apply :: "space_op \<Rightarrow> address_space \<times> machine \<Rightarrow> (address_space \<times> machine) \<times> (address_space_error + usize)" where
  "space_apply (MapPage v fl) (sp, st) = (case map_user_page v fl sp st of (sp', st', r) \<Rightarrow> ((sp', st'), r))"
| "space_apply (MapFrame v ph fl) (sp, st) =
     (case map_user_frame v ph fl sp st of (sp', st', r) \<Rightarrow> ((sp', st'), case r of Inl e \<Rightarrow> Inl e | Inr _ \<Rightarrow> Inr ph))"
| "space_apply (UnmapPage v) (sp, st) =
     (case unmap_user_page v sp st of (sp', st', r) \<Rightarrow> ((sp', st'), case r of Inl e \<Rightarrow> Inl e | Inr _ \<Rightarrow> Inr 0))"
| "space_apply (ProtectPage v fl present) (sp, st) =
     (case protect_user_page v fl present sp st of (st', r) \<Rightarrow> ((sp, st'), case r of Inl e \<Rightarrow> Inl e | Inr _ \<Rightarrow> Inr 0))"

text \<open>The same operation on the map of pages.\<close>

fun view_apply :: "space_op \<Rightarrow> address_space_error + usize \<Rightarrow> (usize \<Rightarrow> (usize \<times> u64) option) \<Rightarrow> usize \<Rightarrow> (usize \<times> u64) option" where
  "view_apply op (Inl e) m = m"
| "view_apply (MapPage v fl) (Inr f) m = m(v \<mapsto> (f, fl OR PF_PRESENT OR PF_USER))"
| "view_apply (MapFrame v ph fl) (Inr _) m = m(v \<mapsto> (ph, fl OR PF_PRESENT OR PF_USER))"
| "view_apply (UnmapPage v) (Inr _) m = m(v := None)"
| "view_apply (ProtectPage v fl present) (Inr _) m = m(v := map_option (\<lambda>(f, _). (f, access_flags fl present)) (m v))"

fun space_run ::
  "space_op list \<Rightarrow> address_space \<times> machine \<Rightarrow> (usize \<Rightarrow> (usize \<times> u64) option) \<Rightarrow>
     (address_space \<times> machine) \<times> (usize \<Rightarrow> (usize \<times> u64) option)" where
  "space_run [] s m = (s, m)"
| "space_run (op # ops) s m = (case space_apply op s of (s', r) \<Rightarrow> space_run ops s' (view_apply op r m))"

fun op_ok :: "usize set \<Rightarrow> space_op \<Rightarrow> bool" where
  "op_ok F (MapPage v fl) \<longleftrightarrow> flags_ok fl"
| "op_ok F (MapFrame v ph fl) \<longleftrightarrow> flags_ok fl \<and> ph \<in> F"
| "op_ok F (UnmapPage v) \<longleftrightarrow> True"
| "op_ok F (ProtectPage v fl present) \<longleftrightarrow> flags_ok fl"

lemma map_foreign_ok:
  assumes ok: "space_ok F sp st" and fl: "flags_ok fl" and ph: "ph \<in> F" and run: "map_user_frame v ph fl sp st = (sp', st', r)"
  shows "space_ok F sp' st' \<and> held sp' st' = held sp st \<and>
    (case r of Inl _ \<Rightarrow> space_view sp' st' = space_view sp st
     | Inr _ \<Rightarrow> space_view sp' st' = (space_view sp st)(v \<mapsto> (ph, fl OR PF_PRESENT OR PF_USER)))"
proof -
  have pho: "frame_addr_ok ph" using ok ph by (simp add: space_ok_def)
  show ?thesis
  proof (cases r)
    case (Inl e)
    have "grown sp st sp' st'" using map_user_frame_spec [OF space_okD(1) [OF ok] fl pho run] Inl by simp
    then show ?thesis using grown_ok [OF ok] grown_view grown_held Inl by simp
  next
    case (Inr u)
    let ?fl = "fl OR PF_PRESENT OR PF_USER"
    obtain st1 where g: "grown sp st sp' st1" and t: "tab_ok sp' st'" and fr: "free_set st' = free_set st1" "pool_set st' = pool_set st1"
      and view: "space_view sp' st' = (space_view sp st)(v \<mapsto> (ph, ?fl))"
      using map_frame_view [OF space_okD(1) [OF ok] fl pho run [unfolded Inr]] by blast
    have o1: "space_ok F sp' st1" and v1: "space_view sp' st1 = space_view sp st" using grown_ok [OF ok g] grown_view [OF g] by auto
    have phn: "ph \<notin> set (user_frames sp')" using o1 ph by (auto simp: space_ok_def)
    have flo: "flags_ok ?fl" by (intro flags_ok_or fl flags_ok_consts)
    have old: "w = v \<and> g = ph \<and> gl = ?fl \<or> space_view sp' st1 w = Some (g, gl)" if "space_view sp' st' w = Some (g, gl)" for w g gl
      using that by (auto simp: view v1 split: if_splits)
    have "space_ok F sp' st'"
      unfolding space_ok_def
    proof (intro conjI allI impI)
      fix w g gl assume "space_view sp' st' w = Some (g, gl)"
      then show "flags_ok gl" "g \<in> set (user_frames sp') \<union> F"
        using old [of w g gl] space_ok_view [OF o1, of w g gl] ph flo by auto
    next
      fix w w' g gl gl'
      assume "space_view sp' st' w = Some (g, gl)" "space_view sp' st' w' = Some (g, gl')" "g \<in> set (user_frames sp')"
      then show "w = w'" using old phn space_ok_inj [OF o1] by blast
    qed (use t o1 fr in \<open>auto simp: space_ok_def\<close>)
    then show ?thesis using view Inr grown_held [OF g] fr by (simp add: held_def)
  qed
qed

lemma space_apply_ok:
  assumes ok: "space_ok F sp st" and op: "op_ok F op" and run: "space_apply op (sp, st) = ((sp', st'), r)"
  shows "space_ok F sp' st' \<and> held sp' st' = held sp st \<and> space_view sp' st' = view_apply op r (space_view sp st)"
proof (cases op)
  case (MapPage v fl)
  then show ?thesis using map_user_page_spec [OF ok, of fl v sp' st'] op run by (cases r) (auto split: prod.splits)
next
  case (MapFrame v ph fl)
  obtain sp1 st1 r1 where m: "map_user_frame v ph fl sp st = (sp1, st1, r1)" by (metis prod_cases3)
  then show ?thesis using map_foreign_ok [OF ok, of fl ph v sp1 st1 r1] op run MapFrame by (cases r1) auto
next
  case (UnmapPage v)
  obtain sp1 st1 r1 where m: "unmap_user_page v sp st = (sp1, st1, r1)" by (metis prod_cases3)
  then show ?thesis using unmap_user_page_spec [OF ok m] run UnmapPage by (cases r1) (auto simp: held_def)
next
  case (ProtectPage v fl p)
  obtain st1 r1 where m: "protect_user_page v fl p sp st = (st1, r1)" by fastforce
  then show ?thesis using protect_user_page_spec [OF ok _ m] op run ProtectPage by (cases r1) (auto simp: held_def)
qed

lemma space_run_ok:
  "space_ok F sp st \<Longrightarrow> \<forall>op \<in> set ops. op_ok F op \<Longrightarrow> space_run ops (sp, st) (space_view sp st) = ((sp', st'), m) \<Longrightarrow>
     space_ok F sp' st' \<and> held sp' st' = held sp st \<and> space_view sp' st' = m"
proof (induction ops arbitrary: sp st)
  case (Cons op ops)
  obtain sp1 st1 r where a: "space_apply op (sp, st) = ((sp1, st1), r)" by (metis prod.collapse)
  have "space_ok F sp1 st1 \<and> held sp1 st1 = held sp st \<and> space_view sp1 st1 = view_apply op r (space_view sp st)"
    using space_apply_ok [OF Cons.prems(1) _ a] Cons.prems(2) by simp
  then show ?case using Cons.IH [of sp1 st1] Cons.prems(2,3) a by simp
qed auto

text \<open>
  C3. The page tables implement a map. Starting from a new address space, after any sequence of mapping,
  unmapping and protecting pages, looking up any user page in the four-level tables gives what the
  same sequence gives on a map from pages to frames and flags; a lookup never runs into a huge page.
\<close>
theorem paging_refines_map:
  assumes "frames_ok st" "F \<inter> free_set st = {}" "\<forall>a \<in> F. frame_addr_ok a" "space_new st = (st0, Inr sp0)"
    and "\<forall>op \<in> set ops. op_ok F op" "space_run ops (sp0, st0) (\<lambda>_. None) = ((sp', st'), m)" "user_page v"
  shows "user_page_mapping sp' v st' = Inr (m v)"
proof -
  note n = space_new_spec [OF assms(1-4)]
  from space_run_ok [OF _ assms(5), of sp0 st0] n assms(6) have "space_ok F sp' st' \<and> space_view sp' st' = m" by auto
  then show ?thesis using space_view_mapping [OF _ assms(7)] by blast
qed

text \<open>
  C8. Memory isolation and no leak. In an address space reached by any sequence of operations, a mapped
  user page never lies in a page-table frame nor in a free frame; and dropping the address space
  returns exactly the frames that were free before it was created.
\<close>
theorem address_space_isolated:
  assumes "frames_ok st" "F \<inter> free_set st = {}" "\<forall>a \<in> F. frame_addr_ok a" "space_new st = (st0, Inr sp0)"
    and "\<forall>op \<in> set ops. op_ok F op" "space_run ops (sp0, st0) (\<lambda>_. None) = ((sp', st'), m)"
  shows "(\<forall>v f fl. user_page v \<longrightarrow> user_page_mapping sp' v st' = Inr (Some (f, fl)) \<longrightarrow>
      f \<notin> set (page_table_frames sp') \<and> f \<notin> free_set st') \<and> free_set (space_drop sp' st') = free_set st"
proof -
  note n = space_new_spec [OF assms(1-4)]
  from space_run_ok [OF _ assms(5), of sp0 st0] n assms(6)
  have s: "space_ok F sp' st'" "held sp' st' = held sp0 st0" "space_view sp' st' = m" by auto
  have "root_frame sp0 \<in> free_set st" using assms(1,4) alloc_machine [OF assms(1)]
    by (fastforce simp: space_new_def split: option.splits prod.splits sum.splits)
  then have "held sp0 st0 = free_set st" using n by (auto simp: held_def)
  moreover have "f \<notin> set (page_table_frames sp') \<and> f \<notin> free_set st'" if "space_view sp' st' v = Some (f, fl)" for v f fl
    using space_ok_view [OF s(1) that] s(1) by (auto simp: space_ok_def)
  ultimately show ?thesis using space_drop_spec [OF s(1)] s(2) space_view_mapping [OF s(1)] by (auto simp: held_def)
qed

text \<open>A machine with eight free frames.\<close>

definition small_machine :: machine where
  "small_machine =
     \<lparr>mem = (\<lambda>_. 0), m_pmm = Some \<lparr>bitmap = [0], total_frames = 8, usable_frames = 8, free_frames = 8, base_addr = 0x100000\<rparr>,
      kernel_root = 0x1000, cr3 = 0x1000\<rparr>"

lemma small_machine_ok: "frames_ok small_machine"
proof -
  have "pmm_free \<lparr>bitmap = [0], total_frames = 8, usable_frames = 8, free_frames = 8, base_addr = 0x100000\<rparr> = {..<8}"
    by (auto simp: pmm_free_def bitmap_clear_def)
  then show ?thesis
    by (auto simp: frames_ok_def small_machine_def pmm_ok_def pool_set_def pool_addrs_def frame_of_def PAGE_SIZE_def usize_modulus_def)
qed

lemma small_machine_alloc:
  "alloc_frame (the (m_pmm small_machine)) =
     (\<lparr>bitmap = [1], total_frames = 8, usable_frames = 8, free_frames = 7, base_addr = 0x100000\<rparr>, Some 0x100000)"
  by (simp add: small_machine_def alloc_frame_def upt_conv_Cons frame_addr_def wrap_add_def wrap_mul_def wrap_sub_def
      pmm_eval Let_def)

definition small_space :: "machine \<times> address_space" where
  "small_space = (fst (space_new small_machine), \<lparr>root_frame = 0x100000, user_frames = [], page_table_frames = [0x100000]\<rparr>)"

lemma small_space_new: "space_new small_machine = (fst small_space, Inr (snd small_space))"
proof -
  have "kernel_root small_machine \<noteq> UNINITIALIZED_ROOT" by (simp add: small_machine_def UNINITIALIZED_ROOT_def usize_max_def)
  moreover obtain pm where "m_pmm small_machine = Some pm" by (simp add: small_machine_def)
  ultimately show ?thesis using small_machine_alloc
    by (simp add: small_space_def space_new_def sync_kernel_half_into_def)
qed

definition small_ops :: "space_op list" where
  "small_ops = [MapPage 0x400000 PF_WRITABLE, ProtectPage 0x400000 PF_NO_EXECUTE False, UnmapPage 0x400000]"

lemma small_ops_ok: "\<forall>op \<in> set small_ops. op_ok {} op"
  by (simp add: small_ops_def)

theorem paging_refines_map_witness:
  "\<exists>sp' st' m. space_run small_ops (snd small_space, fst small_space) (\<lambda>_. None) = ((sp', st'), m) \<and>
     user_page_mapping sp' 0x400000 st' = Inr (m 0x400000)"
proof -
  obtain sp' st' m where r: "space_run small_ops (snd small_space, fst small_space) (\<lambda>_. None) = ((sp', st'), m)"
    by (metis prod.collapse)
  have "user_page 0x400000" by (simp add: user_page_def USER_SPACE_END_def PAGE_SIZE_def)
  from paging_refines_map [OF small_machine_ok _ _ small_space_new small_ops_ok r this] r show ?thesis by auto
qed

theorem address_space_isolated_witness:
  "\<exists>sp' st' m. space_run small_ops (snd small_space, fst small_space) (\<lambda>_. None) = ((sp', st'), m) \<and>
     free_set (space_drop sp' st') = free_set small_machine"
proof -
  obtain sp' st' m where r: "space_run small_ops (snd small_space, fst small_space) (\<lambda>_. None) = ((sp', st'), m)"
    by (metis prod.collapse)
  from address_space_isolated [OF small_machine_ok _ _ small_space_new small_ops_ok r] r show ?thesis by auto
qed

text \<open>
  A page mapped for a process is fresh: its frame was free before, every word of it reads zero
  afterwards, and the page was not mapped; a failed mapping leaves every translation as it was.
\<close>
lemma map_user_page_fresh:
  assumes "space_ok F sp st" "flags_ok fl" "map_user_page v fl sp st = (sp', st', r)"
  shows "case r of
      Inr f \<Rightarrow> f \<in> free_set st \<and> (\<forall>i < 512. mem st' (slot f i) = 0) \<and> user_page_mapping sp v st = Inr None \<and>
        user_page_mapping sp' v st' = Inr (Some (f, fl OR PF_PRESENT OR PF_USER))
    | Inl e \<Rightarrow> (\<forall>w. user_page w \<longrightarrow> user_page_mapping sp' w st' = user_page_mapping sp w st)"
  using map_user_page_spec [OF assms] space_view_mapping [OF assms(1)] space_view_mapping [of F sp' st']
  by (auto split: sum.splits)

lemma map_user_page_fresh_witness:
  "\<exists>sp' st' r. map_user_page 0x400000 PF_WRITABLE (snd small_space) (fst small_space) = (sp', st', r) \<and>
     (\<forall>f. r = Inr f \<longrightarrow> (\<forall>i < 512. mem st' (slot f i) = 0))"
proof -
  have ok: "space_ok {} (snd small_space) (fst small_space)"
    using space_new_spec [OF small_machine_ok _ _ small_space_new, of "{}"] by simp
  obtain sp' st' r where m: "map_user_page 0x400000 PF_WRITABLE (snd small_space) (fst small_space) = (sp', st', r)"
    by (metis prod_cases3)
  from map_user_page_fresh [OF ok _ m] m show ?thesis by (auto split: sum.splits)
qed

end
