(* ===== verification/Handle_Table.thy ===== *)
theory Handle_Table
  imports Prelude
begin

text \<open>
  The capability table of a process (\<^verbatim>\<open>kernel/src/handle.rs\<close>): handles with rights masks, id
  allocation by a wrapping counter, narrowing duplication and transfer, and the two global owner
  words of the display and input singletons. The id search is a loop that does not end on a full
  table, so insertion is a partial function and its termination is a theorem.
\<close>

section \<open>Data\<close>

definition RIGHT_READ :: u32 where "RIGHT_READ = push_bit 0 1"
definition RIGHT_WRITE :: u32 where "RIGHT_WRITE = push_bit 1 1"
definition RIGHT_MAP :: u32 where "RIGHT_MAP = push_bit 2 1"
definition RIGHT_SIGNAL :: u32 where "RIGHT_SIGNAL = push_bit 3 1"
definition RIGHT_TRANSFER :: u32 where "RIGHT_TRANSFER = push_bit 4 1"
definition RIGHT_DISPLAY_MASTER :: u32 where "RIGHT_DISPLAY_MASTER = push_bit 5 1"
definition RIGHT_INPUT_MASTER :: u32 where "RIGHT_INPUT_MASTER = push_bit 6 1"

definition RIGHTS_ALL :: u32 where
  "RIGHTS_ALL = RIGHT_READ OR RIGHT_WRITE OR RIGHT_MAP OR RIGHT_SIGNAL OR RIGHT_TRANSFER
     OR RIGHT_DISPLAY_MASTER OR RIGHT_INPUT_MASTER"

definition MAX_MEMORY_OBJECT :: nat where
  "MAX_MEMORY_OBJECT = 1048576"

datatype handle_error =
  BadHandle | AccessDenied | WrongType | DisplayBusy | TooLarge | MapFailed | NoSuchTarget

datatype handle_object =
  Memory bytes | Endpoint u64 | Display | Input | SharedFrames u64

record handle_entry =
  object :: handle_object
  rights :: u32

record handle_table =
  entries :: "(u32, handle_entry) btree"
  next_handle :: u32

section \<open>Operations\<close>

definition handle_table_new :: handle_table where
  "handle_table_new = \<lparr>entries = [], next_handle = 1\<rparr>"

partial_function (option) allocate_id :: "handle_table \<Rightarrow> (handle_table \<times> u32) option" where
  "allocate_id t =
     (let h = next_handle t; t' = t\<lparr>next_handle := h + 1\<rparr>
      in if h \<noteq> 0 \<and> bt_get (entries t) h = None then Some (t', h) else allocate_id t')"

definition handle_insert :: "handle_object \<Rightarrow> u32 \<Rightarrow> handle_table \<Rightarrow> (handle_table \<times> u32) option" where
  "handle_insert obj r t =
     (case allocate_id t of
        None \<Rightarrow> None
      | Some (t', h) \<Rightarrow>
          Some (t'\<lparr>entries := bt_put h \<lparr>object = obj, rights = r AND RIGHTS_ALL\<rparr> (entries t')\<rparr>, h))"

definition handle_get :: "u32 \<Rightarrow> handle_table \<Rightarrow> handle_error + handle_entry" where
  "handle_get h t = (case bt_get (entries t) h of None \<Rightarrow> Inl BadHandle | Some e \<Rightarrow> Inr e)"

definition handle_remove :: "u32 \<Rightarrow> handle_table \<Rightarrow> handle_table \<times> (handle_error + handle_entry)" where
  "handle_remove h t =
     (case bt_get (entries t) h of
        None \<Rightarrow> (t, Inl BadHandle)
      | Some e \<Rightarrow> (t\<lparr>entries := bt_del h (entries t)\<rparr>, Inr e))"

definition rights_of :: "u32 \<Rightarrow> handle_table \<Rightarrow> handle_error + u32" where
  "rights_of h t = (case handle_get h t of Inl e \<Rightarrow> Inl e | Inr entry \<Rightarrow> Inr (rights entry))"

definition require :: "u32 \<Rightarrow> u32 \<Rightarrow> handle_table \<Rightarrow> handle_error + handle_entry" where
  "require h required t =
     (case handle_get h t of
        Inl e \<Rightarrow> Inl e
      | Inr entry \<Rightarrow> if rights entry AND required \<noteq> required then Inl AccessDenied else Inr entry)"

text \<open>A mutable borrow of an entry is the update function of the table at that key.\<close>

definition entry_update :: "u32 \<Rightarrow> (handle_entry \<Rightarrow> handle_entry) \<Rightarrow> handle_table \<Rightarrow> handle_table" where
  "entry_update h f t =
     (case bt_get (entries t) h of
        None \<Rightarrow> t | Some e \<Rightarrow> t\<lparr>entries := bt_put h (f e) (entries t)\<rparr>)"

definition handle_duplicate ::
  "u32 \<Rightarrow> u32 \<Rightarrow> handle_table \<Rightarrow> (handle_table \<times> (handle_error + u32)) option" where
  "handle_duplicate h new_rights t =
     (case handle_get h t of
        Inl e \<Rightarrow> Some (t, Inl e)
      | Inr current \<Rightarrow>
          let new_rights = new_rights AND RIGHTS_ALL
          in if new_rights AND NOT (rights current) \<noteq> 0 then Some (t, Inl AccessDenied)
             else
               case handle_insert (object current) new_rights t of
                 None \<Rightarrow> None | Some (t', h') \<Rightarrow> Some (t', Inr h'))"

definition handle_table_is_empty :: "handle_table \<Rightarrow> bool" where
  "handle_table_is_empty t \<longleftrightarrow> entries t = []"

definition take_for_transfer ::
  "u32 \<Rightarrow> handle_table \<Rightarrow> handle_table \<times> (handle_error + handle_object \<times> u32)" where
  "take_for_transfer h t =
     (case handle_remove h t of
        (t', Inl e) \<Rightarrow> (t', Inl e)
      | (t', Inr entry) \<Rightarrow> (t', Inr (object entry, rights entry)))"

definition drain_objects :: "handle_table \<Rightarrow> handle_table \<times> handle_object list" where
  "drain_objects t = (t\<lparr>entries := []\<rparr>, map (\<lambda>(h, e). object e) (entries t))"

text \<open>The owner words of the singletons: zero is free, otherwise the owning process id. One
  compare-and-swap serves both the display and the input source.\<close>

definition compare_exchange :: "u64 \<Rightarrow> u64 \<Rightarrow> u64 \<Rightarrow> u64 \<times> (u64 + u64)" where
  "compare_exchange current new cell = (if cell = current then (new, Inr cell) else (cell, Inl cell))"

definition try_acquire :: "u64 \<Rightarrow> u64 \<Rightarrow> u64 \<times> bool" where
  "try_acquire pid cell =
     (case compare_exchange 0 pid cell of
        (cell', Inr _) \<Rightarrow> (cell', True) | (cell', Inl current) \<Rightarrow> (cell', current = pid))"

definition release_owner :: "u64 \<Rightarrow> u64 \<Rightarrow> u64" where
  "release_owner pid cell = fst (compare_exchange pid 0 cell)"

section \<open>Invariant\<close>

definition rights_within :: "u32 \<Rightarrow> u32 \<Rightarrow> bool" where
  "rights_within a b \<longleftrightarrow> a AND NOT b = 0"

definition handle_table_ok :: "handle_table \<Rightarrow> bool" where
  "handle_table_ok t \<longleftrightarrow> bt_ok (entries t) \<and> 0 \<notin> bt_keys (entries t) \<and>
     (\<forall>h e. bt_get (entries t) h = Some e \<longrightarrow> rights_within (rights e) RIGHTS_ALL)"

lemma bit_u32_bound: "bit (a :: u32) n \<Longrightarrow> n < 32"
  using bit_imp_le_length [of a n] by simp

lemma rights_within_bits: "rights_within a b \<longleftrightarrow> (\<forall>n. bit a n \<longrightarrow> bit b n)"
  by (auto simp: rights_within_def bit_eq_iff bit_and_iff bit_not_iff) (blast dest: bit_u32_bound)

lemma rights_within_refl [simp]: "rights_within a a"
  by (simp add: rights_within_bits)

lemma rights_within_trans: "rights_within a b \<Longrightarrow> rights_within b c \<Longrightarrow> rights_within a c"
  by (simp add: rights_within_bits)

lemma rights_within_and [simp]: "rights_within (a AND b) b"
  by (simp add: rights_within_bits bit_and_iff)

lemma and_absorb_within: "rights_within a b \<Longrightarrow> a AND b = a"
  by (rule bit_word_eqI) (auto simp: rights_within_bits bit_and_iff)

lemma require_bits: "a AND r = r \<longleftrightarrow> rights_within r (a :: u32)"
  by (auto simp: rights_within_bits bit_eq_iff [of "a AND r"] bit_and_iff) (blast dest: bit_u32_bound)

section \<open>Id allocation\<close>

lemma allocate_id_unfold:
  "allocate_id t =
     (if next_handle t \<noteq> 0 \<and> bt_get (entries t) (next_handle t) = None
      then Some (t\<lparr>next_handle := next_handle t + 1\<rparr>, next_handle t)
      else allocate_id (t\<lparr>next_handle := next_handle t + 1\<rparr>))"
  by (subst allocate_id.simps) (simp add: Let_def)

lemma handle_insert_next:
  "next_handle t \<noteq> 0 \<Longrightarrow> bt_get (entries t) (next_handle t) = None \<Longrightarrow>
     handle_insert obj r t =
       Some (t\<lparr>next_handle := next_handle t + 1,
               entries := bt_put (next_handle t) \<lparr>object = obj, rights = r AND RIGHTS_ALL\<rparr> (entries t)\<rparr>,
             next_handle t)"
  by (simp add: handle_insert_def allocate_id_unfold)

lemma allocate_id_Some:
  assumes "allocate_id t = Some (t', h)"
  shows "\<exists>n. t' = t\<lparr>next_handle := n\<rparr> \<and> h \<noteq> 0 \<and> bt_get (entries t) h = None"
proof -
  have "case q of (t', h) \<Rightarrow> \<exists>n. t' = t\<lparr>next_handle := n\<rparr> \<and> h \<noteq> 0 \<and> bt_get (entries t) h = None"
    if "allocate_id t = Some q" for q
    using that
    by (rule allocate_id.raw_induct [rotated]) (fastforce simp: Let_def split: if_splits)
  from this [OF assms] show ?thesis by simp
qed

lemma handle_insert_Some:
  assumes "handle_insert obj r t = Some (t', h)"
  shows "\<exists>n. t' = t\<lparr>next_handle := n,
      entries := bt_put h \<lparr>object = obj, rights = r AND RIGHTS_ALL\<rparr> (entries t)\<rparr> \<and>
    h \<noteq> 0 \<and> bt_get (entries t) h = None"
  using assms by (auto simp: handle_insert_def split: option.splits dest!: allocate_id_Some)

text \<open>The counter walks the cyclic distance to any free nonzero id, so it finds one.\<close>

lemma allocate_id_reaches:
  assumes "f \<noteq> 0" "bt_get (entries t) f = None"
  shows "\<exists>h n. allocate_id t = Some (t\<lparr>next_handle := n\<rparr>, h) \<and> h \<noteq> 0 \<and> bt_get (entries t) h = None"
  using assms
proof (induction "unat (f - next_handle t)" arbitrary: t rule: less_induct)
  case less
  show ?case
  proof (cases "next_handle t \<noteq> 0 \<and> bt_get (entries t) (next_handle t) = None")
    case True
    then show ?thesis by (subst allocate_id_unfold) auto
  next
    case False
    let ?t = "t\<lparr>next_handle := next_handle t + 1\<rparr>"
    have "f - next_handle t \<noteq> 0" using False less.prems by auto
    then have "unat (f - (next_handle t + 1)) < unat (f - next_handle t)"
      by (metis diff_diff_eq measure_unat)
    then have "\<exists>h n. allocate_id ?t = Some (?t\<lparr>next_handle := n\<rparr>, h) \<and> h \<noteq> 0 \<and>
        bt_get (entries ?t) h = None"
      using less.prems by (intro less.hyps) simp_all
    then show ?thesis using False by (subst allocate_id_unfold) auto
  qed
qed

lemma free_handle_exists:
  assumes "length (entries t) < 2 ^ 32 - 1"
  shows "\<exists>f :: u32. f \<noteq> 0 \<and> bt_get (entries t) f = None"
proof (rule ccontr)
  assume "\<not> ?thesis"
  then have "UNIV \<subseteq> insert 0 (bt_keys (entries t))" by (auto simp: bt_get_None_iff)
  then have "card (UNIV :: u32 set) \<le> card (insert 0 (bt_keys (entries t)))"
    by (intro card_mono) auto
  also have "\<dots> \<le> Suc (card (bt_keys (entries t)))" by (rule card_insert_le_m1) auto
  also have "card (bt_keys (entries t)) \<le> length (entries t)"
    unfolding bt_keys_def by (metis card_length length_map set_map)
  finally show False using assms by (simp add: card_word)
qed

lemma handle_insert_spec:
  assumes "length (entries t) < 2 ^ 32 - 1"
  shows "\<exists>h n. handle_insert obj r t =
      Some (t\<lparr>next_handle := n, entries := bt_put h \<lparr>object = obj, rights = r AND RIGHTS_ALL\<rparr> (entries t)\<rparr>, h) \<and>
    h \<noteq> 0 \<and> bt_get (entries t) h = None"
proof -
  obtain f :: u32 where "f \<noteq> 0" "bt_get (entries t) f = None" using free_handle_exists [OF assms] by auto
  from allocate_id_reaches [OF this] show ?thesis by (auto simp: handle_insert_def)
qed

section \<open>Every operation keeps the invariant\<close>

lemma handle_table_new_ok: "handle_table_ok handle_table_new"
  by (simp add: handle_table_ok_def handle_table_new_def)

lemma handle_insert_ok:
  assumes "handle_table_ok t" "handle_insert obj r t = Some (t', h)"
  shows "handle_table_ok t'"
  using assms(1) handle_insert_Some [OF assms(2)]
  by (auto simp: handle_table_ok_def split: if_splits)

lemma handle_remove_ok: "handle_table_ok t \<Longrightarrow> handle_table_ok (fst (handle_remove h t))"
  by (auto simp: handle_table_ok_def handle_remove_def split: option.splits if_splits)

lemma entry_update_ok:
  assumes "handle_table_ok t" "\<And>e. rights (f e) = rights e"
  shows "handle_table_ok (entry_update h f t)"
  using assms by (auto simp: handle_table_ok_def entry_update_def bt_get_in_keys split: option.splits)

lemma drain_objects_ok: "handle_table_ok t \<Longrightarrow> handle_table_ok (fst (drain_objects t))"
  by (simp add: handle_table_ok_def drain_objects_def)

lemma handle_duplicate_ok:
  assumes "handle_table_ok t" "handle_duplicate h r t = Some (t', res)"
  shows "handle_table_ok t'"
  using assms handle_insert_ok [OF assms(1)]
  by (auto simp: handle_duplicate_def Let_def split: sum.splits option.splits if_splits)

section \<open>Properties\<close>

text \<open>
  C12. Publishing an object always succeeds on a table with fewer than $2^{32} - 1$ handles: the id
  search terminates with a nonzero handle that was not in use, the new entry holds the object
  with the requested rights cut down to the known ones, and every other handle is untouched.
\<close>
theorem handle_insert_fresh:
  assumes "handle_table_ok t" "length (entries t) < 2 ^ 32 - 1"
  shows "\<exists>t' h. handle_insert obj r t = Some (t', h) \<and> h \<noteq> 0 \<and> handle_get h t = Inl BadHandle \<and>
    handle_table_ok t' \<and> handle_get h t' = Inr \<lparr>object = obj, rights = r AND RIGHTS_ALL\<rparr> \<and>
    (\<forall>k. k \<noteq> h \<longrightarrow> handle_get k t' = handle_get k t)"
proof -
  obtain h n where ins: "handle_insert obj r t =
      Some (t\<lparr>next_handle := n, entries := bt_put h \<lparr>object = obj, rights = r AND RIGHTS_ALL\<rparr> (entries t)\<rparr>, h)"
      and h: "h \<noteq> 0" "bt_get (entries t) h = None"
    using handle_insert_spec [OF assms(2), of obj r] by auto
  from handle_insert_ok [OF assms(1) ins] ins h show ?thesis
    by (simp add: handle_get_def)
qed

theorem handle_insert_fresh_witness:
  "\<exists>t' h. handle_insert (Endpoint 7) RIGHT_SIGNAL handle_table_new = Some (t', h) \<and> h \<noteq> 0 \<and>
     handle_get h t' = Inr \<lparr>object = Endpoint 7, rights = RIGHT_SIGNAL AND RIGHTS_ALL\<rparr>"
  using handle_insert_fresh [OF handle_table_new_ok, of "Endpoint 7" RIGHT_SIGNAL]
  by (auto simp: handle_table_new_def)

text \<open>
  Rights can only be narrowed: duplicating a handle fails with a bad-handle error when it does
  not exist and with an access error when any requested known right is missing from the original;
  otherwise the copy refers to the same object with exactly the requested known rights, all of
  them held by the original, and the original entry is unchanged.
\<close>
lemma handle_duplicate_narrows:
  assumes "handle_table_ok t" "length (entries t) < 2 ^ 32 - 1"
  shows "case handle_get h t of
      Inl e \<Rightarrow> handle_duplicate h r t = Some (t, Inl BadHandle)
    | Inr cur \<Rightarrow>
        if rights_within (r AND RIGHTS_ALL) (rights cur)
        then \<exists>t' h'. handle_duplicate h r t = Some (t', Inr h') \<and> h' \<noteq> h \<and>
          handle_get h t' = Inr cur \<and>
          handle_get h' t' = Inr \<lparr>object = object cur, rights = r AND RIGHTS_ALL\<rparr>
        else handle_duplicate h r t = Some (t, Inl AccessDenied)"
proof (cases "bt_get (entries t) h")
  case None
  then show ?thesis by (simp add: handle_get_def handle_duplicate_def)
next
  case (Some cur)
  obtain h' n where ins: "handle_insert (object cur) (r AND RIGHTS_ALL) t =
      Some (t\<lparr>next_handle := n, entries := bt_put h' \<lparr>object = object cur,
              rights = r AND RIGHTS_ALL AND RIGHTS_ALL\<rparr> (entries t)\<rparr>, h')"
      and h': "h' \<noteq> 0" "bt_get (entries t) h' = None"
    using handle_insert_spec [OF assms(2), of "object cur" "r AND RIGHTS_ALL"] by auto
  have "h' \<noteq> h" using Some h' by auto
  with Some ins show ?thesis
    by (auto simp: handle_get_def handle_duplicate_def Let_def rights_within_def and.assoc)
qed

lemma handle_duplicate_narrows_witness:
  "let t = \<lparr>entries = [(1, \<lparr>object = Memory [0], rights = RIGHT_READ\<rparr>)], next_handle = 2\<rparr>
   in handle_duplicate 1 RIGHT_WRITE t = Some (t, Inl AccessDenied) \<and>
      (\<exists>t' h'. handle_duplicate 1 RIGHT_READ t = Some (t', Inr h') \<and> h' \<noteq> 1)"
proof -
  let ?t = "\<lparr>entries = [(1, \<lparr>object = Memory [0], rights = RIGHT_READ\<rparr>)], next_handle = 2\<rparr>"
  have ok: "handle_table_ok ?t"
    by (auto simp: handle_table_ok_def bt_ok_Cons rights_within_def RIGHTS_ALL_def RIGHT_READ_def
        RIGHT_WRITE_def RIGHT_MAP_def RIGHT_SIGNAL_def RIGHT_TRANSFER_def RIGHT_DISPLAY_MASTER_def
        RIGHT_INPUT_MASTER_def split: if_splits)
  show ?thesis
    using handle_duplicate_narrows [OF ok, of 1 RIGHT_WRITE] handle_duplicate_narrows [OF ok, of 1 RIGHT_READ]
    by (simp add: handle_get_def rights_within_def RIGHTS_ALL_def RIGHT_READ_def
        RIGHT_WRITE_def RIGHT_MAP_def RIGHT_SIGNAL_def RIGHT_TRANSFER_def RIGHT_DISPLAY_MASTER_def
        RIGHT_INPUT_MASTER_def) blast
qed

end
