(* ===== verification/Capabilities.thy ===== *)
theory Capabilities
  imports Handle_Table Pmm "HOL-Library.Multiset"
begin

text \<open>
  Capabilities of processes: the handle operations of \<^verbatim>\<open>kernel/src/process/mod.rs\<close> and the transfer
  system call, over the process table, the owner words of the display and input singletons, the
  registry of shared frame objects and the frame allocator. Executions are an inductive step
  relation; its invariant gives the exactness of the reference counts and the memory safety of
  shared frames. Mapping an object into an address space is not part of this theory; the pages a
  process has mapped appear as the references they hold.
\<close>

section \<open>State\<close>

datatype process_error =
    NoCurrentProcess | NoSuchProcess | NotChild | InvalidFd | FdTableFull | NoAddressSpace
  | AddressSpaceCreateFailed | NoKernelStack | InvalidUserContext | ProcessNotPrepared
  | ProcessAlreadyExists | NotRunnable | SchedulerUnavailable | InvalidMemoryRange | AddressInUse
  | OutOfMemory

record shared_vm_object =
  so_frames :: "usize list"
  so_refs :: usize

record cap_globals =
  display_owner :: u64
  input_owner :: u64
  shared_objects :: "(u64, shared_vm_object) btree"
  next_shared_vm_id :: u64
  g_pmm :: "pmm option"

record cap_process =
  cp_pid :: u64
  cp_is_kernel :: bool
  handles :: handle_table
  pending_signals :: u64
  shared_owned :: "u64 list"
  shared_pages :: "(usize, u64) btree"

record cap_record =
  cr_owner :: "u64 option"
  cr_process :: "cap_process option"

record cap_state =
  records :: "(u64, cap_record) btree"
  globals :: cap_globals

section \<open>Shared frame objects\<close>

definition MAX_SHARED_VM :: nat where
  "MAX_SHARED_VM = 16 * 1024 * 1024"

definition shared_vm_release :: "u64 \<Rightarrow> usize \<Rightarrow> cap_globals \<Rightarrow> cap_globals" where
  "shared_vm_release sid cnt g =
     (case bt_get (shared_objects g) sid of
        None \<Rightarrow> g
      | Some obj \<Rightarrow>
          let r = wrap_sub (so_refs obj) cnt
          in if r = 0
             then g\<lparr>shared_objects := bt_del sid (shared_objects g),
                     g_pmm := map_option (fold free_frame (so_frames obj)) (g_pmm g)\<rparr>
             else g\<lparr>shared_objects := bt_put sid (obj\<lparr>so_refs := r\<rparr>) (shared_objects g)\<rparr>)"

definition alloc_shared_vm_object :: "usize \<Rightarrow> cap_globals \<Rightarrow> cap_globals \<times> (process_error + u64)" where
  "alloc_shared_vm_object len g =
     (case checked_add len (PAGE_SIZE - 1) of
        None \<Rightarrow> (g, Inl InvalidMemoryRange)
      | Some v \<Rightarrow>
          let len = align_down v PAGE_SIZE
          in if len = 0 \<or> MAX_SHARED_VM < len then (g, Inl InvalidMemoryRange)
             else
               case g_pmm g of
                 None \<Rightarrow> (g, Inl OutOfMemory)
               | Some m \<Rightarrow>
                   (case take_frames alloc_frame free_frame (len div PAGE_SIZE) [] m of
                      (m', None) \<Rightarrow> (g\<lparr>g_pmm := Some m'\<rparr>, Inl OutOfMemory)
                    | (m', Some frames) \<Rightarrow>
                        let sid = next_shared_vm_id g
                        in (g\<lparr>g_pmm := Some m', next_shared_vm_id := sid + 1,
                              shared_objects := bt_put sid \<lparr>so_frames = frames, so_refs = 1\<rparr>
                                (shared_objects g)\<rparr>, Inr sid)))"

definition shared_vm_retain :: "u64 \<Rightarrow> cap_globals \<Rightarrow> cap_globals" where
  "shared_vm_retain sid g =
     (case bt_get (shared_objects g) sid of
        None \<Rightarrow> g
      | Some obj \<Rightarrow>
          g\<lparr>shared_objects := bt_put sid (obj\<lparr>so_refs := wrap_add (so_refs obj) 1\<rparr>) (shared_objects g)\<rparr>)"

section \<open>Handle operations of a process\<close>

text \<open>An operation that inserts into the handle table returns nothing when the id search does
  not end.\<close>

definition put_handle :: "handle_object \<Rightarrow> u32 \<Rightarrow> cap_process \<Rightarrow> (cap_process \<times> u32) option" where
  "put_handle obj r p =
     (case handle_insert obj r (handles p) of
        None \<Rightarrow> None | Some (t, h) \<Rightarrow> Some (p\<lparr>handles := t\<rparr>, h))"

definition RIGHTS_MEMORY :: u32 where
  "RIGHTS_MEMORY = RIGHT_READ OR RIGHT_WRITE OR RIGHT_MAP OR RIGHT_TRANSFER"

definition handle_create_memory :: "usize \<Rightarrow> cap_process \<Rightarrow> (cap_process \<times> (handle_error + u32)) option" where
  "handle_create_memory len p =
     (if len = 0 \<or> MAX_MEMORY_OBJECT < len then Some (p, Inl TooLarge)
      else
        case put_handle (Memory (replicate len 0)) RIGHTS_MEMORY p of
          None \<Rightarrow> None | Some (p', h) \<Rightarrow> Some (p', Inr h))"

definition handle_create_endpoint :: "u64 \<Rightarrow> cap_process \<Rightarrow> (cap_process \<times> u32) option" where
  "handle_create_endpoint target p = put_handle (Endpoint target) (RIGHT_SIGNAL OR RIGHT_TRANSFER) p"

definition handle_rights :: "u32 \<Rightarrow> cap_process \<Rightarrow> handle_error + u32" where
  "handle_rights h p = rights_of h (handles p)"

fun is_exclusive :: "handle_object \<Rightarrow> bool" where
  "is_exclusive Display = True"
| "is_exclusive Input = True"
| "is_exclusive _ = False"

definition handle_dup ::
  "u32 \<Rightarrow> u32 \<Rightarrow> cap_process \<Rightarrow> cap_globals \<Rightarrow> (cap_process \<times> cap_globals \<times> (handle_error + u32)) option" where
  "handle_dup h new_rights p g =
     (if (case handle_get h (handles p) of Inr entry \<Rightarrow> is_exclusive (object entry) | Inl _ \<Rightarrow> False)
      then Some (p, g, Inl WrongType)
      else
        case handle_duplicate h new_rights (handles p) of
          None \<Rightarrow> None
        | Some (t, Inl e) \<Rightarrow> Some (p\<lparr>handles := t\<rparr>, g, Inl e)
        | Some (t, Inr new) \<Rightarrow>
            let g' = (case handle_get new t of
                        Inr entry \<Rightarrow>
                          (case object entry of SharedFrames sid \<Rightarrow> shared_vm_retain sid g | _ \<Rightarrow> g)
                      | Inl _ \<Rightarrow> g)
            in Some (p\<lparr>handles := t\<rparr>, g', Inr new))"

definition handle_create_shared ::
  "usize \<Rightarrow> cap_process \<Rightarrow> cap_globals \<Rightarrow> (cap_process \<times> cap_globals \<times> (handle_error + u32)) option" where
  "handle_create_shared len p g =
     (if cp_is_kernel p then Some (p, g, Inl WrongType)
      else
        case alloc_shared_vm_object len g of
          (g', Inl e) \<Rightarrow> Some (p, g', Inl (if e = OutOfMemory then MapFailed else TooLarge))
        | (g', Inr sid) \<Rightarrow>
            (case put_handle (SharedFrames sid) RIGHTS_MEMORY p of
               None \<Rightarrow> None | Some (p', h) \<Rightarrow> Some (p', g', Inr h)))"

fun release_object :: "u64 \<Rightarrow> handle_object \<Rightarrow> cap_globals \<Rightarrow> cap_globals" where
  "release_object pid Display g = g\<lparr>display_owner := release_owner pid (display_owner g)\<rparr>"
| "release_object pid Input g = g\<lparr>input_owner := release_owner pid (input_owner g)\<rparr>"
| "release_object pid (SharedFrames sid) g = shared_vm_release sid 1 g"
| "release_object pid (Memory _) g = g"
| "release_object pid (Endpoint _) g = g"

definition handle_close ::
  "u32 \<Rightarrow> cap_process \<Rightarrow> cap_globals \<Rightarrow> cap_process \<times> cap_globals \<times> (handle_error + unit)" where
  "handle_close h p g =
     (case handle_remove h (handles p) of
        (t, Inl e) \<Rightarrow> (p\<lparr>handles := t\<rparr>, g, Inl e)
      | (t, Inr entry) \<Rightarrow> (p\<lparr>handles := t\<rparr>, release_object (cp_pid p) (object entry) g, Inr ()))"

definition handle_memory_read :: "u32 \<Rightarrow> bytes \<Rightarrow> cap_process \<Rightarrow> bytes \<times> (handle_error + usize)" where
  "handle_memory_read h out p =
     (case require h RIGHT_READ (handles p) of
        Inl e \<Rightarrow> (out, Inl e)
      | Inr entry \<Rightarrow>
          (case object entry of
             Memory data \<Rightarrow>
               let n = min (length out) (length data) in (copy_at 0 (take n data) out, Inr n)
           | _ \<Rightarrow> (out, Inl WrongType)))"

definition handle_memory_write :: "u32 \<Rightarrow> bytes \<Rightarrow> cap_process \<Rightarrow> cap_process \<times> (handle_error + usize)" where
  "handle_memory_write h src p =
     (case require h RIGHT_WRITE (handles p) of
        Inl e \<Rightarrow> (p, Inl e)
      | Inr entry \<Rightarrow>
          (case object entry of
             Memory data \<Rightarrow>
               let n = min (length src) (length data)
               in (p\<lparr>handles := entry_update h (\<lambda>e. e\<lparr>object := Memory (copy_at 0 (take n src) data)\<rparr>)
                      (handles p)\<rparr>, Inr n)
           | _ \<Rightarrow> (p, Inl WrongType)))"

definition handle_shared_len :: "u32 \<Rightarrow> cap_process \<Rightarrow> cap_globals \<Rightarrow> handle_error + usize" where
  "handle_shared_len h p g =
     (case handle_get h (handles p) of
        Inl e \<Rightarrow> Inl e
      | Inr entry \<Rightarrow>
          (case object entry of
             SharedFrames sid \<Rightarrow>
               (case bt_get (shared_objects g) sid of
                  None \<Rightarrow> Inl BadHandle
                | Some obj \<Rightarrow> Inr (wrap_mul (length (so_frames obj)) PAGE_SIZE))
           | _ \<Rightarrow> Inl WrongType))"

definition add_pending_signal :: "u64 \<Rightarrow> cap_process \<Rightarrow> cap_process" where
  "add_pending_signal value p =
     p\<lparr>pending_signals := of_nat (sat_add (unat (pending_signals p)) (unat value))\<rparr>"

definition handle_take_signals :: "cap_process \<Rightarrow> cap_process \<times> u64" where
  "handle_take_signals p = (p\<lparr>pending_signals := 0\<rparr>, pending_signals p)"

definition handle_display_acquire ::
  "cap_process \<Rightarrow> cap_globals \<Rightarrow> (cap_process \<times> cap_globals \<times> (handle_error + u32)) option" where
  "handle_display_acquire p g =
     (case try_acquire (cp_pid p) (display_owner g) of
        (cell, False) \<Rightarrow> Some (p, g\<lparr>display_owner := cell\<rparr>, Inl DisplayBusy)
      | (cell, True) \<Rightarrow>
          (case put_handle Display RIGHT_DISPLAY_MASTER p of
             None \<Rightarrow> None | Some (p', h) \<Rightarrow> Some (p', g\<lparr>display_owner := cell\<rparr>, Inr h)))"

definition handle_input_acquire ::
  "cap_process \<Rightarrow> cap_globals \<Rightarrow> (cap_process \<times> cap_globals \<times> (handle_error + u32)) option" where
  "handle_input_acquire p g =
     (case try_acquire (cp_pid p) (input_owner g) of
        (cell, False) \<Rightarrow> Some (p, g\<lparr>input_owner := cell\<rparr>, Inl DisplayBusy)
      | (cell, True) \<Rightarrow>
          (case put_handle Input RIGHT_INPUT_MASTER p of
             None \<Rightarrow> None | Some (p', h) \<Rightarrow> Some (p', g\<lparr>input_owner := cell\<rparr>, Inr h)))"

definition handle_take_for_transfer ::
  "u32 \<Rightarrow> cap_process \<Rightarrow> cap_process \<times> (handle_error + handle_object \<times> u32)" where
  "handle_take_for_transfer h p =
     (case require h RIGHT_TRANSFER (handles p) of
        Inl e \<Rightarrow> (p, Inl e)
      | Inr entry \<Rightarrow>
          if is_exclusive (object entry) then (p, Inl WrongType)
          else
            case take_for_transfer h (handles p) of (t, r) \<Rightarrow> (p\<lparr>handles := t\<rparr>, r))"

definition handle_receive :: "handle_object \<Rightarrow> u32 \<Rightarrow> cap_process \<Rightarrow> (cap_process \<times> u32) option" where
  "handle_receive obj r p = put_handle obj r p"

definition create_shared_vm :: "usize \<Rightarrow> cap_process \<Rightarrow> cap_globals \<Rightarrow>
    cap_process \<times> cap_globals \<times> (process_error + u64)" where
  "create_shared_vm len p g =
     (if cp_is_kernel p \<or> len = 0 then (p, g, Inl InvalidMemoryRange)
      else
        case alloc_shared_vm_object len g of
          (g', Inl e) \<Rightarrow> (p, g', Inl e)
        | (g', Inr sid) \<Rightarrow> (p\<lparr>shared_owned := shared_owned p @ [sid]\<rparr>, g', Inr sid))"

definition close_shared_vm :: "u64 \<Rightarrow> cap_process \<Rightarrow> cap_globals \<Rightarrow>
    cap_process \<times> cap_globals \<times> (process_error + unit)" where
  "close_shared_vm sid p g =
     (case position (\<lambda>owned. owned = sid) (shared_owned p) of
        None \<Rightarrow> (p, g, Inl InvalidMemoryRange)
      | Some index \<Rightarrow>
          (p\<lparr>shared_owned := swap_remove index (shared_owned p)\<rparr>, shared_vm_release sid 1 g, Inr ()))"

text \<open>Teardown of the references a process holds; the address space and the pseudo terminals it
  masters are torn down by their own components.\<close>

definition release_vm_resources :: "cap_process \<Rightarrow> cap_globals \<Rightarrow> cap_process \<times> cap_globals" where
  "release_vm_resources p g =
     (let g1 = fold (\<lambda>(page, sid). shared_vm_release sid 1) (shared_pages p) g;
          g2 = fold (\<lambda>sid. shared_vm_release sid 1) (shared_owned p) g1
      in case drain_objects (handles p) of
           (t, objs) \<Rightarrow>
             (p\<lparr>shared_pages := [], shared_owned := [], handles := t\<rparr>,
              fold (release_object (cp_pid p)) objs g2))"

section \<open>Operations across processes\<close>

definition EBADF :: int where "EBADF = -9"
definition EPERM :: int where "EPERM = -1"
definition EINVAL :: int where "EINVAL = -22"
definition EBUSY :: int where "EBUSY = -16"
definition ENOMEM :: int where "ENOMEM = -12"
definition ENOENT :: int where "ENOENT = -2"

fun handle_error_to_errno :: "handle_error \<Rightarrow> int" where
  "handle_error_to_errno BadHandle = EBADF"
| "handle_error_to_errno AccessDenied = EPERM"
| "handle_error_to_errno WrongType = EINVAL"
| "handle_error_to_errno DisplayBusy = EBUSY"
| "handle_error_to_errno TooLarge = EINVAL"
| "handle_error_to_errno MapFailed = ENOMEM"
| "handle_error_to_errno NoSuchTarget = ENOENT"

definition proc_of :: "cap_state \<Rightarrow> u64 \<Rightarrow> cap_process option" where
  "proc_of s pid = (case bt_get (records s) pid of None \<Rightarrow> None | Some r \<Rightarrow> cr_process r)"

definition set_proc :: "u64 \<Rightarrow> cap_process \<Rightarrow> cap_state \<Rightarrow> cap_state" where
  "set_proc pid p s =
     (case bt_get (records s) pid of
        None \<Rightarrow> s | Some r \<Rightarrow> s\<lparr>records := bt_put pid (r\<lparr>cr_process := Some p\<rparr>) (records s)\<rparr>)"

definition with_process_mut ::
  "u64 \<Rightarrow> (cap_process \<Rightarrow> (cap_process \<times> 'a) option) \<Rightarrow> cap_state \<Rightarrow> (cap_state \<times> (process_error + 'a)) option" where
  "with_process_mut pid f s =
     (case bt_get (records s) pid of
        None \<Rightarrow> Some (s, Inl NoSuchProcess)
      | Some r \<Rightarrow>
          (case cr_process r of
             None \<Rightarrow> Some (s, Inl ProcessNotPrepared)
           | Some p \<Rightarrow>
               (case f p of None \<Rightarrow> None | Some (p', v) \<Rightarrow> Some (set_proc pid p' s, Inr v))))"

definition process_exists :: "u64 \<Rightarrow> cap_state \<Rightarrow> bool" where
  "process_exists pid s =
     (case bt_get (records s) pid of None \<Rightarrow> False | Some r \<Rightarrow> cr_owner r = None)"

definition handle_signal :: "u64 \<Rightarrow> u32 \<Rightarrow> u64 \<Rightarrow> cap_state \<Rightarrow> cap_state \<times> (handle_error + unit)" where
  "handle_signal pid h value s =
     (case proc_of s pid of
        None \<Rightarrow> (s, Inl BadHandle)
      | Some p \<Rightarrow>
          (case require h RIGHT_SIGNAL (handles p) of
             Inl e \<Rightarrow> (s, Inl e)
           | Inr entry \<Rightarrow>
               (case object entry of
                  Endpoint target \<Rightarrow>
                    if target = pid then (set_proc pid (add_pending_signal value p) s, Inr ())
                    else
                      (case with_process_mut target (\<lambda>q. Some (add_pending_signal value q, ())) s of
                         Some (s', Inr _) \<Rightarrow> (s', Inr ())
                       | Some (s', Inl _) \<Rightarrow> (s', Inl NoSuchTarget)
                       | None \<Rightarrow> (s, Inl NoSuchTarget))
                | _ \<Rightarrow> (s, Inl WrongType))))"

definition sys_handle_transfer :: "u64 \<Rightarrow> u32 \<Rightarrow> u64 \<Rightarrow> cap_state \<Rightarrow> (cap_state \<times> int) option" where
  "sys_handle_transfer self_pid h target s =
     (case proc_of s self_pid of
        None \<Rightarrow> Some (s, EINVAL)
      | Some p \<Rightarrow>
          if target \<noteq> self_pid \<and> \<not> process_exists target s then Some (s, ENOENT)
          else
            case handle_take_for_transfer h p of
              (p', Inl e) \<Rightarrow> Some (set_proc self_pid p' s, handle_error_to_errno e)
            | (p', Inr (obj, r)) \<Rightarrow>
                if target = self_pid then
                  (case handle_receive obj r p' of
                     None \<Rightarrow> None | Some (p'', new) \<Rightarrow> Some (set_proc self_pid p'' s, uint new))
                else
                  (case with_process_mut target (handle_receive obj r) (set_proc self_pid p' s) of
                     None \<Rightarrow> None
                   | Some (s', Inr new) \<Rightarrow> Some (s', uint new)
                   | Some (s', Inl _) \<Rightarrow> Some (s', ENOENT)))"

text \<open>The operations a process performs on itself, as one dispatcher.\<close>

datatype cap_op =
    CreateMemory usize | CreateEndpoint u64 | Dup u32 u32 | CreateShared usize | Close u32
  | MemoryWrite u32 bytes | TakeSignals | DisplayAcquire | InputAcquire
  | CreateSharedVm usize | CloseSharedVm u64

fun local_op :: "cap_op \<Rightarrow> cap_process \<Rightarrow> cap_globals \<Rightarrow> (cap_process \<times> cap_globals) option" where
  "local_op (CreateMemory n) p g = map_option (\<lambda>(p', r). (p', g)) (handle_create_memory n p)"
| "local_op (CreateEndpoint t) p g = map_option (\<lambda>(p', h). (p', g)) (handle_create_endpoint t p)"
| "local_op (Dup h r) p g = map_option (\<lambda>(p', g', res). (p', g')) (handle_dup h r p g)"
| "local_op (CreateShared n) p g = map_option (\<lambda>(p', g', res). (p', g')) (handle_create_shared n p g)"
| "local_op (Close h) p g = (case handle_close h p g of (p', g', res) \<Rightarrow> Some (p', g'))"
| "local_op (MemoryWrite h src) p g = Some (fst (handle_memory_write h src p), g)"
| "local_op TakeSignals p g = Some (fst (handle_take_signals p), g)"
| "local_op DisplayAcquire p g = map_option (\<lambda>(p', g', res). (p', g')) (handle_display_acquire p g)"
| "local_op InputAcquire p g = map_option (\<lambda>(p', g', res). (p', g')) (handle_input_acquire p g)"
| "local_op (CreateSharedVm n) p g = (case create_shared_vm n p g of (p', g', res) \<Rightarrow> Some (p', g'))"
| "local_op (CloseSharedVm i) p g = (case close_shared_vm i p g of (p', g', res) \<Rightarrow> Some (p', g'))"

definition new_process :: "u64 \<Rightarrow> bool \<Rightarrow> cap_process" where
  "new_process pid is_k =
     \<lparr>cp_pid = pid, cp_is_kernel = is_k, handles = handle_table_new, pending_signals = 0,
      shared_owned = [], shared_pages = []\<rparr>"

definition cap_boot :: "pmm option \<Rightarrow> cap_state" where
  "cap_boot m =
     \<lparr>records = [], globals = \<lparr>display_owner = 0, input_owner = 0, shared_objects = [],
        next_shared_vm_id = 1, g_pmm = m\<rparr>\<rparr>"

section \<open>Reference counts\<close>

definition one_if :: "bool \<Rightarrow> nat" where
  "one_if b = (if b then 1 else 0)"

definition handle_refs :: "u64 \<Rightarrow> handle_table \<Rightarrow> nat" where
  "handle_refs sid t = bt_sum (\<lambda>e. one_if (object e = SharedFrames sid)) (entries t)"

definition proc_refs :: "u64 \<Rightarrow> cap_process \<Rightarrow> nat" where
  "proc_refs sid p = handle_refs sid (handles p) + count_list (shared_owned p) sid +
     bt_sum (\<lambda>i. one_if (i = sid)) (shared_pages p)"

definition record_refs :: "u64 \<Rightarrow> cap_record \<Rightarrow> nat" where
  "record_refs sid r = (case cr_process r of None \<Rightarrow> 0 | Some p \<Rightarrow> proc_refs sid p)"

definition total_refs :: "cap_state \<Rightarrow> u64 \<Rightarrow> nat" where
  "total_refs s sid = bt_sum (record_refs sid) (records s)"

text \<open>The frames of shared objects: allocated, and owned by one object each.\<close>

definition objects_ok :: "pmm \<Rightarrow> (u64, shared_vm_object) btree \<Rightarrow> bool" where
  "objects_ok m objs \<longleftrightarrow> pmm_ok m \<and>
     (\<forall>i obj. bt_get objs i = Some obj \<longrightarrow>
        set (so_frames obj) \<subseteq> pool_addrs m \<and> set (so_frames obj) \<inter> free_addrs m = {} \<and>
        distinct (so_frames obj)) \<and>
     (\<forall>i j a b. bt_get objs i = Some a \<longrightarrow> bt_get objs j = Some b \<longrightarrow> i \<noteq> j \<longrightarrow>
        set (so_frames a) \<inter> set (so_frames b) = {})"

definition frames_inv :: "cap_globals \<Rightarrow> bool" where
  "frames_inv g \<longleftrightarrow>
     (case g_pmm g of None \<Rightarrow> shared_objects g = [] | Some m \<Rightarrow> objects_ok m (shared_objects g))"

lemma objects_ok_update_refs:
  assumes "objects_ok m objs" "bt_get objs i = Some obj"
  shows "objects_ok m (bt_put i (obj\<lparr>so_refs := r\<rparr>) objs)"
proof -
  have same: "bt_get (bt_put i (obj\<lparr>so_refs := r\<rparr>) objs) j = Some b \<Longrightarrow>
      \<exists>c. bt_get objs j = Some c \<and> so_frames c = so_frames b" for j b
    using assms(2) by (auto split: if_splits)
  show ?thesis unfolding objects_ok_def
  proof (intro conjI allI impI)
    show "pmm_ok m" using assms(1) by (simp add: objects_ok_def)
  next
    fix j b assume "bt_get (bt_put i (obj\<lparr>so_refs := r\<rparr>) objs) j = Some b"
    then obtain c where c: "bt_get objs j = Some c" "so_frames c = so_frames b" using same by blast
    then show "set (so_frames b) \<subseteq> pool_addrs m" "set (so_frames b) \<inter> free_addrs m = {}"
      "distinct (so_frames b)"
      using assms(1) unfolding objects_ok_def by (simp_all flip: c(2))
  next
    fix j k b c
    assume j: "bt_get (bt_put i (obj\<lparr>so_refs := r\<rparr>) objs) j = Some b"
      and k: "bt_get (bt_put i (obj\<lparr>so_refs := r\<rparr>) objs) k = Some c" and "j \<noteq> k"
    then obtain b' c' where "bt_get objs j = Some b'" "so_frames b' = so_frames b"
      "bt_get objs k = Some c'" "so_frames c' = so_frames c" using same by blast
    then show "set (so_frames b) \<inter> set (so_frames c) = {}"
      using assms(1) \<open>j \<noteq> k\<close> unfolding objects_ok_def by metis
  qed
qed

lemma objects_ok_remove:
  assumes ok: "objects_ok m objs" and get: "bt_get objs i = Some obj"
  shows "objects_ok (fold free_frame (so_frames obj) m) (bt_del i objs)"
proof -
  have sub: "pmm_ok m" "set (so_frames obj) \<subseteq> pool_addrs m" using ok get by (auto simp: objects_ok_def)
  note freed = frames.dealloc_all [OF sub]
  have other: "bt_get objs j = Some b \<Longrightarrow> j \<noteq> i \<Longrightarrow> set (so_frames b) \<inter> set (so_frames obj) = {}" for j b
    using ok get unfolding objects_ok_def by blast
  have mine: "bt_get objs j = Some b \<Longrightarrow> set (so_frames b) \<subseteq> pool_addrs m \<and>
      set (so_frames b) \<inter> free_addrs m = {} \<and> distinct (so_frames b)" for j b
    using ok unfolding objects_ok_def by blast
  have pair: "bt_get objs j = Some b \<Longrightarrow> bt_get objs k = Some c \<Longrightarrow> j \<noteq> k \<Longrightarrow>
      set (so_frames b) \<inter> set (so_frames c) = {}" for j k b c
    using ok unfolding objects_ok_def by blast
  show ?thesis unfolding objects_ok_def
  proof (intro conjI allI impI)
    show "pmm_ok (fold free_frame (so_frames obj) m)" using freed by simp
  next
    fix j b assume "bt_get (bt_del i objs) j = Some b"
    then have j: "bt_get objs j = Some b" "j \<noteq> i" by (auto split: if_splits)
    show "set (so_frames b) \<subseteq> pool_addrs (fold free_frame (so_frames obj) m)"
      "set (so_frames b) \<inter> free_addrs (fold free_frame (so_frames obj) m) = {}"
      "distinct (so_frames b)"
      using mine [OF j(1)] other [OF j] freed by auto
  next
    fix j k b c
    assume "bt_get (bt_del i objs) j = Some b" "bt_get (bt_del i objs) k = Some c" "j \<noteq> k"
    then show "set (so_frames b) \<inter> set (so_frames c) = {}" using pair by (simp split: if_splits)
  qed
qed

lemma objects_ok_add:
  assumes ok: "objects_ok m objs" and fresh: "bt_get objs i = None"
    and take: "take_frames alloc_frame free_frame n [] m = (m', Some fs)"
  shows "objects_ok m' (bt_put i \<lparr>so_frames = fs, so_refs = r\<rparr> objs)"
proof -
  have "pmm_ok m" using ok by (simp add: objects_ok_def)
  note new = frames.take_frames_Some [OF this take] frames.avail_pool [OF this]
  have mine: "bt_get objs j = Some b \<Longrightarrow> set (so_frames b) \<subseteq> pool_addrs m \<and>
      set (so_frames b) \<inter> free_addrs m = {} \<and> distinct (so_frames b)" for j b
    using ok unfolding objects_ok_def by blast
  have pair: "bt_get objs j = Some b \<Longrightarrow> bt_get objs k = Some c \<Longrightarrow> j \<noteq> k \<Longrightarrow>
      set (so_frames b) \<inter> set (so_frames c) = {}" for j k b c
    using ok unfolding objects_ok_def by blast
  show ?thesis unfolding objects_ok_def
  proof (intro conjI allI impI)
    show "pmm_ok m'" using new by simp
  next
    fix j b assume j: "bt_get (bt_put i \<lparr>so_frames = fs, so_refs = r\<rparr> objs) j = Some b"
    show "set (so_frames b) \<subseteq> pool_addrs m'" "set (so_frames b) \<inter> free_addrs m' = {}"
      "distinct (so_frames b)"
      using j new mine [of j b] by (auto split: if_splits)
  next
    fix j k b c
    assume j: "bt_get (bt_put i \<lparr>so_frames = fs, so_refs = r\<rparr> objs) j = Some b"
      and k: "bt_get (bt_put i \<lparr>so_frames = fs, so_refs = r\<rparr> objs) k = Some c" and "j \<noteq> k"
    then show "set (so_frames b) \<inter> set (so_frames c) = {}"
      using new mine [of j b] mine [of k c] pair [of j b k c] by (auto split: if_splits)
  qed
qed

lemma objects_ok_same_free:
  assumes "objects_ok m objs" "pmm_ok m'" "pool_addrs m' = pool_addrs m" "free_addrs m' = free_addrs m"
  shows "objects_ok m' objs"
  using assms by (simp add: objects_ok_def)

text \<open>The registry against the number \<open>R i\<close> of outstanding references to each object.\<close>

definition registry_inv :: "(u64 \<Rightarrow> nat) \<Rightarrow> cap_globals \<Rightarrow> bool" where
  "registry_inv R g \<longleftrightarrow> bt_ok (shared_objects g) \<and>
     (\<forall>i obj. bt_get (shared_objects g) i = Some obj \<longrightarrow> so_refs obj = R i \<and> 0 < R i) \<and>
     (\<forall>i. bt_get (shared_objects g) i = None \<longrightarrow> R i = 0) \<and>
     (\<forall>i. next_shared_vm_id g \<le> i \<longrightarrow> bt_get (shared_objects g) i = None) \<and> frames_inv g"

definition refs_small :: "(u64 \<Rightarrow> nat) \<Rightarrow> cap_globals \<Rightarrow> bool" where
  "refs_small R g \<longleftrightarrow> (\<forall>i. R i + 1 < usize_modulus) \<and> unat (next_shared_vm_id g) + 1 < 2 ^ 64"

lemma registry_inv_owner [simp]:
  "registry_inv R (g\<lparr>display_owner := x\<rparr>) \<longleftrightarrow> registry_inv R g"
  "registry_inv R (g\<lparr>input_owner := x\<rparr>) \<longleftrightarrow> registry_inv R g"
  by (simp_all add: registry_inv_def frames_inv_def split: option.split)

lemma registry_live: "registry_inv R g \<Longrightarrow> 0 < R i \<Longrightarrow>
    \<exists>obj. bt_get (shared_objects g) i = Some obj \<and> so_refs obj = R i"
  by (cases "bt_get (shared_objects g) i") (auto simp: registry_inv_def)

lemma frames_inv_update_refs:
  "bt_get (shared_objects g) i = Some obj \<Longrightarrow> frames_inv g \<Longrightarrow>
     frames_inv (g\<lparr>shared_objects := bt_put i (obj\<lparr>so_refs := r\<rparr>) (shared_objects g)\<rparr>)"
  by (cases "g_pmm g") (auto simp: frames_inv_def objects_ok_update_refs)

lemma frames_inv_remove:
  "bt_get (shared_objects g) i = Some obj \<Longrightarrow> frames_inv g \<Longrightarrow>
     frames_inv (g\<lparr>shared_objects := bt_del i (shared_objects g),
       g_pmm := map_option (fold free_frame (so_frames obj)) (g_pmm g)\<rparr>)"
  by (cases "g_pmm g") (auto simp: frames_inv_def objects_ok_remove)

lemma registry_invD:
  assumes "registry_inv R g"
  shows "bt_ok (shared_objects g)" "frames_inv g"
    "\<And>i obj. bt_get (shared_objects g) i = Some obj \<Longrightarrow> so_refs obj = R i \<and> 0 < R i"
    "\<And>i. bt_get (shared_objects g) i = None \<Longrightarrow> R i = 0"
    "\<And>i. next_shared_vm_id g \<le> i \<Longrightarrow> bt_get (shared_objects g) i = None"
  using assms by (auto simp: registry_inv_def)

lemma registry_invI:
  assumes "bt_ok (shared_objects g)" "frames_inv g"
    "\<And>i obj. bt_get (shared_objects g) i = Some obj \<Longrightarrow> so_refs obj = R i \<and> 0 < R i"
    "\<And>i. bt_get (shared_objects g) i = None \<Longrightarrow> R i = 0"
    "\<And>i. next_shared_vm_id g \<le> i \<Longrightarrow> bt_get (shared_objects g) i = None"
  shows "registry_inv R g"
  using assms by (auto simp: registry_inv_def)

text \<open>Changing the count of one live object.\<close>

lemma registry_set_refs:
  assumes inv: "registry_inv R g" and get: "bt_get (shared_objects g) i = Some obj" and pos: "0 < n"
  shows "registry_inv (R(i := n))
    (g\<lparr>shared_objects := bt_put i (obj\<lparr>so_refs := n\<rparr>) (shared_objects g)\<rparr>)"
proof (rule registry_invI)
  note I = registry_invD [OF inv]
  let ?g = "g\<lparr>shared_objects := bt_put i (obj\<lparr>so_refs := n\<rparr>) (shared_objects g)\<rparr>"
  show "bt_ok (shared_objects ?g)" using I(1) by simp
  show "frames_inv ?g" using get I(2) by (rule frames_inv_update_refs)
  show "so_refs ob = (R(i := n)) j \<and> 0 < (R(i := n)) j" if "bt_get (shared_objects ?g) j = Some ob" for j ob
    using that I(3) [of j ob] pos by (auto split: if_splits)
  show "(R(i := n)) j = 0" if "bt_get (shared_objects ?g) j = None" for j
    using that I(4) [of j] by (auto split: if_splits)
  show "bt_get (shared_objects ?g) j = None" if "next_shared_vm_id ?g \<le> j" for j
    using that I(5) [of j] get by auto
qed

lemma registry_remove:
  assumes inv: "registry_inv R g" and get: "bt_get (shared_objects g) i = Some obj"
  shows "registry_inv (R(i := 0)) (g\<lparr>shared_objects := bt_del i (shared_objects g),
    g_pmm := map_option (fold free_frame (so_frames obj)) (g_pmm g)\<rparr>)"
proof (rule registry_invI)
  note I = registry_invD [OF inv]
  let ?g = "g\<lparr>shared_objects := bt_del i (shared_objects g),
    g_pmm := map_option (fold free_frame (so_frames obj)) (g_pmm g)\<rparr>"
  show "bt_ok (shared_objects ?g)" using I(1) by simp
  show "frames_inv ?g" using get I(2) by (rule frames_inv_remove)
  show "so_refs ob = (R(i := 0)) j \<and> 0 < (R(i := 0)) j" if "bt_get (shared_objects ?g) j = Some ob" for j ob
    using that I(3) [of j ob] by (auto split: if_splits)
  show "(R(i := 0)) j = 0" if "bt_get (shared_objects ?g) j = None" for j
    using that I(4) [of j] by (auto split: if_splits)
  show "bt_get (shared_objects ?g) j = None" if "next_shared_vm_id ?g \<le> j" for j
    using that I(5) [of j] by auto
qed

lemma release_registry:
  assumes inv: "registry_inv R g" and pos: "0 < R i" and small: "R i < usize_modulus"
  shows "registry_inv (R(i := R i - 1)) (shared_vm_release i 1 g)"
proof -
  obtain obj where obj: "bt_get (shared_objects g) i = Some obj" "so_refs obj = R i"
    using registry_live [OF inv pos] by auto
  have r: "wrap_sub (so_refs obj) 1 = R i - 1" using obj pos small by (simp add: wrap_sub_exact)
  show ?thesis
  proof (cases "R i - 1 = 0")
    case True
    then show ?thesis using registry_remove [OF inv obj(1)] obj(1) r
      by (simp add: shared_vm_release_def)
  next
    case False
    then show ?thesis using registry_set_refs [OF inv obj(1), of "R i - 1"] obj(1) r
      by (simp add: shared_vm_release_def)
  qed
qed

lemma retain_registry:
  assumes inv: "registry_inv R g" and pos: "0 < R i" and small: "R i + 1 < usize_modulus"
  shows "registry_inv (R(i := R i + 1)) (shared_vm_retain i g)"
proof -
  obtain obj where obj: "bt_get (shared_objects g) i = Some obj" "so_refs obj = R i"
    using registry_live [OF inv pos] by auto
  then show ?thesis using registry_set_refs [OF inv obj(1), of "R i + 1"] small
    by (simp add: shared_vm_retain_def wrap_add_exact)
qed

lemma alloc_shared_vm_object_cases:
  assumes run: "alloc_shared_vm_object len g = (g', r)"
  obtains (same) e where "r = Inl e" "g' = g"
    | (fail) m m' n where "r = Inl OutOfMemory" "g_pmm g = Some m" "g' = g\<lparr>g_pmm := Some m'\<rparr>"
        "take_frames alloc_frame free_frame n [] m = (m', None)"
    | (new) m m' n fs where "r = Inr (next_shared_vm_id g)" "g_pmm g = Some m"
        "take_frames alloc_frame free_frame n [] m = (m', Some fs)"
        "g' = g\<lparr>g_pmm := Some m', next_shared_vm_id := next_shared_vm_id g + 1,
          shared_objects := bt_put (next_shared_vm_id g) \<lparr>so_frames = fs, so_refs = 1\<rparr> (shared_objects g)\<rparr>"
proof (cases "checked_add len (PAGE_SIZE - 1)")
  case None
  then show ?thesis using run same by (auto simp: alloc_shared_vm_object_def)
next
  case (Some v)
  let ?len = "align_down v PAGE_SIZE"
  show ?thesis
  proof (cases "(?len = 0 \<or> MAX_SHARED_VM < ?len) \<or> g_pmm g = None")
    case True
    then show ?thesis using run same Some
      by (cases "?len = 0 \<or> MAX_SHARED_VM < ?len") (auto simp: alloc_shared_vm_object_def)
  next
    case False
    then obtain m where m: "g_pmm g = Some m" by auto
    obtain m' q where take: "take_frames alloc_frame free_frame (?len div PAGE_SIZE) [] m = (m', q)"
      by fastforce
    show ?thesis
    proof (cases q)
      case None
      then show ?thesis using run False Some m take
        by (intro fail [of m m' "?len div PAGE_SIZE"]) (simp_all add: alloc_shared_vm_object_def)
    next
      case (Some fs)
      then show ?thesis using run False \<open>checked_add len (PAGE_SIZE - 1) = Some v\<close> m take
        by (intro new [of m "?len div PAGE_SIZE" m' fs]) (simp_all add: alloc_shared_vm_object_def Let_def)
    qed
  qed
qed

lemma alloc_registry:
  assumes inv: "registry_inv R g" and small: "unat (next_shared_vm_id g) + 1 < 2 ^ 64"
    and run: "alloc_shared_vm_object len g = (g', r)"
  shows "case r of Inl e \<Rightarrow> registry_inv R g'
    | Inr i \<Rightarrow> R i = 0 \<and> registry_inv (R(i := 1)) g'"
proof -
  note I = registry_invD [OF inv]
  from run show ?thesis
  proof (cases rule: alloc_shared_vm_object_cases)
    case same
    then show ?thesis using inv by simp
  next
    case (fail m m' n)
    have "objects_ok m (shared_objects g)" using I(2) fail by (simp add: frames_inv_def)
    moreover from this have "pmm_ok m" by (simp add: objects_ok_def)
    from frames.take_frames_None [OF this fail(4)]
    have "pmm_ok m'" "pool_addrs m' = pool_addrs m" "free_addrs m' = free_addrs m" by auto
    ultimately have "frames_inv g'" 
      using fail by (simp add: frames_inv_def objects_ok_same_free)
    then show ?thesis using I fail by (auto intro!: registry_invI)
  next
    case (new m m' n fs)
    let ?i = "next_shared_vm_id g"
    have fresh: "bt_get (shared_objects g) ?i = None" using I(5) by simp
    have "objects_ok m (shared_objects g)" using I(2) new by (simp add: frames_inv_def)
    from objects_ok_add [OF this fresh new(3)] have f: "frames_inv g'" by (simp add: frames_inv_def new(4))
    have lt: "?i < ?i + 1" using small by (simp add: word_less_nat_alt unat_word_ariths)
    have "registry_inv (R(?i := 1)) g'"
    proof (rule registry_invI)
      show "bt_ok (shared_objects g')" using I(1) by (simp add: new(4))
      show "frames_inv g'" by (rule f)
      show "so_refs ob = (R(?i := 1)) j \<and> 0 < (R(?i := 1)) j"
        if "bt_get (shared_objects g') j = Some ob" for j ob
        using that I(3) [of j ob] by (auto simp: new(4) split: if_splits)
      show "(R(?i := 1)) j = 0" if "bt_get (shared_objects g') j = None" for j
        using that I(4) [of j] by (auto simp: new(4) split: if_splits)
      show "bt_get (shared_objects g') j = None" if "next_shared_vm_id g' \<le> j" for j
        using that I(5) [of j] lt by (auto simp: new(4))
    qed
    then show ?thesis using new fresh I(4) by simp
  qed
qed

section \<open>Well-formed processes\<close>

text \<open>The rights an object can ever be reached with: those its creator was granted.\<close>

fun object_rights :: "handle_object \<Rightarrow> u32" where
  "object_rights (Memory _) = RIGHTS_MEMORY"
| "object_rights (Endpoint _) = RIGHT_SIGNAL OR RIGHT_TRANSFER"
| "object_rights Display = RIGHT_DISPLAY_MASTER"
| "object_rights Input = RIGHT_INPUT_MASTER"
| "object_rights (SharedFrames _) = RIGHTS_MEMORY"

definition typed_table :: "handle_table \<Rightarrow> bool" where
  "typed_table t \<longleftrightarrow>
     (\<forall>h e. bt_get (entries t) h = Some e \<longrightarrow> rights_within (rights e) (object_rights (object e)))"

definition proc_ok :: "cap_process \<Rightarrow> bool" where
  "proc_ok p \<longleftrightarrow> handle_table_ok (handles p) \<and> typed_table (handles p) \<and> bt_ok (shared_pages p)"

lemma rights_within_and_left: "rights_within a b \<Longrightarrow> rights_within (a AND c) b"
  by (simp add: rights_within_bits bit_and_iff)

lemma one_if_simps [simp]: "one_if True = 1" "one_if False = 0"
  by (simp_all add: one_if_def)

lemma handle_refs_insert:
  assumes "handle_table_ok t" "handle_insert obj r t = Some (t', h)"
  shows "handle_refs i t' = handle_refs i t + one_if (obj = SharedFrames i)"
proof -
  have "bt_ok (entries t)" using assms(1) by (simp add: handle_table_ok_def)
  note put = bt_sum_put [OF this, of "\<lambda>e. one_if (object e = SharedFrames i)" h
      "\<lparr>object = obj, rights = r AND RIGHTS_ALL\<rparr>"]
  obtain n where "t' = t\<lparr>next_handle := n,
      entries := bt_put h \<lparr>object = obj, rights = r AND RIGHTS_ALL\<rparr> (entries t)\<rparr>"
      and "bt_get (entries t) h = None" using handle_insert_Some [OF assms(2)] by blast
  with put show ?thesis by (simp add: handle_refs_def)
qed

lemma typed_insert:
  assumes "typed_table t" "handle_insert obj r t = Some (t', h)" "rights_within r (object_rights obj)"
  shows "typed_table t'"
  using assms(1,3) handle_insert_Some [OF assms(2)]
  by (auto simp: typed_table_def rights_within_and_left split: if_splits)

lemma put_handle_spec:
  assumes ok: "proc_ok p" and run: "put_handle obj r p = Some (p', h)"
    and r: "rights_within r (object_rights obj)"
  shows "proc_ok p' \<and> cp_pid p' = cp_pid p \<and>
    (\<forall>i. proc_refs i p' = proc_refs i p + one_if (obj = SharedFrames i))"
proof -
  obtain t where t: "handle_insert obj r (handles p) = Some (t, h)" "p' = p\<lparr>handles := t\<rparr>"
    using run by (auto simp: put_handle_def split: option.splits)
  have ok': "handle_table_ok (handles p)" "typed_table (handles p)" using ok by (simp_all add: proc_ok_def)
  show ?thesis
    using ok t handle_insert_ok [OF ok'(1) t(1)] typed_insert [OF ok'(2) t(1) r]
      handle_refs_insert [OF ok'(1) t(1)]
    by (simp add: proc_ok_def proc_refs_def)
qed

lemma handle_remove_spec:
  assumes ok: "proc_ok p" and run: "handle_remove h (handles p) = (t, Inr e)"
  shows "proc_ok (p\<lparr>handles := t\<rparr>) \<and> bt_get (entries (handles p)) h = Some e \<and>
    (\<forall>i. proc_refs i (p\<lparr>handles := t\<rparr>) + one_if (object e = SharedFrames i) = proc_refs i p)"
proof -
  have get: "bt_get (entries (handles p)) h = Some e" and
    t: "t = (handles p)\<lparr>entries := bt_del h (entries (handles p))\<rparr>"
    using run by (auto simp: handle_remove_def split: option.splits)
  have ok': "handle_table_ok (handles p)" "typed_table (handles p)" "bt_ok (entries (handles p))"
    using ok by (simp_all add: proc_ok_def handle_table_ok_def)
  have "handle_table_ok t" using handle_remove_ok [OF ok'(1), of h] run by simp
  moreover have "typed_table t" using ok'(2) t by (auto simp: typed_table_def split: if_splits)
  moreover have "handle_refs i t + one_if (object e = SharedFrames i) = handle_refs i (handles p)" for i
    using bt_sum_del [OF ok'(3), of _ h] get by (simp add: handle_refs_def t)
  ultimately show ?thesis using ok get by (simp add: proc_ok_def proc_refs_def)
qed

text \<open>The contract of an operation of one process: it stays well formed, and the registry is
  exact for the references it holds afterwards.\<close>

definition op_effect :: "cap_process \<Rightarrow> cap_globals \<Rightarrow> cap_process \<Rightarrow> cap_globals \<Rightarrow> bool" where
  "op_effect p g p' g' \<longleftrightarrow> proc_ok p' \<and> cp_pid p' = cp_pid p \<and>
     (\<forall>R. registry_inv R g \<longrightarrow> refs_small R g \<longrightarrow> (\<forall>i. proc_refs i p \<le> R i) \<longrightarrow>
        registry_inv (\<lambda>i. R i - proc_refs i p + proc_refs i p') g')"

lemma op_effectI:
  assumes "proc_ok p'" "cp_pid p' = cp_pid p"
    and "\<And>R. registry_inv R g \<Longrightarrow> refs_small R g \<Longrightarrow> (\<And>i. proc_refs i p \<le> R i) \<Longrightarrow>
      registry_inv (\<lambda>i. R i - proc_refs i p + proc_refs i p') g'"
  shows "op_effect p g p' g'"
  using assms by (auto simp: op_effect_def)

text \<open>Operations that leave the references and the registry alone.\<close>

lemma op_effect_same:
  assumes "proc_ok p'" "cp_pid p' = cp_pid p" "\<And>i. proc_refs i p' = proc_refs i p"
    and "\<And>R. registry_inv R g \<Longrightarrow> registry_inv R g'"
  shows "op_effect p g p' g'"
proof (rule op_effectI)
  fix R assume "registry_inv R g" and le: "\<And>i. proc_refs i p \<le> R i"
  moreover have "(\<lambda>i. R i - proc_refs i p + proc_refs i p') = R" using assms(3) le by (simp add: fun_eq_iff)
  ultimately show "registry_inv (\<lambda>i. R i - proc_refs i p + proc_refs i p') g'" using assms(4) by simp
qed (rule assms)+

lemma op_effect_add:
  assumes "proc_ok p'" "cp_pid p' = cp_pid p" "\<And>i. proc_refs i p' = proc_refs i p + one_if (sid = i)"
    and "\<And>R. registry_inv R g \<Longrightarrow> refs_small R g \<Longrightarrow> (\<And>i. proc_refs i p \<le> R i) \<Longrightarrow>
      registry_inv (R(sid := R sid + 1)) g'"
  shows "op_effect p g p' g'"
proof (rule op_effectI)
  fix R assume inv: "registry_inv R g" "refs_small R g" and le: "\<And>i. proc_refs i p \<le> R i"
  have "(\<lambda>i. R i - proc_refs i p + proc_refs i p') = R(sid := R sid + 1)"
    using assms(3) le by (auto simp: fun_eq_iff one_if_def)
  then show "registry_inv (\<lambda>i. R i - proc_refs i p + proc_refs i p') g'" using assms(4) inv le by simp
qed (rule assms)+

lemma op_effect_drop:
  assumes "proc_ok p'" "cp_pid p' = cp_pid p" "\<And>i. proc_refs i p' + one_if (sid = i) = proc_refs i p"
    and g': "g' = shared_vm_release sid 1 g"
  shows "op_effect p g p' g'"
proof (rule op_effectI)
  fix R assume inv: "registry_inv R g" "refs_small R g" and le: "\<And>i. proc_refs i p \<le> R i"
  have pos: "0 < R sid" using assms(3) [of sid] le [of sid] by simp
  have "R i - proc_refs i p + proc_refs i p' = (R(sid := R sid - 1)) i" for i
    using assms(3) [of i] le [of i] by (cases "sid = i") (auto simp: one_if_def)
  then have "(\<lambda>i. R i - proc_refs i p + proc_refs i p') = R(sid := R sid - 1)" by (rule ext)
  moreover have "R sid + 1 < usize_modulus" using inv(2) unfolding refs_small_def by blast
  then have "R sid < usize_modulus" by linarith
  ultimately show "registry_inv (\<lambda>i. R i - proc_refs i p + proc_refs i p') g'"
    using release_registry [OF inv(1) pos] g' by simp
qed (rule assms)+

section \<open>Every operation of a process meets the contract\<close>

lemma put_handle_effect:
  assumes "proc_ok p" "put_handle obj r p = Some (p', h)" "rights_within r (object_rights obj)"
    and "\<And>i. obj \<noteq> SharedFrames i" "\<And>R. registry_inv R g \<Longrightarrow> registry_inv R g'"
  shows "op_effect p g p' g'"
  using put_handle_spec [OF assms(1-3)] assms(4,5) by (intro op_effect_same) auto

lemma create_memory_effect:
  assumes "proc_ok p" "handle_create_memory n p = Some (p', r)"
  shows "op_effect p g p' g"
  using assms put_handle_effect [OF assms(1), of "Memory (replicate n 0)" RIGHTS_MEMORY p' _ g g]
  by (auto simp: handle_create_memory_def split: if_splits option.splits intro: op_effect_same)

lemma create_endpoint_effect:
  assumes "proc_ok p" "handle_create_endpoint t p = Some (p', h)"
  shows "op_effect p g p' g"
  using assms put_handle_effect [OF assms(1), of "Endpoint t" _ p' h g g]
  by (auto simp: handle_create_endpoint_def)

lemma close_effect:
  assumes ok: "proc_ok p" and run: "handle_close h p g = (p', g', r)"
  shows "op_effect p g p' g'"
proof (cases "handle_remove h (handles p)")
  case (Pair t q)
  show ?thesis
  proof (cases q)
    case (Inl e)
    then have "t = handles p" using Pair by (auto simp: handle_remove_def split: option.splits)
    then show ?thesis using run ok Pair Inl by (auto simp: handle_close_def intro: op_effect_same)
  next
    case (Inr e)
    then have rm: "handle_remove h (handles p) = (t, Inr e)" using Pair by simp
    note spec = handle_remove_spec [OF ok rm]
    have p': "p' = p\<lparr>handles := t\<rparr>" and g': "g' = release_object (cp_pid p) (object e) g"
      using run rm by (auto simp: handle_close_def)
    show ?thesis
    proof (cases "\<exists>i. object e = SharedFrames i")
      case True
      then obtain i where "object e = SharedFrames i" by auto
      then show ?thesis using spec p' g' by (intro op_effect_drop [of _ _ i]) auto
    next
      case False
      then have "registry_inv R g \<Longrightarrow> registry_inv R g'" for R by (cases "object e") (auto simp: g')
      then show ?thesis using spec p' False by (intro op_effect_same) (auto simp: one_if_def)
    qed
  qed
qed

lemma entry_update_refs:
  assumes ok: "handle_table_ok t" and get: "bt_get (entries t) h = Some e"
    and same: "\<And>i. (object (f e) = SharedFrames i) = (object e = SharedFrames i)"
  shows "handle_refs i (entry_update h f t) = handle_refs i t"
proof -
  have "bt_ok (entries t)" using ok by (simp add: handle_table_ok_def)
  from bt_sum_put [OF this, of "\<lambda>e. one_if (object e = SharedFrames i)" h "f e"] get same
  show ?thesis by (simp add: handle_refs_def entry_update_def)
qed

lemma memory_write_effect:
  assumes ok: "proc_ok p"
  shows "op_effect p g (fst (handle_memory_write h src p)) g"
proof (cases "\<exists>e data. require h RIGHT_WRITE (handles p) = Inr e \<and> object e = Memory data")
  case False
  then have "fst (handle_memory_write h src p) = p"
    by (auto simp: handle_memory_write_def split: sum.splits handle_object.splits)
  then show ?thesis using ok by (simp add: op_effect_same)
next
  case True
  then obtain e data where e: "require h RIGHT_WRITE (handles p) = Inr e" "object e = Memory data" by auto
  let ?d = "Memory (copy_at 0 (take (min (length src) (length data)) src) data)"
  let ?t = "entry_update h (\<lambda>e. e\<lparr>object := ?d\<rparr>) (handles p)"
  have get: "bt_get (entries (handles p)) h = Some e"
    using e(1) by (auto simp: require_def handle_get_def split: option.splits if_splits)
  have eq: "fst (handle_memory_write h src p) = p\<lparr>handles := ?t\<rparr>"
    using e by (simp add: handle_memory_write_def Let_def)
  have tok: "handle_table_ok (handles p)" "typed_table (handles p)" using ok by (simp_all add: proc_ok_def)
  have "handle_table_ok ?t" using tok(1) by (rule entry_update_ok) simp
  moreover have "typed_table ?t" using tok(2) get e(2)
    by (auto simp: typed_table_def entry_update_def split: if_splits) fastforce
  moreover have "handle_refs i ?t = handle_refs i (handles p)" for i
    using tok(1) get by (rule entry_update_refs) (simp add: e(2))
  ultimately show ?thesis using ok by (simp add: eq op_effect_same proc_ok_def proc_refs_def)
qed

lemma acquire_effect:
  assumes ok: "proc_ok p"
  shows "handle_display_acquire p g = Some (p', g', r) \<Longrightarrow> op_effect p g p' g'"
    and "handle_input_acquire p g = Some (p', g', r) \<Longrightarrow> op_effect p g p' g'"
proof -
  assume "handle_display_acquire p g = Some (p', g', r)"
  then consider "p' = p" "\<exists>c. g' = g\<lparr>display_owner := c\<rparr>"
    | h where "put_handle Display RIGHT_DISPLAY_MASTER p = Some (p', h)" "\<exists>c. g' = g\<lparr>display_owner := c\<rparr>"
    by (auto simp: handle_display_acquire_def split: prod.splits bool.splits option.splits)
  then show "op_effect p g p' g'"
  proof cases
    case 1
    then show ?thesis using ok by (auto intro!: op_effect_same)
  next
    case 2
    from ok 2(1) show ?thesis by (rule put_handle_effect) (use 2(2) in auto)
  qed
next
  assume "handle_input_acquire p g = Some (p', g', r)"
  then consider "p' = p" "\<exists>c. g' = g\<lparr>input_owner := c\<rparr>"
    | h where "put_handle Input RIGHT_INPUT_MASTER p = Some (p', h)" "\<exists>c. g' = g\<lparr>input_owner := c\<rparr>"
    by (auto simp: handle_input_acquire_def split: prod.splits bool.splits option.splits)
  then show "op_effect p g p' g'"
  proof cases
    case 1
    then show ?thesis using ok by (auto intro!: op_effect_same)
  next
    case 2
    from ok 2(1) show ?thesis by (rule put_handle_effect) (use 2(2) in auto)
  qed
qed

lemma handle_duplicate_Inr:
  assumes "handle_duplicate h r t = Some (t', Inr new)"
  shows "\<exists>cur. bt_get (entries t) h = Some cur \<and> rights_within (r AND RIGHTS_ALL) (rights cur) \<and>
    handle_insert (object cur) (r AND RIGHTS_ALL) t = Some (t', new)"
  using assms
  by (auto simp: handle_duplicate_def handle_get_def Let_def rights_within_def
      split: option.splits if_splits sum.splits)

lemma proc_refs_pos:
  assumes "bt_get (entries (handles p)) h = Some e" "object e = SharedFrames i"
  shows "0 < proc_refs i p"
  using bt_sum_mono_le [OF assms(1), of "\<lambda>e. one_if (object e = SharedFrames i)"] assms(2)
  by (simp add: proc_refs_def handle_refs_def)

lemma dup_effect:
  assumes ok: "proc_ok p" and run: "handle_dup h r p g = Some (p', g', res)"
  shows "op_effect p g p' g'"
proof (cases "\<exists>t new. handle_duplicate h r (handles p) = Some (t, Inr new) \<and> p' = p\<lparr>handles := t\<rparr> \<and>
    res = Inr new")
  case False
  have "p' = p \<and> g' = g"
    using run False
    by (auto simp: handle_dup_def handle_duplicate_def Let_def split: if_splits option.splits sum.splits)
  then show ?thesis using ok by (simp add: op_effect_same)
next
  case True
  then obtain t new where dup: "handle_duplicate h r (handles p) = Some (t, Inr new)"
      "p' = p\<lparr>handles := t\<rparr>" "res = Inr new" by auto
  obtain cur where cur: "bt_get (entries (handles p)) h = Some cur"
      "rights_within (r AND RIGHTS_ALL) (rights cur)"
      "handle_insert (object cur) (r AND RIGHTS_ALL) (handles p) = Some (t, new)"
    using handle_duplicate_Inr [OF dup(1)] by auto
  have get_new: "handle_get new t =
      Inr \<lparr>object = object cur, rights = r AND RIGHTS_ALL AND RIGHTS_ALL\<rparr>"
    using handle_insert_Some [OF cur(3)] by (auto simp: handle_get_def)
  have put: "put_handle (object cur) (r AND RIGHTS_ALL) p = Some (p', new)"
    using cur(3) dup(2) by (simp add: put_handle_def)
  have "rights_within (rights cur) (object_rights (object cur))"
    using ok cur(1) by (auto simp: proc_ok_def typed_table_def)
  then have within: "rights_within (r AND RIGHTS_ALL) (object_rights (object cur))"
    by (rule rights_within_trans [OF cur(2)])
  have g': "g' = (case object cur of SharedFrames sid \<Rightarrow> shared_vm_retain sid g | _ \<Rightarrow> g)"
    using run dup get_new cur(1)
    by (auto simp: handle_dup_def Let_def handle_get_def split: if_splits)
  show ?thesis
  proof (cases "\<exists>i. object cur = SharedFrames i")
    case False
    then have "g' = g" by (cases "object cur") (auto simp: g')
    then show ?thesis using put_handle_effect [OF ok put within, of g g'] False by auto
  next
    case True
    then obtain i where i: "object cur = SharedFrames i" by auto
    note spec = put_handle_spec [OF ok put within]
    have pos: "0 < proc_refs i p" using cur(1) i by (rule proc_refs_pos)
    show ?thesis
    proof (rule op_effect_add [of _ _ i])
      fix R assume R: "registry_inv R g" "refs_small R g" and le: "\<And>i. proc_refs i p \<le> R i"
      have "0 < R i" using pos le [of i] by linarith
      moreover have "R i + 1 < usize_modulus" using R(2) unfolding refs_small_def by blast
      ultimately show "registry_inv (R(i := R i + 1)) g'"
        using retain_registry [OF R(1)] g' i by simp
    qed (use spec i in auto)
  qed
qed

lemma create_shared_effect:
  assumes ok: "proc_ok p" and run: "handle_create_shared n p g = Some (p', g', res)"
  shows "op_effect p g p' g'"
proof -
  obtain g1 q where al: "alloc_shared_vm_object n g = (g1, q)" by fastforce
  note reg = alloc_registry [OF _ _ al]
  show ?thesis
  proof (cases "cp_is_kernel p")
    case True
    then show ?thesis using run ok by (simp add: handle_create_shared_def op_effect_same)
  next
    case False
    show ?thesis
    proof (cases q)
      case (Inl e)
      then have "p' = p" "g' = g1" using run al False by (auto simp: handle_create_shared_def)
      moreover have "registry_inv R g \<Longrightarrow> refs_small R g \<Longrightarrow> registry_inv R g1" for R
        using reg [of R] Inl by (simp add: refs_small_def)
      ultimately show ?thesis using ok by (auto intro!: op_effectI)
    next
      case (Inr sid)
      then obtain h where put: "put_handle (SharedFrames sid) RIGHTS_MEMORY p = Some (p', h)" "g' = g1"
        using run al False by (auto simp: handle_create_shared_def split: option.splits)
      have spec: "proc_ok p' \<and> cp_pid p' = cp_pid p \<and>
          (\<forall>i. proc_refs i p' = proc_refs i p + one_if (SharedFrames sid = SharedFrames i))"
        using ok put(1) by (rule put_handle_spec) simp
      show ?thesis
      proof (rule op_effect_add [of _ _ sid])
        fix R assume "registry_inv R g" "refs_small R g"
        then have "R sid = 0" "registry_inv (R(sid := 1)) g1"
          using reg [of R] Inr by (simp_all add: refs_small_def)
        then show "registry_inv (R(sid := R sid + 1)) g'" using put(2) by simp
      qed (use spec in auto)
    qed
  qed
qed

lemma create_shared_vm_effect:
  assumes ok: "proc_ok p" and run: "create_shared_vm n p g = (p', g', res)"
  shows "op_effect p g p' g'"
proof -
  obtain g1 q where al: "alloc_shared_vm_object n g = (g1, q)" by fastforce
  note reg = alloc_registry [OF _ _ al]
  show ?thesis
  proof (cases "cp_is_kernel p \<or> n = 0")
    case True
    then show ?thesis using run ok by (auto simp: create_shared_vm_def op_effect_same)
  next
    case False
    show ?thesis
    proof (cases q)
      case (Inl e)
      then have "p' = p" "g' = g1" using run al False by (auto simp: create_shared_vm_def)
      moreover have "registry_inv R g \<Longrightarrow> refs_small R g \<Longrightarrow> registry_inv R g1" for R
        using reg [of R] Inl by (simp add: refs_small_def)
      ultimately show ?thesis using ok by (auto intro!: op_effectI)
    next
      case (Inr sid)
      then have p': "p' = p\<lparr>shared_owned := shared_owned p @ [sid]\<rparr>" and g': "g' = g1"
        using run al False by (auto simp: create_shared_vm_def)
      show ?thesis
      proof (rule op_effect_add [of _ _ sid])
        fix R assume "registry_inv R g" "refs_small R g"
        then have "R sid = 0" "registry_inv (R(sid := 1)) g1"
          using reg [of R] Inr by (simp_all add: refs_small_def)
        then show "registry_inv (R(sid := R sid + 1)) g'" using g' by simp
      qed (use ok in \<open>auto simp: p' proc_ok_def proc_refs_def one_if_def\<close>)
    qed
  qed
qed

lemma mset_swap_remove: "i < length xs \<Longrightarrow> mset xs = add_mset (xs ! i) (mset (swap_remove i xs))"
proof -
  assume i: "i < length xs"
  then obtain ys y where xs: "xs = ys @ [y]" by (metis length_0_conv less_nat_zero_code rev_exhaust)
  show ?thesis
  proof (cases "i = length ys")
    case True
    then show ?thesis by (simp add: swap_remove_def xs)
  next
    case False
    then have "i < length ys" using i xs by simp
    then have "swap_remove i xs = ys[i := y]" by (simp add: swap_remove_def xs list_update_append)
    then show ?thesis using \<open>i < length ys\<close> by (simp add: xs mset_update nth_append)
  qed
qed

lemma close_shared_vm_effect:
  assumes ok: "proc_ok p" and run: "close_shared_vm sid p g = (p', g', res)"
  shows "op_effect p g p' g'"
proof (cases "position (\<lambda>owned. owned = sid) (shared_owned p)")
  case None
  then show ?thesis using run ok by (simp add: close_shared_vm_def op_effect_same)
next
  case (Some k)
  then have k: "k < length (shared_owned p)" "shared_owned p ! k = sid" by (auto simp: position_Some)
  have eq: "p' = p\<lparr>shared_owned := swap_remove k (shared_owned p)\<rparr>" "g' = shared_vm_release sid 1 g"
    using run Some by (auto simp: close_shared_vm_def)
  have "count_list (swap_remove k (shared_owned p)) i + one_if (sid = i) = count_list (shared_owned p) i" for i
    using mset_swap_remove [OF k(1)] k(2) by (simp add: one_if_def flip: count_mset)
  then show ?thesis using ok eq
    by (intro op_effect_drop [of _ _ sid]) (auto simp: proc_ok_def proc_refs_def algebra_simps)
qed

lemma local_op_effect:
  assumes "proc_ok p" "local_op op p g = Some (p', g')"
  shows "op_effect p g p' g'"
  using assms
  by (cases op)
    (auto split: prod.splits
      intro: create_memory_effect create_endpoint_effect dup_effect create_shared_effect close_effect
        memory_write_effect acquire_effect create_shared_vm_effect close_shared_vm_effect
        op_effect_same simp: handle_take_signals_def proc_ok_def proc_refs_def)

text \<open>Teardown gives every reference back.\<close>

lemma release_list_registry:
  assumes "registry_inv R g" "\<And>i. count_list is i \<le> R i" "\<And>i. R i < usize_modulus"
  shows "registry_inv (\<lambda>i. R i - count_list is i) (fold (\<lambda>i. shared_vm_release i 1) is g)"
  using assms
proof (induction "is" arbitrary: R g)
  case (Cons j "is")
  have pos: "0 < R j" using Cons.prems(2) [of j] by simp
  have "registry_inv (R(j := R j - 1)) (shared_vm_release j 1 g)"
    using release_registry [OF Cons.prems(1) pos Cons.prems(3)] .
  moreover have "count_list is i \<le> (R(j := R j - 1)) i" for i
    using Cons.prems(2) [of i] by (auto split: if_splits)
  moreover have "(R(j := R j - 1)) i < usize_modulus" for i
    using Cons.prems(3) [of i] by auto
  ultimately have "registry_inv (\<lambda>i. (R(j := R j - 1)) i - count_list is i)
      (fold (\<lambda>i. shared_vm_release i 1) is (shared_vm_release j 1 g))"
    by (rule Cons.IH)
  moreover have "(\<lambda>i. (R(j := R j - 1)) i - count_list is i) = (\<lambda>i. R i - count_list (j # is) i)"
    using pos by (auto simp: fun_eq_iff)
  ultimately show ?case by simp
qed simp

lemma release_objects_registry:
  assumes "registry_inv R g" "\<And>i. count_list objs (SharedFrames i) \<le> R i" "\<And>i. R i < usize_modulus"
  shows "registry_inv (\<lambda>i. R i - count_list objs (SharedFrames i)) (fold (release_object pid) objs g)"
  using assms
proof (induction objs arbitrary: R g)
  case (Cons obj objs)
  show ?case
  proof (cases "\<exists>j. obj = SharedFrames j")
    case True
    then obtain j where j: "obj = SharedFrames j" by auto
    have pos: "0 < R j" using Cons.prems(2) [of j] j by simp
    have "registry_inv (R(j := R j - 1)) (release_object pid obj g)"
      using release_registry [OF Cons.prems(1) pos Cons.prems(3)] j by simp
    moreover have "count_list objs (SharedFrames i) \<le> (R(j := R j - 1)) i" for i
      using Cons.prems(2) [of i] j by (auto split: if_splits)
    moreover have "(R(j := R j - 1)) i < usize_modulus" for i
      using Cons.prems(3) [of i] by auto
    ultimately have "registry_inv (\<lambda>i. (R(j := R j - 1)) i - count_list objs (SharedFrames i))
        (fold (release_object pid) objs (release_object pid obj g))"
      by (rule Cons.IH)
    moreover have "(\<lambda>i. (R(j := R j - 1)) i - count_list objs (SharedFrames i)) =
        (\<lambda>i. R i - count_list (obj # objs) (SharedFrames i))"
      using pos j by (auto simp: fun_eq_iff)
    ultimately show ?thesis by simp
  next
    case False
    then have "registry_inv R (release_object pid obj g)"
      using Cons.prems(1) by (cases obj) auto
    moreover have "count_list (obj # objs) (SharedFrames i) = count_list objs (SharedFrames i)" for i
      using False by auto
    ultimately show ?thesis using Cons.IH [of R "release_object pid obj g"] Cons.prems(2,3) by simp
  qed
qed simp

lemma handle_refs_count:
  "handle_refs i t = count_list (map (\<lambda>(h, e). object e) (entries t)) (SharedFrames i)"
proof -
  have "bt_sum (\<lambda>e. one_if (object e = SharedFrames i)) es =
      count_list (map (\<lambda>(h, e). object e) es) (SharedFrames i)" for es :: "(u32, handle_entry) btree"
    by (induction es) (auto simp: one_if_def)
  then show ?thesis by (simp add: handle_refs_def)
qed

lemma page_refs_count: "bt_sum (\<lambda>j. one_if (j = i)) ps = count_list (map snd ps) i"
  by (induction ps) (auto simp: one_if_def)

lemma release_vm_registry:
  assumes inv: "registry_inv R g" and le: "\<And>i. proc_refs i p \<le> R i" and small: "\<And>i. R i < usize_modulus"
    and run: "release_vm_resources p g = (p', g')"
  shows "registry_inv (\<lambda>i. R i - proc_refs i p) g'"
proof -
  let ?pages = "map snd (shared_pages p)"
  let ?objs = "map (\<lambda>(h, e). object e) (entries (handles p))"
  let ?g1 = "fold (\<lambda>i. shared_vm_release i 1) ?pages g"
  let ?g2 = "fold (\<lambda>i. shared_vm_release i 1) (shared_owned p) ?g1"
  have refs: "proc_refs i p = count_list ?objs (SharedFrames i) + count_list (shared_owned p) i +
      count_list ?pages i" for i
    by (simp add: proc_refs_def handle_refs_count page_refs_count)
  have g': "g' = fold (release_object (cp_pid p)) ?objs ?g2"
    using run by (auto simp: release_vm_resources_def drain_objects_def Let_def fold_map comp_def
        case_prod_beta')
  have "registry_inv (\<lambda>i. R i - count_list ?pages i) ?g1"
    by (rule release_list_registry [OF inv]) (use le refs small in \<open>auto intro: order_trans [OF _ le]\<close>)
  then have "registry_inv (\<lambda>i. R i - count_list ?pages i - count_list (shared_owned p) i) ?g2"
  proof (rule release_list_registry)
    show "count_list (shared_owned p) i \<le> R i - count_list ?pages i" for i
      using le [of i] refs [of i] by linarith
    show "R i - count_list ?pages i < usize_modulus" for i using small [of i] by linarith
  qed
  then have "registry_inv (\<lambda>i. R i - count_list ?pages i - count_list (shared_owned p) i -
      count_list ?objs (SharedFrames i)) g'"
    unfolding g'
  proof (rule release_objects_registry)
    show "count_list ?objs (SharedFrames i) \<le> R i - count_list ?pages i - count_list (shared_owned p) i" for i
      using le [of i] refs [of i] by linarith
    show "R i - count_list ?pages i - count_list (shared_owned p) i < usize_modulus" for i
      using small [of i] by linarith
  qed
  moreover have "(\<lambda>i. R i - count_list ?pages i - count_list (shared_owned p) i -
      count_list ?objs (SharedFrames i)) = (\<lambda>i. R i - proc_refs i p)"
    by (simp add: fun_eq_iff refs add_ac)
  ultimately show ?thesis by simp
qed

section \<open>Reachable states\<close>

definition cap_small :: "cap_state \<Rightarrow> bool" where
  "cap_small s \<longleftrightarrow> refs_small (total_refs s) (globals s)"

inductive cap_reach :: "cap_state \<Rightarrow> bool" where
  boot: "(\<And>pm. m = Some pm \<Longrightarrow> pmm_ok pm) \<Longrightarrow> cap_reach (cap_boot m)"
| spawn: "cap_reach s \<Longrightarrow> bt_get (records s) pid = None \<Longrightarrow>
    cap_reach (s\<lparr>records := bt_put pid \<lparr>cr_owner = own, cr_process = Some (new_process pid k)\<rparr> (records s)\<rparr>)"
| local: "cap_reach s \<Longrightarrow> cap_small s \<Longrightarrow> proc_of s pid = Some p \<Longrightarrow>
    local_op op p (globals s) = Some (p', g') \<Longrightarrow> cap_reach ((set_proc pid p' s)\<lparr>globals := g'\<rparr>)"
| signal: "cap_reach s \<Longrightarrow> cap_reach (fst (handle_signal pid h v s))"
| transfer: "cap_reach s \<Longrightarrow> sys_handle_transfer pid h target s = Some (s', r) \<Longrightarrow> cap_reach s'"
| exit: "cap_reach s \<Longrightarrow> cap_small s \<Longrightarrow> proc_of s pid = Some p \<Longrightarrow>
    release_vm_resources p (globals s) = (p', g') \<Longrightarrow>
    cap_reach (s\<lparr>records := bt_del pid (records s), globals := g'\<rparr>)"

definition record_ok :: "u64 \<Rightarrow> cap_record \<Rightarrow> bool" where
  "record_ok pid r \<longleftrightarrow> (case cr_process r of None \<Rightarrow> False | Some p \<Rightarrow> proc_ok p \<and> cp_pid p = pid)"

definition cap_inv :: "cap_state \<Rightarrow> bool" where
  "cap_inv s \<longleftrightarrow> bt_ok (records s) \<and>
     (\<forall>pid r. bt_get (records s) pid = Some r \<longrightarrow> record_ok pid r) \<and>
     registry_inv (total_refs s) (globals s)"

lemma proc_of_Some:
  assumes "cap_inv s" "proc_of s pid = Some p"
  obtains r where "bt_get (records s) pid = Some r" "cr_process r = Some p" "proc_ok p" "cp_pid p = pid"
  using assms by (auto simp: cap_inv_def record_ok_def proc_of_def split: option.splits)

lemma set_proc_records:
  "bt_get (records s) pid = Some r \<Longrightarrow>
     set_proc pid p s = s\<lparr>records := bt_put pid (r\<lparr>cr_process := Some p\<rparr>) (records s)\<rparr>"
  by (simp add: set_proc_def)

text \<open>Replacing one process changes the totals by the difference of its references.\<close>

lemma set_proc_total:
  assumes inv: "cap_inv s" and p: "proc_of s pid = Some p"
  shows "total_refs (set_proc pid p' s) i = total_refs s i - proc_refs i p + proc_refs i p' \<and>
    proc_refs i p \<le> total_refs s i"
proof -
  obtain r where r: "bt_get (records s) pid = Some r" "cr_process r = Some p"
    using proc_of_Some [OF inv p] by blast
  have "bt_ok (records s)" using inv by (simp add: cap_inv_def)
  from bt_sum_put [OF this, of "record_refs i" pid "r\<lparr>cr_process := Some p'\<rparr>"] r
    bt_sum_mono_le [OF r(1), of "record_refs i"]
  show ?thesis by (simp add: set_proc_records total_refs_def record_refs_def)
qed

lemma set_proc_inv:
  assumes inv: "cap_inv s" and p: "proc_of s pid = Some p" and ok: "proc_ok p'" "cp_pid p' = pid"
    and reg: "registry_inv (\<lambda>i. total_refs s i - proc_refs i p + proc_refs i p') g'"
  shows "cap_inv ((set_proc pid p' s)\<lparr>globals := g'\<rparr>)"
proof -
  obtain r where r: "bt_get (records s) pid = Some r" "cr_process r = Some p"
    using proc_of_Some [OF inv p] by blast
  have "total_refs ((set_proc pid p' s)\<lparr>globals := g'\<rparr>) = total_refs (set_proc pid p' s)"
    by (simp add: total_refs_def fun_eq_iff)
  also have "\<dots> = (\<lambda>i. total_refs s i - proc_refs i p + proc_refs i p')"
    using set_proc_total [OF inv p] by (simp add: fun_eq_iff)
  finally have "registry_inv (total_refs ((set_proc pid p' s)\<lparr>globals := g'\<rparr>)) g'" using reg by simp
  then show ?thesis using inv ok r
    by (auto simp: cap_inv_def set_proc_records record_ok_def split: if_splits)
qed

lemma set_proc_same_refs:
  assumes inv: "cap_inv s" and p: "proc_of s pid = Some p" and ok: "proc_ok p'" "cp_pid p' = pid"
    and refs: "\<And>i. proc_refs i p' = proc_refs i p"
  shows "cap_inv (set_proc pid p' s)"
proof -
  have "(\<lambda>i. total_refs s i - proc_refs i p + proc_refs i p') = total_refs s"
    using set_proc_total [OF inv p] refs by (simp add: fun_eq_iff)
  then have "registry_inv (\<lambda>i. total_refs s i - proc_refs i p + proc_refs i p') (globals s)"
    using inv by (simp add: cap_inv_def)
  from set_proc_inv [OF inv p ok this] show ?thesis
    by (simp add: set_proc_def split: option.splits)
qed

lemma add_pending_signal_spec:
  "proc_ok (add_pending_signal v p) = proc_ok p" "cp_pid (add_pending_signal v p) = cp_pid p"
  "proc_refs i (add_pending_signal v p) = proc_refs i p"
  by (simp_all add: add_pending_signal_def proc_ok_def proc_refs_def)

lemma signal_target_inv:
  assumes inv: "cap_inv s" and p: "proc_of s pid = Some p"
  shows "cap_inv (set_proc pid (add_pending_signal v p) s)"
proof -
  have "proc_ok p" "cp_pid p = pid" using proc_of_Some [OF inv p] by blast+
  then show ?thesis by (intro set_proc_same_refs [OF inv p]) (simp_all add: add_pending_signal_spec)
qed

lemma with_process_signal_inv:
  assumes inv: "cap_inv s"
    and run: "with_process_mut t (\<lambda>q. Some (add_pending_signal v q, ())) s = Some (s', x)"
  shows "cap_inv s'"
proof (cases "proc_of s t")
  case None
  then have "s' = s" using run by (auto simp: with_process_mut_def proc_of_def split: option.splits)
  then show ?thesis using inv by simp
next
  case (Some q)
  then have "s' = set_proc t (add_pending_signal v q) s"
    using run by (auto simp: with_process_mut_def proc_of_def split: option.splits)
  then show ?thesis using signal_target_inv [OF inv Some] by simp
qed

lemma signal_inv:
  assumes inv: "cap_inv s"
  shows "cap_inv (fst (handle_signal pid h v s))"
proof (cases "\<exists>p e t. proc_of s pid = Some p \<and> require h RIGHT_SIGNAL (handles p) = Inr e \<and> object e = Endpoint t")
  case False
  then have "fst (handle_signal pid h v s) = s"
    by (auto simp: handle_signal_def split: option.split sum.split handle_object.split)
  then show ?thesis using inv by simp
next
  case True
  then obtain p e t where e: "proc_of s pid = Some p" "require h RIGHT_SIGNAL (handles p) = Inr e"
      "object e = Endpoint t" by auto
  show ?thesis
  proof (cases "t = pid")
    case True
    then show ?thesis using e signal_target_inv [OF inv e(1)] by (simp add: handle_signal_def)
  next
    case False
    obtain r where r: "with_process_mut t (\<lambda>q. Some (add_pending_signal v q, ())) s = r" by simp
    show ?thesis
    proof (cases r)
      case None
      then show ?thesis using e False r inv by (simp add: handle_signal_def)
    next
      case (Some sx)
      then obtain s' x where sx: "r = Some (s', x)" by (cases sx) auto
      then have "cap_inv s'" using with_process_signal_inv [OF inv] r by simp
      then show ?thesis using e False r sx by (cases x) (simp_all add: handle_signal_def)
    qed
  qed
qed

lemma take_for_transfer_Inl:
  "handle_take_for_transfer h p = (p', Inl e) \<Longrightarrow> p' = p"
  by (auto simp: handle_take_for_transfer_def take_for_transfer_def handle_remove_def
      split: sum.splits if_splits option.splits prod.splits)

lemma take_for_transfer_Inr:
  assumes "handle_take_for_transfer h p = (p', Inr (obj, r))"
  shows "\<exists>t e. handle_remove h (handles p) = (t, Inr e) \<and> p' = p\<lparr>handles := t\<rparr> \<and>
    obj = object e \<and> r = rights e"
  using assms
  by (auto simp: handle_take_for_transfer_def take_for_transfer_def split: sum.splits if_splits prod.splits)

lemma move_reference_inv:
  assumes inv: "cap_inv s" and p: "proc_of s pid = Some p" and q: "proc_of s target = Some q"
    and ne: "target \<noteq> pid"
    and ok: "proc_ok p'" "cp_pid p' = pid" "proc_ok q'" "cp_pid q' = target"
    and lost: "\<And>i. proc_refs i p' + one_if (obj = SharedFrames i) = proc_refs i p"
    and won: "\<And>i. proc_refs i q' = proc_refs i q + one_if (obj = SharedFrames i)"
  shows "cap_inv (set_proc target q' (set_proc pid p' s))"
proof -
  obtain r where r: "bt_get (records s) pid = Some r" "cr_process r = Some p"
    using proc_of_Some [OF inv p] by blast
  obtain t where t: "bt_get (records s) target = Some t" "cr_process t = Some q"
    using proc_of_Some [OF inv q] by blast
  let ?s1 = "set_proc pid p' s"
  have s1: "bt_ok (records ?s1)" "bt_get (records ?s1) target = Some t"
    using inv r t ne by (simp_all add: cap_inv_def set_proc_records)
  have "total_refs (set_proc target q' ?s1) i = total_refs s i" for i
  proof -
    have "total_refs (set_proc target q' ?s1) i + proc_refs i q = total_refs ?s1 i + proc_refs i q'"
      using bt_sum_put [OF s1(1), of "record_refs i" target "t\<lparr>cr_process := Some q'\<rparr>"] s1(2) t(2)
      by (simp add: set_proc_records [OF s1(2)] total_refs_def record_refs_def)
    moreover have "total_refs ?s1 i = total_refs s i - proc_refs i p + proc_refs i p'"
      "proc_refs i p \<le> total_refs s i" using set_proc_total [OF inv p] by auto
    ultimately show ?thesis using lost [of i] won [of i] by linarith
  qed
  then have refs: "total_refs (set_proc target q' ?s1) = total_refs s" by (simp add: fun_eq_iff)
  have glob: "globals (set_proc target q' ?s1) = globals s"
    using r by (simp add: set_proc_records [OF s1(2)]) (simp add: set_proc_records)
  have recs: "records (set_proc target q' ?s1) = bt_put target (t\<lparr>cr_process := Some q'\<rparr>)
      (bt_put pid (r\<lparr>cr_process := Some p'\<rparr>) (records s))"
    using r by (simp add: set_proc_records [OF s1(2)]) (simp add: set_proc_records)
  show ?thesis unfolding cap_inv_def refs glob recs
    using inv ok ne by (auto simp: cap_inv_def record_ok_def split: if_splits)
qed

text \<open>Moving a handle moves exactly its reference.\<close>

lemma transfer_inv:
  assumes inv: "cap_inv s" and run: "sys_handle_transfer pid h target s = Some (s', res)"
  shows "cap_inv s'"
proof (cases "proc_of s pid")
  case None
  then show ?thesis using run inv by (simp add: sys_handle_transfer_def)
next
  case (Some p)
  obtain rc where rc: "bt_get (records s) pid = Some rc" "cr_process rc = Some p" "proc_ok p"
      "cp_pid p = pid" by (rule proc_of_Some [OF inv Some])
  have unchanged: "set_proc pid p s = s"
    using rc inv by (auto simp: set_proc_def bt_put_same cap_inv_def)
  show ?thesis
  proof (cases "target \<noteq> pid \<and> \<not> process_exists target s")
    case True
    then show ?thesis using run inv Some by (simp add: sys_handle_transfer_def)
  next
    case ex: False
    obtain p1 q where take: "handle_take_for_transfer h p = (p1, q)" by fastforce
    show ?thesis
    proof (cases q)
      case (Inl e)
      then show ?thesis using run inv Some ex take take_for_transfer_Inl [of h p p1 e] unchanged
        by (auto simp: sys_handle_transfer_def)
    next
      case (Inr objr)
      obtain obj r where objr: "objr = (obj, r)" by fastforce
      obtain t e where rm: "handle_remove h (handles p) = (t, Inr e)" and p1: "p1 = p\<lparr>handles := t\<rparr>"
          and e: "obj = object e" "r = rights e"
        using take_for_transfer_Inr take Inr objr by blast
      note rem = handle_remove_spec [OF rc(3) rm, folded p1 e]
      have typed: "rights_within r (object_rights obj)"
        using rem rc(3) e by (auto simp: proc_ok_def typed_table_def)
      show ?thesis
      proof (cases "target = pid")
        case True
        then obtain p2 new where put: "put_handle obj r p1 = Some (p2, new)" "s' = set_proc pid p2 s"
          using run Some ex take Inr objr by (auto simp: sys_handle_transfer_def handle_receive_def
              split: option.splits)
        have "proc_ok p1" using rem by simp
        from put_handle_spec [OF this put(1) typed] rem rc(4) p1 e show ?thesis
          unfolding put(2) by (intro set_proc_same_refs [OF inv Some]) auto
      next
        case False
        let ?s1 = "set_proc pid p1 s"
        obtain rt where rt: "bt_get (records s) target = Some rt"
          using False ex by (auto simp: process_exists_def split: option.splits)
        then have "record_ok target rt" using inv by (simp add: cap_inv_def)
        then obtain pt where t: "bt_get (records s) target = Some rt" "cr_process rt = Some pt"
          using rt by (auto simp: record_ok_def split: option.splits)
        then have pt: "proc_of s target = Some pt" by (simp add: proc_of_def)
        obtain p2 new where put: "put_handle obj r pt = Some (p2, new)" "s' = set_proc target p2 ?s1"
          using run Some ex take Inr objr False t rc(1)
          by (auto simp: sys_handle_transfer_def handle_receive_def with_process_mut_def
              set_proc_records split: option.splits)
        have pt_ok: "proc_ok pt" "cp_pid pt = target" using proc_of_Some [OF inv pt] by blast+
        have "cp_pid p1 = pid" using rc(4) p1 by simp
        with rem put_handle_spec [OF pt_ok(1) put(1) typed] pt_ok(2) False
        show ?thesis unfolding put(2) by (intro move_reference_inv [OF inv Some pt]) auto
      qed
    qed
  qed
qed

lemma exit_inv:
  assumes inv: "cap_inv s" and small: "cap_small s" and p: "proc_of s pid = Some p"
    and run: "release_vm_resources p (globals s) = (p', g')"
  shows "cap_inv (s\<lparr>records := bt_del pid (records s), globals := g'\<rparr>)"
proof -
  obtain r where r: "bt_get (records s) pid = Some r" "cr_process r = Some p"
    by (rule proc_of_Some [OF inv p])
  have bt: "bt_ok (records s)" using inv by (simp add: cap_inv_def)
  have le: "proc_refs i p \<le> total_refs s i" for i using set_proc_total [OF inv p] by simp
  have "total_refs s i + 1 < usize_modulus" for i
    using small unfolding cap_small_def refs_small_def by blast
  then have lt: "total_refs s i < usize_modulus" for i using add_lessD1 by blast
  have "registry_inv (total_refs s) (globals s)" using inv by (simp add: cap_inv_def)
  from release_vm_registry [OF this le lt run]
  have reg: "registry_inv (\<lambda>i. total_refs s i - proc_refs i p) g'" .
  have "bt_sum (record_refs i) (bt_del pid (records s)) = total_refs s i - proc_refs i p" for i
    using bt_sum_del [OF bt, of "record_refs i" pid] r by (simp add: total_refs_def record_refs_def)
  then have "total_refs (s\<lparr>records := bt_del pid (records s), globals := g'\<rparr>) =
      (\<lambda>i. total_refs s i - proc_refs i p)"
    by (simp add: total_refs_def fun_eq_iff)
  with reg inv show ?thesis by (auto simp: cap_inv_def split: if_splits)
qed

lemma spawn_inv:
  assumes inv: "cap_inv s" and fresh: "bt_get (records s) pid = None"
  shows "cap_inv (s\<lparr>records := bt_put pid \<lparr>cr_owner = own, cr_process = Some (new_process pid k)\<rparr> (records s)\<rparr>)"
proof -
  have bt: "bt_ok (records s)" using inv by (simp add: cap_inv_def)
  have "proc_refs i (new_process pid k) = 0" for i
    by (simp add: new_process_def proc_refs_def handle_refs_def handle_table_new_def)
  then have "total_refs (s\<lparr>records := bt_put pid \<lparr>cr_owner = own, cr_process = Some (new_process pid k)\<rparr>
      (records s)\<rparr>) = total_refs s"
    using bt_sum_put [OF bt, of _ pid "\<lparr>cr_owner = own, cr_process = Some (new_process pid k)\<rparr>"] fresh
    by (simp add: total_refs_def record_refs_def fun_eq_iff)
  moreover have "proc_ok (new_process pid k)" "cp_pid (new_process pid k) = pid"
    by (simp_all add: new_process_def proc_ok_def handle_table_new_ok typed_table_def handle_table_new_def
        handle_table_new_ok [unfolded handle_table_new_def])
  ultimately show ?thesis using inv by (auto simp: cap_inv_def record_ok_def split: if_splits)
qed

lemma boot_inv: "(\<And>pm. m = Some pm \<Longrightarrow> pmm_ok pm) \<Longrightarrow> cap_inv (cap_boot m)"
  by (cases m)
    (auto simp: cap_inv_def cap_boot_def total_refs_def registry_inv_def frames_inv_def objects_ok_def)

theorem cap_reach_inv: "cap_reach s \<Longrightarrow> cap_inv s"
proof (induction rule: cap_reach.induct)
  case (local s pid p op p' g')
  have p: "proc_ok p" "cp_pid p = pid" using proc_of_Some [OF local.IH local.hyps(3)] by blast+
  from local_op_effect [OF p(1) local.hyps(4)]
  have eff: "proc_ok p'" "cp_pid p' = pid"
      "registry_inv (total_refs s) (globals s) \<Longrightarrow> refs_small (total_refs s) (globals s) \<Longrightarrow>
       (\<forall>i. proc_refs i p \<le> total_refs s i) \<Longrightarrow>
       registry_inv (\<lambda>i. total_refs s i - proc_refs i p + proc_refs i p') g'"
    using p by (auto simp: op_effect_def)
  have "registry_inv (\<lambda>i. total_refs s i - proc_refs i p + proc_refs i p') g'"
    using eff(3) local.IH local.hyps(2) set_proc_total [OF local.IH local.hyps(3)]
    by (simp add: cap_inv_def cap_small_def)
  from set_proc_inv [OF local.IH local.hyps(3) eff(1,2) this] show ?case .
qed (auto intro: boot_inv spawn_inv signal_inv transfer_inv exit_inv)

section \<open>Properties\<close>

text \<open>A concrete run: process 1 creates a one-page shared object.\<close>

definition cap_example :: cap_state where
  "cap_example =
     \<lparr>records = [(1, \<lparr>cr_owner = None, cr_process = Some
        \<lparr>cp_pid = 1, cp_is_kernel = False,
         handles = \<lparr>entries = [(1, \<lparr>object = SharedFrames 1, rights = RIGHTS_MEMORY AND RIGHTS_ALL\<rparr>)],
                    next_handle = 2\<rparr>,
         pending_signals = 0, shared_owned = [], shared_pages = []\<rparr>\<rparr>)],
      globals = \<lparr>display_owner = 0, input_owner = 0,
        shared_objects = [(1, \<lparr>so_frames = [0x1000], so_refs = 1\<rparr>)], next_shared_vm_id = 2,
        g_pmm = Some \<lparr>bitmap = [0xF9], total_frames = 3, usable_frames = 3, free_frames = 2,
          base_addr = 0x1000\<rparr>\<rparr>\<rparr>"

lemma cap_example_reach: "cap_reach cap_example"
proof -
  let ?m = "\<lparr>bitmap = [0xF8], total_frames = 3, usable_frames = 3, free_frames = 3, base_addr = 0x1000\<rparr>"
  let ?s0 = "cap_boot (Some ?m)"
  let ?s1 = "?s0\<lparr>records := bt_put 1 \<lparr>cr_owner = None, cr_process = Some (new_process 1 False)\<rparr> (records ?s0)\<rparr>"
  have "pmm_ok ?m" using pmm_init_spec [OF pmm_init_example] by simp
  then have "cap_reach ?s0" by (intro boot) simp
  then have s1: "cap_reach ?s1" by (rule spawn) (simp add: cap_boot_def)
  have frame: "alloc_frame ?m = (?m\<lparr>bitmap := [0xF9], free_frames := 2\<rparr>, Some 0x1000)"
    by (simp add: alloc_frame_def upt_conv_Cons frame_addr_def wrap_add_def wrap_mul_def wrap_sub_def
        pmm_eval Let_def)
  have "cap_small ?s1"
    by (auto simp: cap_small_def refs_small_def cap_boot_def total_refs_def record_refs_def new_process_def
        proc_refs_def handle_refs_def handle_table_new_def usize_modulus_def)
  moreover have "proc_of ?s1 1 = Some (new_process 1 False)" by (simp add: proc_of_def cap_boot_def)
  moreover have "local_op (CreateShared 4096) (new_process 1 False) (globals ?s1) =
      Some (the (cr_process (the (bt_get (records cap_example) 1))), globals cap_example)"
    by (simp add: handle_create_shared_def alloc_shared_vm_object_def checked_add_def pmm_eval
        MAX_SHARED_VM_def cap_boot_def frame new_process_def put_handle_def handle_insert_next
        handle_table_new_def cap_example_def)
  ultimately have "cap_reach ((set_proc 1 (the (cr_process (the (bt_get (records cap_example) 1)))) ?s1)
      \<lparr>globals := globals cap_example\<rparr>)"
    by (rule cap_reach.local [OF s1])
  moreover have "(set_proc 1 (the (cr_process (the (bt_get (records cap_example) 1)))) ?s1)
      \<lparr>globals := globals cap_example\<rparr> = cap_example"
    by (simp add: cap_example_def set_proc_def cap_boot_def)
  ultimately show ?thesis by simp
qed



text \<open>
  C4. Shared frames are never freed under their users: in every reachable state the frames of a
  live shared object belong to the pool, are all marked used in the allocator, are pairwise
  distinct, and belong to no other live object, so the allocator cannot hand them out again while
  a reference exists.
\<close>
theorem shared_frames_never_free:
  assumes "cap_reach s" "bt_get (shared_objects (globals s)) i = Some obj"
  shows "\<exists>m. g_pmm (globals s) = Some m \<and> pmm_ok m \<and> distinct (so_frames obj) \<and>
    set (so_frames obj) \<subseteq> pool_addrs m - free_addrs m \<and>
    (\<forall>j ob. j \<noteq> i \<longrightarrow> bt_get (shared_objects (globals s)) j = Some ob \<longrightarrow>
       set (so_frames ob) \<inter> set (so_frames obj) = {})"
proof -
  have f: "frames_inv (globals s)" using cap_reach_inv [OF assms(1)] by (simp add: cap_inv_def registry_inv_def)
  show ?thesis
  proof (cases "g_pmm (globals s)")
    case None
    then show ?thesis using f assms(2) by (simp add: frames_inv_def)
  next
    case (Some m)
    then have ok: "objects_ok m (shared_objects (globals s))" using f by (simp add: frames_inv_def)
    have "set (so_frames ob) \<inter> set (so_frames obj) = {}"
      if "j \<noteq> i" "bt_get (shared_objects (globals s)) j = Some ob" for j ob
      using ok that assms(2) unfolding objects_ok_def by blast
    moreover have "distinct (so_frames obj)" "set (so_frames obj) \<subseteq> pool_addrs m"
        "set (so_frames obj) \<inter> free_addrs m = {}" "pmm_ok m"
      using ok assms(2) unfolding objects_ok_def by blast+
    ultimately show ?thesis using Some by blast
  qed
qed

theorem shared_frames_never_free_witness:
  "\<exists>m. g_pmm (globals cap_example) = Some m \<and> 0x1000 \<in> pool_addrs m - free_addrs m"
  using shared_frames_never_free [OF cap_example_reach, of 1 "\<lparr>so_frames = [0x1000], so_refs = 1\<rparr>"]
  by (auto simp: cap_example_def)



text \<open>States with two processes, one of them holding display handles, and an owner word.\<close>

definition display_state :: "handle_table \<Rightarrow> handle_table \<Rightarrow> u64 \<Rightarrow> cap_state" where
  "display_state t1 t2 own =
     \<lparr>records = [(1, \<lparr>cr_owner = None, cr_process = Some ((new_process 1 False)\<lparr>handles := t1\<rparr>)\<rparr>),
                 (2, \<lparr>cr_owner = None, cr_process = Some ((new_process 2 False)\<lparr>handles := t2\<rparr>)\<rparr>)],
      globals = \<lparr>display_owner = own, input_owner = 0, shared_objects = [], next_shared_vm_id = 1,
                 g_pmm = None\<rparr>\<rparr>"

definition display_entry :: handle_entry where
  "display_entry = \<lparr>object = Display, rights = RIGHT_DISPLAY_MASTER AND RIGHTS_ALL\<rparr>"

lemma display_state_small:
  assumes "\<forall>h e. (h, e) \<in> set (entries t1) \<union> set (entries t2) \<longrightarrow> object e = Display"
  shows "cap_small (display_state t1 t2 own)"
proof -
  have "bt_sum (\<lambda>e. one_if (object e = SharedFrames i)) es = 0"
    if "\<forall>h e. (h, e) \<in> set es \<longrightarrow> object e = Display" for i and es :: "(u32, handle_entry) btree"
    using that by (induction es) auto
  then have "total_refs (display_state t1 t2 own) i = 0" for i
    using assms by (simp add: total_refs_def display_state_def record_refs_def new_process_def
        proc_refs_def handle_refs_def)
  then show ?thesis by (simp add: cap_small_def refs_small_def display_state_def usize_modulus_def)
qed

lemma display_local1:
  assumes "cap_reach (display_state t1 t2 own)"
    and "\<forall>h e. (h, e) \<in> set (entries t1) \<union> set (entries t2) \<longrightarrow> object e = Display"
    and "local_op op ((new_process 1 False)\<lparr>handles := t1\<rparr>) (globals (display_state t1 t2 own)) =
      Some ((new_process 1 False)\<lparr>handles := t1'\<rparr>, globals (display_state t1 t2 own'))"
  shows "cap_reach (display_state t1' t2 own')"
  using cap_reach.local [OF assms(1) display_state_small [OF assms(2)] _ assms(3), of 1]
  by (simp add: display_state_def proc_of_def set_proc_def)

lemma display_local2:
  assumes "cap_reach (display_state t1 t2 own)"
    and "\<forall>h e. (h, e) \<in> set (entries t1) \<union> set (entries t2) \<longrightarrow> object e = Display"
    and "local_op op ((new_process 2 False)\<lparr>handles := t2\<rparr>) (globals (display_state t1 t2 own)) =
      Some ((new_process 2 False)\<lparr>handles := t2'\<rparr>, globals (display_state t1 t2 own'))"
  shows "cap_reach (display_state t1 t2' own')"
  using cap_reach.local [OF assms(1) display_state_small [OF assms(2)] _ assms(3), of 2]
  by (simp add: display_state_def proc_of_def set_proc_def)

text \<open>
  C14. Display exclusivity is broken by acquiring twice: acquisition is idempotent for the owner and
  gives it a second handle, and closing either handle clears the owner word. There is a reachable
  state in which two different processes both hold a display-master handle, and the recorded owner
  is the second process although the first never gave up its remaining handle.
\<close>
theorem display_double_master:
  "\<exists>s p q hp hq. cap_reach s \<and> proc_of s 1 = Some p \<and> proc_of s 2 = Some q \<and>
     handle_get hp (handles p) = Inr display_entry \<and> handle_get hq (handles q) = Inr display_entry \<and>
     display_owner (globals s) = 2"
proof -
  note eval = handle_display_acquire_def try_acquire_def compare_exchange_def put_handle_def
    handle_insert_next handle_close_def handle_remove_def release_owner_def new_process_def
    handle_table_new_def display_state_def display_entry_def bt_del_def
  let ?one = "\<lparr>entries = [(1, display_entry)], next_handle = 2\<rparr>"
  let ?two = "\<lparr>entries = [(1, display_entry), (2, display_entry)], next_handle = 3\<rparr>"
  let ?left = "\<lparr>entries = [(2, display_entry)], next_handle = 3\<rparr>"
  have "cap_reach (cap_boot None)" by (rule boot) simp
  from spawn [OF spawn [OF this, of 1 None False], of 2 None False]
  have "cap_reach (display_state handle_table_new handle_table_new 0)"
    by (simp add: cap_boot_def display_state_def new_process_def)
  then have "cap_reach (display_state ?one handle_table_new 1)"
    by (rule display_local1 [where op = DisplayAcquire]) (simp_all add: eval)
  then have "cap_reach (display_state ?two handle_table_new 1)"
    by (rule display_local1 [where op = DisplayAcquire]) (simp_all add: eval)
  then have "cap_reach (display_state ?left handle_table_new 0)"
    by (rule display_local1 [where op = "Close 1"]) (simp_all add: eval)
  then have "cap_reach (display_state ?left ?one 2)"
    by (rule display_local2 [where op = DisplayAcquire]) (simp_all add: eval)
  moreover have "proc_of (display_state ?left ?one 2) 1 = Some ((new_process 1 False)\<lparr>handles := ?left\<rparr>)"
    "proc_of (display_state ?left ?one 2) 2 = Some ((new_process 2 False)\<lparr>handles := ?one\<rparr>)"
    "display_owner (globals (display_state ?left ?one 2)) = 2"
    by (simp_all add: proc_of_def display_state_def)
  moreover have "handle_get 2 (handles ((new_process 1 False)\<lparr>handles := ?left\<rparr>)) = Inr display_entry"
    "handle_get 1 (handles ((new_process 2 False)\<lparr>handles := ?one\<rparr>)) = Inr display_entry"
    by (simp_all add: handle_get_def)
  ultimately show ?thesis by blast
qed

end
