(* ===== verification/Process_Vm.thy ===== *)
theory Process_Vm
  imports Paging Capabilities
begin

text \<open>
  The memory operations of a process (\<^verbatim>\<open>kernel/src/process/mod.rs\<close>) over its address space: anonymous
  mappings with guard pages, shared frame objects mapped into the process, unmapping, changing access,
  thread-local storage, and the checks the memory system calls add (\<^verbatim>\<open>kernel/src/syscall/mod.rs\<close>).
  The frame allocator is the one the page tables use.
\<close>

section \<open>State\<close>

definition USER_MMAP_BASE :: usize where
  "USER_MMAP_BASE = 0x1000000000"

definition USER_MMAP_END :: usize where
  "USER_MMAP_END = 0x700000000000"

definition USER_ADDRESS_END :: u64 where
  "USER_ADDRESS_END = 0x800000000000"

definition USER_PAGE_SIZE :: usize where
  "USER_PAGE_SIZE = 4096"

record vm_process =
  vp_caps :: cap_process
  vp_space :: "address_space option"
  next_mmap_addr :: usize
  guard_regions :: "(usize, usize) btree"
  tls_image :: bytes
  tls_mem_size :: usize
  tls_align :: usize
  tls_allocation :: "(usize \<times> usize) option"
  vp_fs_base :: u64

record vm_world =
  vw_machine :: machine
  vw_globals :: cap_globals

text \<open>An operation on the shared objects, with the frame allocator of the machine.\<close>

definition on_globals :: "(cap_globals \<Rightarrow> cap_globals) \<Rightarrow> vm_world \<Rightarrow> vm_world" where
  "on_globals f w =
     (let g = f ((vw_globals w)\<lparr>g_pmm := m_pmm (vw_machine w)\<rparr>)
      in w\<lparr>vw_globals := g, vw_machine := (vw_machine w)\<lparr>m_pmm := g_pmm g\<rparr>\<rparr>)"

section \<open>Ranges of pages\<close>

definition vm_range_end :: "usize \<Rightarrow> usize \<Rightarrow> process_error + usize" where
  "vm_range_end start len =
     (if start < USER_MMAP_BASE \<or> start mod USER_PAGE_SIZE \<noteq> 0 \<or> len = 0 then Inl InvalidMemoryRange
      else
        case checked_add len (USER_PAGE_SIZE - 1) of
          None \<Rightarrow> Inl InvalidMemoryRange
        | Some v \<Rightarrow>
            (case checked_add start (align_down v USER_PAGE_SIZE) of
               None \<Rightarrow> Inl InvalidMemoryRange
             | Some fin \<Rightarrow> if USER_MMAP_END < fin then Inl InvalidMemoryRange else Inr fin))"

text \<open>The pages from \<open>start\<close> while below \<open>fin\<close>.\<close>

definition page_list :: "usize \<Rightarrow> usize \<Rightarrow> usize list" where
  "page_list start fin = map (\<lambda>i. start + i * USER_PAGE_SIZE) [0..<div_ceil (fin - start) USER_PAGE_SIZE]"

fun check_free :: "usize list \<Rightarrow> address_space \<Rightarrow> machine \<Rightarrow> process_error + unit" where
  "check_free [] sp st = Inr ()"
| "check_free (p # ps) sp st =
     (case translate_user_page sp p st of
        Inr None \<Rightarrow> check_free ps sp st
      | Inr (Some _) \<Rightarrow> Inl AddressInUse
      | Inl _ \<Rightarrow> Inl InvalidMemoryRange)"

definition unmap_pages :: "usize list \<Rightarrow> address_space \<times> machine \<Rightarrow> address_space \<times> machine" where
  "unmap_pages ps s = fold (\<lambda>p (sp, st). case unmap_user_page p sp st of (sp', st', _) \<Rightarrow> (sp', st')) ps s"

text \<open>Mapping page after page; a failure unmaps the pages of this call, oldest first.\<close>

fun map_pages :: "usize list \<Rightarrow> u64 \<Rightarrow> usize list \<Rightarrow> address_space \<times> machine \<Rightarrow> (address_space \<times> machine) \<times> bool" where
  "map_pages [] fl mapped s = (s, True)"
| "map_pages (p # ps) fl mapped (sp, st) =
     (case map_user_page p fl sp st of
        (sp', st', Inl _) \<Rightarrow> (unmap_pages mapped (sp', st'), False)
      | (sp', st', Inr _) \<Rightarrow> map_pages ps fl (mapped @ [p]) (sp', st'))"

fun protect_pages :: "usize list \<Rightarrow> u64 \<Rightarrow> bool \<Rightarrow> address_space \<Rightarrow> machine \<Rightarrow> machine \<times> (process_error + unit)" where
  "protect_pages [] fl present sp st = (st, Inr ())"
| "protect_pages (p # ps) fl present sp st =
     (case protect_user_page p fl present sp st of
        (st', Inl _) \<Rightarrow> (st', Inl InvalidMemoryRange)
      | (st', Inr _) \<Rightarrow> protect_pages ps fl present sp st')"

definition prot_flags :: "bool \<Rightarrow> bool \<Rightarrow> u64" where
  "prot_flags writable executable =
     (if writable then PF_WRITABLE else 0) OR (if executable then 0 else PF_NO_EXECUTE)"

section \<open>Anonymous memory\<close>

text \<open>The part after the range has been chosen and checked.\<close>

definition map_chosen ::
  "usize \<Rightarrow> usize \<Rightarrow> usize \<Rightarrow> usize \<Rightarrow> bool \<Rightarrow> bool \<Rightarrow> bool \<Rightarrow> bool \<Rightarrow> address_space \<Rightarrow> vm_process \<Rightarrow> vm_world \<Rightarrow>
     vm_process \<times> vm_world \<times> (process_error + usize)" where
  "map_chosen requested start fin map_length writable executable guarded accessible sp p w =
     (case check_free (page_list start fin) sp (vw_machine w) of
        Inl e \<Rightarrow> (p, w, Inl e)
      | Inr _ \<Rightarrow>
          (case map_pages (page_list start fin) (prot_flags writable executable) [] (sp, vw_machine w) of
             ((sp1, st1), False) \<Rightarrow> (p\<lparr>vp_space := Some sp1\<rparr>, w\<lparr>vw_machine := st1\<rparr>, Inl OutOfMemory)
           | ((sp1, st1), True) \<Rightarrow>
               let p1 = p\<lparr>vp_space := Some sp1, next_mmap_addr := (if requested = 0 then fin else next_mmap_addr p)\<rparr>;
                   lo = (if guarded then start + USER_PAGE_SIZE else start);
                   hi = (if guarded then fin - USER_PAGE_SIZE else fin)
               in case (if accessible then (st1, Inr ())
                        else protect_pages (page_list lo hi) PF_NO_EXECUTE False sp1 st1) of
                    (st2, Inl e) \<Rightarrow> (p1, w\<lparr>vw_machine := st2\<rparr>, Inl e)
                  | (st2, Inr _) \<Rightarrow>
                      if guarded then
                        (case protect_pages [start, fin - USER_PAGE_SIZE] PF_NO_EXECUTE False sp1 st2 of
                           (st3, Inl e) \<Rightarrow> (p1, w\<lparr>vw_machine := st3\<rparr>, Inl e)
                         | (st3, Inr _) \<Rightarrow>
                             (p1\<lparr>guard_regions := bt_put (start + USER_PAGE_SIZE) map_length (guard_regions p1)\<rparr>,
                              w\<lparr>vw_machine := st3\<rparr>, Inr (start + USER_PAGE_SIZE)))
                      else (p1, w\<lparr>vw_machine := st2\<rparr>, Inr start)))"

definition map_anonymous ::
  "usize \<Rightarrow> usize \<Rightarrow> bool \<Rightarrow> bool \<Rightarrow> bool \<Rightarrow> bool \<Rightarrow> vm_process \<Rightarrow> vm_world \<Rightarrow>
     vm_process \<times> vm_world \<times> (process_error + usize)" where
  "map_anonymous requested len writable executable guarded accessible p w =
     (if cp_is_kernel (vp_caps p) \<or> len = 0 then (p, w, Inl InvalidMemoryRange)
      else
        case checked_add len (USER_PAGE_SIZE - 1) of
          None \<Rightarrow> (p, w, Inl InvalidMemoryRange)
        | Some v \<Rightarrow>
            let map_length = align_down v USER_PAGE_SIZE
            in case (if guarded then checked_add map_length (2 * USER_PAGE_SIZE) else Some map_length) of
                 None \<Rightarrow> (p, w, Inl InvalidMemoryRange)
               | Some total_length \<Rightarrow>
                   if requested \<noteq> 0 \<and> requested mod USER_PAGE_SIZE \<noteq> 0 then (p, w, Inl InvalidMemoryRange)
                   else
                     let start = (if requested = 0 then next_mmap_addr p else requested)
                     in case checked_add start total_length of
                          None \<Rightarrow> (p, w, Inl InvalidMemoryRange)
                        | Some fin \<Rightarrow>
                            if start < USER_MMAP_BASE \<or> USER_MMAP_END < fin then (p, w, Inl InvalidMemoryRange)
                            else
                              case vp_space p of
                                None \<Rightarrow> (p, w, Inl NoAddressSpace)
                              | Some sp \<Rightarrow>
                                  map_chosen requested start fin map_length writable executable guarded accessible sp p w)"

section \<open>Shared objects\<close>

text \<open>Mapping the frames one after the other; a failure unmaps those mapped by this call.\<close>

fun map_frames ::
  "(usize \<times> usize) list \<Rightarrow> u64 \<Rightarrow> usize list \<Rightarrow> address_space \<times> machine \<Rightarrow> (address_space \<times> machine) \<times> bool" where
  "map_frames [] fl mapped s = (s, True)"
| "map_frames ((page, frame) # rest) fl mapped (sp, st) =
     (if (case translate_user_page sp page st of Inr (Some _) \<Rightarrow> True | _ \<Rightarrow> False)
      then (unmap_pages mapped (sp, st), False)
      else
        case map_user_frame page frame fl sp st of
          (sp', st', Inl _) \<Rightarrow> (unmap_pages mapped (sp', st'), False)
        | (sp', st', Inr _) \<Rightarrow> map_frames rest fl (mapped @ [page]) (sp', st'))"

definition map_shared_vm ::
  "u64 \<Rightarrow> usize \<Rightarrow> bool \<Rightarrow> vm_process \<Rightarrow> vm_world \<Rightarrow> vm_process \<times> vm_world \<times> (process_error + usize)" where
  "map_shared_vm sid requested writable p w =
     (if cp_is_kernel (vp_caps p) then (p, w, Inl InvalidUserContext)
      else
        case bt_get (shared_objects (vw_globals w)) sid of
          None \<Rightarrow> (p, w, Inl InvalidMemoryRange)
        | Some obj \<Rightarrow>
            let frames = so_frames obj;
                n = length frames;
                w1 = w\<lparr>vw_globals := (vw_globals w)\<lparr>shared_objects :=
                       bt_put sid (obj\<lparr>so_refs := wrap_add (so_refs obj) n\<rparr>) (shared_objects (vw_globals w))\<rparr>\<rparr>;
                start = (if requested = 0 then next_mmap_addr p else requested);
                ofin = checked_add start (wrap_mul n USER_PAGE_SIZE)
            in if \<not> (USER_MMAP_BASE \<le> start \<and> start mod USER_PAGE_SIZE = 0 \<and>
                      (case ofin of None \<Rightarrow> False | Some fin \<Rightarrow> fin \<le> USER_MMAP_END))
               then (p, on_globals (shared_vm_release sid n) w1, Inl InvalidMemoryRange)
               else
                 case vp_space p of
                   None \<Rightarrow> (p, on_globals (shared_vm_release sid n) w1, Inl NoAddressSpace)
                 | Some sp \<Rightarrow>
                     let pages = map (\<lambda>i. start + i * USER_PAGE_SIZE) [0..<n]
                     in case map_frames (zip pages frames) (PF_NO_EXECUTE OR (if writable then PF_WRITABLE else 0)) []
                               (sp, vw_machine w1) of
                          ((sp1, st1), False) \<Rightarrow>
                            (p\<lparr>vp_space := Some sp1\<rparr>, on_globals (shared_vm_release sid n) (w1\<lparr>vw_machine := st1\<rparr>), Inl AddressInUse)
                        | ((sp1, st1), True) \<Rightarrow>
                            (p\<lparr>vp_space := Some sp1,
                               vp_caps := (vp_caps p)\<lparr>shared_pages := fold (\<lambda>pg m. bt_put pg sid m) pages (shared_pages (vp_caps p))\<rparr>,
                               next_mmap_addr := (if requested = 0 then the ofin else next_mmap_addr p)\<rparr>,
                             w1\<lparr>vw_machine := st1\<rparr>, Inr start))"

section \<open>Unmapping and protecting\<close>

text \<open>The guarded region a range touches: it must be the whole of it.\<close>

fun guard_of :: "usize \<Rightarrow> usize \<Rightarrow> (usize \<times> usize) list \<Rightarrow> (usize \<times> usize) option \<Rightarrow> process_error + (usize \<times> usize) option" where
  "guard_of start fin [] g = Inr g"
| "guard_of start fin ((usable, len) # rest) g =
     (let lo = wrap_sub usable USER_PAGE_SIZE; hi = wrap_add (wrap_add usable len) USER_PAGE_SIZE
      in if start < hi \<and> lo < fin then
           if start \<noteq> usable \<or> fin \<noteq> wrap_add usable len then Inl InvalidMemoryRange
           else guard_of start fin rest (Some (usable, len))
         else guard_of start fin rest g)"

definition all_mapped :: "usize list \<Rightarrow> address_space \<Rightarrow> machine \<Rightarrow> bool" where
  "all_mapped ps sp st \<longleftrightarrow> (\<forall>p \<in> set ps. case translate_user_page sp p st of Inr (Some _) \<Rightarrow> True | _ \<Rightarrow> False)"

fun unmap_loop :: "usize list \<Rightarrow> address_space \<Rightarrow> vm_process \<Rightarrow> vm_world \<Rightarrow> address_space \<times> vm_process \<times> vm_world \<times> (process_error + unit)" where
  "unmap_loop [] sp p w = (sp, p, w, Inr ())"
| "unmap_loop (page # rest) sp p w =
     (case unmap_user_page page sp (vw_machine w) of
        (sp', st', Inl _) \<Rightarrow> (sp', p, w\<lparr>vw_machine := st'\<rparr>, Inl InvalidMemoryRange)
      | (sp', st', Inr _) \<Rightarrow>
          let w' = w\<lparr>vw_machine := st'\<rparr>
          in case bt_get (shared_pages (vp_caps p)) page of
               None \<Rightarrow> unmap_loop rest sp' p w'
             | Some sid \<Rightarrow>
                 unmap_loop rest sp'
                   (p\<lparr>vp_caps := (vp_caps p)\<lparr>shared_pages := bt_del page (shared_pages (vp_caps p))\<rparr>\<rparr>)
                   (on_globals (shared_vm_release sid 1) w'))"

text \<open>A failing unmap of a guard page panics.\<close>

definition unmap_range :: "usize \<Rightarrow> usize \<Rightarrow> vm_process \<Rightarrow> vm_world \<Rightarrow> (vm_process \<times> vm_world \<times> (process_error + unit)) outcome" where
  "unmap_range start len p w =
     (case vm_range_end start len of
        Inl e \<Rightarrow> Ret (p, w, Inl e)
      | Inr fin \<Rightarrow>
          (case guard_of start fin (guard_regions p) None of
             Inl e \<Rightarrow> Ret (p, w, Inl e)
           | Inr guard \<Rightarrow>
               (case vp_space p of
                  None \<Rightarrow> Ret (p, w, Inl NoAddressSpace)
                | Some sp \<Rightarrow>
                    if \<not> all_mapped (page_list start fin) sp (vw_machine w) then Ret (p, w, Inl InvalidMemoryRange)
                    else
                      case unmap_loop (page_list start fin) sp p w of
                        (sp1, p1, w1, Inl e) \<Rightarrow> Ret (p1\<lparr>vp_space := Some sp1\<rparr>, w1, Inl e)
                      | (sp1, p1, w1, Inr _) \<Rightarrow>
                          (case guard of
                             None \<Rightarrow> Ret (p1\<lparr>vp_space := Some sp1\<rparr>, w1, Inr ())
                           | Some (usable, glen) \<Rightarrow>
                               (case unmap_user_page (wrap_sub usable USER_PAGE_SIZE) sp1 (vw_machine w1) of
                                  (sp2, st2, Inl _) \<Rightarrow> Panic
                                | (sp2, st2, Inr _) \<Rightarrow>
                                    (case unmap_user_page (wrap_add usable glen) sp2 st2 of
                                       (sp3, st3, Inl _) \<Rightarrow> Panic
                                     | (sp3, st3, Inr _) \<Rightarrow>
                                         Ret (p1\<lparr>vp_space := Some sp3, guard_regions := bt_del usable (guard_regions p1)\<rparr>,
                                              w1\<lparr>vw_machine := st3\<rparr>, Inr ())))))))"

definition hits_guard :: "usize \<Rightarrow> usize \<Rightarrow> usize \<times> usize \<Rightarrow> bool" where
  "hits_guard start fin g \<longleftrightarrow>
     (case g of (usable, len) \<Rightarrow>
        start \<le> wrap_sub usable USER_PAGE_SIZE \<and> wrap_sub usable USER_PAGE_SIZE < fin \<or>
        start \<le> wrap_add usable len \<and> wrap_add usable len < fin)"

definition protect_range ::
  "usize \<Rightarrow> usize \<Rightarrow> bool \<Rightarrow> bool \<Rightarrow> bool \<Rightarrow> vm_process \<Rightarrow> vm_world \<Rightarrow> vm_world \<times> (process_error + unit)" where
  "protect_range start len writable executable present p w =
     (case vm_range_end start len of
        Inl e \<Rightarrow> (w, Inl e)
      | Inr fin \<Rightarrow>
          if \<exists>g \<in> set (guard_regions p). hits_guard start fin g then (w, Inl InvalidMemoryRange)
          else
            case vp_space p of
              None \<Rightarrow> (w, Inl NoAddressSpace)
            | Some sp \<Rightarrow>
                if \<not> all_mapped (page_list start fin) sp (vw_machine w) then (w, Inl InvalidMemoryRange)
                else
                  case protect_pages (page_list start fin) (prot_flags writable executable) present sp (vw_machine w) of
                    (st', r) \<Rightarrow> (w\<lparr>vw_machine := st'\<rparr>, r))"

section \<open>What the page operations leave alone\<close>

text \<open>
  Frames that are neither free nor page tables keep their contents; the frames that are free or page
  tables afterwards were so before.
\<close>

definition advance :: "address_space \<Rightarrow> machine \<Rightarrow> address_space \<Rightarrow> machine \<Rightarrow> bool" where
  "advance sp st sp' st' \<longleftrightarrow> pool_set st' = pool_set st \<and>
     free_set st' \<union> set (page_table_frames sp') \<subseteq> free_set st \<union> set (page_table_frames sp) \<and>
     set (page_table_frames sp) \<subseteq> set (page_table_frames sp') \<and>
     (\<forall>f i. frame_addr_ok f \<longrightarrow> f \<notin> free_set st \<union> set (page_table_frames sp) \<longrightarrow> i < 512 \<longrightarrow>
        mem st' (slot f i) = mem st (slot f i))"

lemma advance_refl: "advance sp st sp st"
  by (simp add: advance_def)

lemma advance_trans: "advance sp st sp1 st1 \<Longrightarrow> advance sp1 st1 sp2 st2 \<Longrightarrow> advance sp st sp2 st2"
  unfolding advance_def by (metis (no_types, lifting) subset_iff)

lemma advance_mem: "advance sp st sp' st' \<Longrightarrow> frame_addr_ok f \<Longrightarrow> f \<notin> free_set st \<union> set (page_table_frames sp) \<Longrightarrow> i < 512 \<Longrightarrow>
    mem st' (slot f i) = mem st (slot f i)"
  by (simp add: advance_def)

lemma grown_advance: "grown sp st sp' st' \<Longrightarrow> advance sp st sp' st'"
  unfolding grown_def advance_def by fastforce

lemma write_advance:
  assumes "tab_ok sp st" "table_at (mem st) (root_frame sp) p = Some t" "user_path p" "i < 512"
  shows "advance sp st sp (st\<lparr>mem := (mem st)(slot t i := e)\<rparr>)"
proof -
  have t: "t \<in> set (page_table_frames sp)" "frame_addr_ok t"
    using assms(1,2,3) tables_okD(1,2) [of "mem st" "root_frame sp" "set (page_table_frames sp)" p t] by (auto simp: tab_ok_def)
  have "slot f j \<noteq> slot t i" if "frame_addr_ok f" "f \<notin> set (page_table_frames sp)" "j < 512" for f j
    using slot_inj [of f t j i] that t assms(4) by (auto simp: frame_addr_ok_def)
  then show ?thesis by (simp add: advance_def)
qed

lemma p1_index_small: "p1_index v < 512"
  by (simp add: p1_index_def)

lemma map_user_frame_advance:
  assumes "tab_ok sp st" "flags_ok fl" "frame_addr_ok ph" "map_user_frame v ph fl sp st = (sp', st', r)"
  shows "advance sp st sp' st'"
proof (cases r)
  case (Inl e)
  then show ?thesis using map_user_frame_spec [OF assms] grown_advance by simp
next
  case (Inr u)
  obtain st1 p1 where g: "grown sp st sp' st1" and v: "user_page v" and t: "table_at (mem st1) (root_frame sp) (page_path v) = Some p1"
    and st': "st' = st1\<lparr>mem := (mem st1)(slot p1 (p1_index v) := pte_make ph (fl OR PF_PRESENT OR PF_USER))\<rparr>"
    using map_user_frame_spec [OF assms] Inr by auto
  have "tab_ok sp' st1" "root_frame sp' = root_frame sp" using g by (simp_all add: grown_def)
  moreover have "user_path (page_path v)" using page_path_user [OF v] by (simp add: user_slot_def)
  ultimately show ?thesis using advance_trans [OF grown_advance [OF g] write_advance, of "page_path v" p1 "p1_index v"] t p1_index_small
    unfolding st' by simp
qed

lemma pmm_advance:
  assumes "pool_set st' = pool_set st" "free_set st' \<subseteq> free_set st" "f \<in> free_set st" "frames_ok st"
    "mem st' = mem st \<or> mem st' = zero_page f (mem st)"
  shows "advance sp st sp st'"
proof -
  have "frame_addr_ok f" using assms pool_frame_ok free_in_pool by blast
  then have "mem st' (slot g i) = mem st (slot g i)" if "frame_addr_ok g" "g \<notin> free_set st" "i < 512" for g i
    using assms(3,5) that zero_page_other [of g f i "mem st"] by (cases "g = f") (auto simp: frame_addr_ok_def)
  then show ?thesis using assms(1,2) by (auto simp: advance_def)
qed

lemma map_user_page_advance:
  assumes ok: "space_ok F sp st" and fl: "flags_ok fl" and run: "map_user_page v fl sp st = (sp', st', r)"
  shows "advance sp st sp' st'"
proof (cases "bad_user_page v")
  case True
  then show ?thesis using run advance_refl by (auto simp: map_user_page_def)
next
  case v: False
  note so = space_okD [OF ok]
  obtain pm where pm: "m_pmm st = Some pm" using so(3) by (auto simp: frames_ok_def)
  obtain pm' a where al: "alloc_frame pm = (pm', a)" by fastforce
  show ?thesis
  proof (cases a)
    case None
    have "sp' = sp" "st' = st\<lparr>m_pmm := Some pm', mem := mem st\<rparr>" using run v pm al None by (auto simp: map_user_page_def)
    then show ?thesis using alloc_machine [OF so(3) pm al, of "mem st"] None by (simp add: advance_def)
  next
    case (Some f)
    define st0 where "st0 = st\<lparr>m_pmm := Some pm', mem := zero_page f (mem st)\<rparr>"
    note s0 = space_ok_alloc [OF ok pm(1) al [unfolded Some] st0_def]
    note am = alloc_machine [OF so(3) pm al, of "zero_page f (mem st)", folded st0_def]
    have a0: "advance sp st sp st0" using am Some so(3) by (intro pmm_advance [of _ _ f]) (auto simp: st0_def)
    obtain sp1 st1 r1 where m: "map_user_frame v f (fl OR PF_PRESENT OR PF_USER) sp st0 = (sp1, st1, r1)" by (metis prod_cases3)
    have flo: "flags_ok (fl OR PF_PRESENT OR PF_USER)" by (intro flags_ok_or fl flags_ok_consts)
    have a1: "advance sp st sp1 st1" using advance_trans [OF a0 map_user_frame_advance [OF _ flo _ m]] s0 space_okD(1) by blast
    show ?thesis
    proof (cases r1)
      case (Inr u)
      then have "st' = st1" "page_table_frames sp' = page_table_frames sp1"
        using run v pm al Some m by (auto simp: map_user_page_def st0_def)
      then show ?thesis using a1 by (simp add: advance_def)
    next
      case (Inl e)
      have e: "sp' = sp1" "st' = st1\<lparr>m_pmm := map_option (free_frame f) (m_pmm st1)\<rparr>"
        using run v pm al Some m Inl by (auto simp: map_user_page_def st0_def)
      have "grown sp st0 sp1 st1" using map_user_frame_spec [OF _ flo _ m] s0 space_okD(1) Inl by auto
      then have g: "frames_ok st1" "pool_set st1 = pool_set st0" by (simp_all add: grown_def tab_ok_def)
      have "f \<in> pool_set st1" "f \<in> free_set st" using s0 g(2) by auto
      then show ?thesis using a1 free_machine [OF g(1), of f] unfolding e advance_def by auto
    qed
  qed
qed

lemma protect_user_page_advance:
  assumes ok: "space_ok F sp st" and run: "protect_user_page v fl present sp st = (st', r)"
  shows "advance sp st sp st'"
proof (cases "bad_user_page v \<or> space_view sp st v = None")
  case True
  then show ?thesis using run space_view_mapping [OF ok, of v] user_page_not_bad [of v] advance_refl
    by (auto simp: protect_user_page_def)
next
  case False
  then obtain f fl0 where v: "space_view sp st v = Some (f, fl0)" "\<not> bad_user_page v" by auto
  obtain p1 where p1: "user_page v" "table_at (mem st) (root_frame sp) (page_path v) = Some p1"
    "leaf_slot (root_frame sp) v (mem st) = slot p1 (p1_index v)" using mapped_leaf [OF ok v(1)] by blast
  have "user_path (page_path v)" using page_path_user [OF p1(1)] by (simp add: user_slot_def)
  then show ?thesis using run v p1 space_view_mapping [OF ok p1(1)] write_advance [OF space_okD(1) [OF ok] p1(2) _ p1_index_small]
    by (auto simp: protect_user_page_def Let_def)
qed

lemma unmap_user_page_pool:
  assumes ok: "space_ok F sp st" and run: "unmap_user_page v sp st = (sp', st', r)"
  shows "pool_set st' = pool_set st"
proof (cases "bad_user_page v \<or> space_view sp st v = None")
  case True
  then show ?thesis using run space_view_mapping [OF ok, of v] user_page_not_bad [of v]
    by (auto simp: unmap_user_page_def)
next
  case False
  then obtain f fl0 where v: "space_view sp st v = Some (f, fl0)" "\<not> bad_user_page v" by auto
  then have u: "user_page v" by (simp add: user_page_not_bad)
  have fo: "frame_addr_ok f" using space_frame_ok [OF ok v(1)] by simp
  show ?thesis
  proof (cases "f \<in> set (user_frames sp)")
    case True
    then have "f \<in> pool_set st" using ok by (auto simp: space_ok_def)
    then have "pool_set (st\<lparr>mem := m, m_pmm := map_option (free_frame f) (m_pmm st)\<rparr>) = pool_set st" for m
      using free_machine [of "st\<lparr>mem := m\<rparr>" f] space_okD(3) [OF ok] by simp
    then show ?thesis using run v space_view_mapping [OF ok u] align_down_frame [OF fo]
      by (auto simp: unmap_user_page_def Let_def split: option.splits)
  next
    case False
    then have "position (\<lambda>owned. owned = f) (user_frames sp) = None"
      by (auto simp: position_None)
    then show ?thesis using run v space_view_mapping [OF ok u] align_down_frame [OF fo]
      by (auto simp: unmap_user_page_def Let_def)
  qed
qed

section \<open>The page loops\<close>

lemma translate_view:
  "space_ok F sp st \<Longrightarrow> \<not> bad_user_page p \<Longrightarrow> translate_user_page sp p st = Inr (map_option fst (space_view sp st p))"
  by (simp add: translate_user_page_def space_view_mapping user_page_not_bad)

lemma check_free_spec:
  "space_ok F sp st \<Longrightarrow> \<forall>p \<in> set ps. \<not> bad_user_page p \<Longrightarrow>
     check_free ps sp st = (if \<forall>p \<in> set ps. space_view sp st p = None then Inr () else Inl AddressInUse)"
  by (induction ps) (auto simp: translate_view split: option.splits)

lemma all_mapped_spec:
  "space_ok F sp st \<Longrightarrow> \<forall>p \<in> set ps. \<not> bad_user_page p \<Longrightarrow>
     all_mapped ps sp st \<longleftrightarrow> (\<forall>p \<in> set ps. space_view sp st p \<noteq> None)"
  unfolding all_mapped_def by (intro ball_cong refl) (auto simp: translate_view split: option.splits)

lemma unmap_pages_spec:
  "space_ok F sp st \<Longrightarrow> \<forall>p \<in> set ps. \<not> bad_user_page p \<Longrightarrow> unmap_pages ps (sp, st) = (sp', st') \<Longrightarrow>
     space_ok F sp' st' \<and> held sp' st' = held sp st \<and> pool_set st' = pool_set st \<and>
     space_view sp' st' = (\<lambda>v. if v \<in> set ps then None else space_view sp st v)"
proof (induction ps arbitrary: sp st)
  case (Cons p ps)
  obtain sp1 st1 r where u: "unmap_user_page p sp st = (sp1, st1, r)" by (metis prod_cases3)
  note s = unmap_user_page_spec [OF Cons.prems(1) u] unmap_user_page_pool [OF Cons.prems(1) u]
  obtain b where "r = Inr b" using s(1) Cons.prems(2) by (cases r) auto
  then have h: "held sp1 st1 = held sp st" "space_ok F sp1 st1" "space_view sp1 st1 = (space_view sp st)(p := None)"
    using s(1) by (auto simp: held_def)
  have "unmap_pages ps (sp1, st1) = (sp', st')" using Cons.prems(3) u by (simp add: unmap_pages_def)
  from Cons.IH [OF h(2) _ this] Cons.prems(2) h s(2) show ?case by (auto simp: fun_eq_iff)
qed (simp add: unmap_pages_def)

lemma protect_pages_spec:
  "space_ok F sp st \<Longrightarrow> flags_ok fl \<Longrightarrow> \<forall>p \<in> set ps. \<not> bad_user_page p \<Longrightarrow> distinct ps \<Longrightarrow>
     protect_pages ps fl present sp st = (st', r) \<Longrightarrow>
     r = Inr () \<and> space_ok F sp st' \<and> free_set st' = free_set st \<and> advance sp st sp st' \<and>
     space_view sp st' = (\<lambda>v. if v \<in> set ps then map_option (\<lambda>(f, _). (f, access_flags fl present)) (space_view sp st v)
       else space_view sp st v)"
proof (induction ps arbitrary: st)
  case (Cons p ps)
  obtain st1 q where u: "protect_user_page p fl present sp st = (st1, q)" by fastforce
  note s = protect_user_page_spec [OF Cons.prems(1,2) u] protect_user_page_advance [OF Cons.prems(1) u]
  obtain b where q: "q = Inr b" using s(1) Cons.prems(3) by (cases q) auto
  have v1: "space_ok F sp st1" "free_set st1 = free_set st"
    "space_view sp st1 = (space_view sp st)(p := map_option (\<lambda>(f, _). (f, access_flags fl present)) (space_view sp st p))"
    using s(1) q by auto
  have run: "protect_pages ps fl present sp st1 = (st', r)" using Cons.prems(5) u q by simp
  have "r = Inr () \<and> space_ok F sp st' \<and> free_set st' = free_set st1 \<and> advance sp st1 sp st' \<and>
     space_view sp st' = (\<lambda>v. if v \<in> set ps then map_option (\<lambda>(f, _). (f, access_flags fl present)) (space_view sp st1 v)
       else space_view sp st1 v)"
    by (rule Cons.IH [OF v1(1) Cons.prems(2) _ _ run]) (use Cons.prems in auto)
  then show ?case using v1 advance_trans [OF s(2)] Cons.prems(4) by (auto simp: fun_eq_iff)
qed (simp add: advance_refl)

lemma advance_free:
  assumes "advance sp st sp' st'" "space_ok F sp' st'"
  shows "free_set st' \<subseteq> free_set st"
proof -
  have "free_set st' \<inter> set (page_table_frames sp') = {}" using assms(2) by (auto simp: space_ok_def tab_ok_def)
  then show ?thesis using assms(1) unfolding advance_def by blast
qed

lemma space_view_not_free:
  assumes "space_ok F sp st" "space_view sp st v = Some (f, fl)"
  shows "f \<notin> free_set st \<union> set (page_table_frames sp)"
proof -
  have "F \<inter> (set (page_table_frames sp) \<union> free_set st) = {}" "set (user_frames sp) \<inter> free_set st = {}"
    "set (page_table_frames sp) \<inter> set (user_frames sp) = {}" using assms(1) by (auto simp: space_ok_def)
  then show ?thesis using space_ok_view [OF assms] by blast
qed

lemma map_pages_spec:
  "space_ok F sp st \<Longrightarrow> flags_ok fl \<Longrightarrow> \<forall>p \<in> set mapped \<union> set ps. \<not> bad_user_page p \<Longrightarrow> distinct ps \<Longrightarrow> set mapped \<inter> set ps = {} \<Longrightarrow>
     \<forall>p \<in> set ps. space_view sp st p = None \<Longrightarrow> map_pages ps fl mapped (sp, st) = ((sp', st'), done) \<Longrightarrow>
     space_ok F sp' st' \<and> held sp' st' = held sp st \<and> pool_set st' = pool_set st \<and>
     (\<not> done \<longrightarrow> space_view sp' st' = (\<lambda>v. if v \<in> set mapped then None else space_view sp st v)) \<and>
     (done \<longrightarrow> advance sp st sp' st' \<and>
       (\<exists>fr. space_view sp' st' = (\<lambda>v. if v \<in> set ps then Some (fr v, fl OR PF_PRESENT OR PF_USER) else space_view sp st v) \<and>
         (\<forall>p \<in> set ps. fr p \<in> free_set st \<and> (\<forall>i < 512. mem st' (slot (fr p) i) = 0))))"
proof (induction ps arbitrary: mapped sp st)
  case Nil
  then show ?case by (auto simp: advance_refl)
next
  case (Cons p ps)
  obtain sp1 st1 r where u: "map_user_page p fl sp st = (sp1, st1, r)" by (metis prod_cases3)
  note s = map_user_page_spec [OF Cons.prems(1,2) u] map_user_page_advance [OF Cons.prems(1,2) u]
  have pool: "pool_set st1 = pool_set st" using s(2) by (simp add: advance_def)
  show ?case
  proof (cases r)
    case (Inl e)
    then have v1: "space_ok F sp1 st1" "held sp1 st1 = held sp st" "space_view sp1 st1 = space_view sp st" using s(1) by auto
    have un: "unmap_pages mapped (sp1, st1) = (sp', st')" "\<not> done" using Cons.prems(7) u Inl by auto
    show ?thesis using unmap_pages_spec [OF v1(1) _ un(1)] Cons.prems(3,5) un(2) v1 pool by auto
  next
    case (Inr f)
    then have v1: "space_ok F sp1 st1" "held sp1 st1 = held sp st" "f \<in> free_set st" "\<forall>i < 512. mem st1 (slot f i) = 0"
      "space_view sp st p = None" "space_view sp1 st1 = (space_view sp st)(p \<mapsto> (f, fl OR PF_PRESENT OR PF_USER))"
      using s(1) by auto
    have run: "map_pages ps fl (mapped @ [p]) (sp1, st1) = ((sp', st'), done)" using Cons.prems(7) u Inr by simp
    note IH = Cons.IH [OF v1(1) Cons.prems(2) _ _ _ _ run]
    have p: "p \<notin> set ps" "p \<notin> set mapped" "distinct ps" using Cons.prems(4,5) by auto
    have ih: "space_ok F sp' st' \<and> held sp' st' = held sp1 st1 \<and> pool_set st' = pool_set st1 \<and>
      (\<not> done \<longrightarrow> space_view sp' st' = (\<lambda>v. if v \<in> set (mapped @ [p]) then None else space_view sp1 st1 v)) \<and>
      (done \<longrightarrow> advance sp1 st1 sp' st' \<and>
       (\<exists>fr. space_view sp' st' = (\<lambda>v. if v \<in> set ps then Some (fr v, fl OR PF_PRESENT OR PF_USER) else space_view sp1 st1 v) \<and>
         (\<forall>p \<in> set ps. fr p \<in> free_set st1 \<and> (\<forall>i < 512. mem st' (slot (fr p) i) = 0))))"
      by (rule Cons.IH [OF v1(1) Cons.prems(2) _ p(3) _ _ run]) (use Cons.prems(3,5,6) p v1(6) in auto)
    have fail: "space_view sp' st' = (\<lambda>v. if v \<in> set mapped then None else space_view sp st v)" if "\<not> done"
      using ih that v1(5,6) by (auto simp: fun_eq_iff)
    have zero: "mem st' (slot f i) = 0" if "done" "i < 512" for i
      using advance_mem [of sp1 st1 sp' st' f i] ih that v1 space_view_not_free [OF v1(1), of p f]
        space_frame_ok [OF v1(1), of p f] by auto
    have new: "\<exists>fr. space_view sp' st' = (\<lambda>v. if v \<in> set (p # ps) then Some (fr v, fl OR PF_PRESENT OR PF_USER) else space_view sp st v) \<and>
         (\<forall>q \<in> set (p # ps). fr q \<in> free_set st \<and> (\<forall>i < 512. mem st' (slot (fr q) i) = 0))" if d: "done"
    proof -
      obtain fr where fr: "space_view sp' st' = (\<lambda>v. if v \<in> set ps then Some (fr v, fl OR PF_PRESENT OR PF_USER) else space_view sp1 st1 v)"
        "\<forall>q \<in> set ps. fr q \<in> free_set st1 \<and> (\<forall>i < 512. mem st' (slot (fr q) i) = 0)" using ih d by blast
      have "fr q \<in> free_set st" if "q \<in> set ps" for q using fr(2) that advance_free [OF s(2) v1(1)] by blast
      then show ?thesis using fr v1(3,6) zero [OF d] p
        by (intro exI [of _ "fr(p := f)"]) (auto simp: fun_eq_iff)
    qed
    show ?thesis using ih fail new v1(2) pool advance_trans [OF s(2)] by simp
  qed
qed

section \<open>Anonymous memory\<close>

definition pages :: "usize \<Rightarrow> usize \<Rightarrow> usize set" where
  "pages lo hi = {v. lo \<le> v \<and> v < hi \<and> v mod USER_PAGE_SIZE = 0}"

definition map_range :: "usize \<Rightarrow> usize \<Rightarrow> bool" where
  "map_range lo hi \<longleftrightarrow> USER_MMAP_BASE \<le> lo \<and> hi \<le> USER_MMAP_END \<and> lo mod USER_PAGE_SIZE = 0 \<and> hi mod USER_PAGE_SIZE = 0"

lemma USER_PAGE_SIZE_nz [simp]: "USER_PAGE_SIZE \<noteq> 0"
  by (simp add: USER_PAGE_SIZE_def)

lemma same_space: "vp_space p = Some sp \<Longrightarrow> p\<lparr>vp_space := Some sp\<rparr> = p"
  by (cases p) simp

lemma page_list_set:
  assumes "lo mod USER_PAGE_SIZE = 0" "hi mod USER_PAGE_SIZE = 0"
  shows "set (page_list lo hi) = pages lo hi" "distinct (page_list lo hi)"
proof -
  obtain a b where ab: "lo = a * USER_PAGE_SIZE" "hi = b * USER_PAGE_SIZE" using assms by (metis mod_0_imp_dvd dvd_mult_div_cancel mult.commute)
  have n: "div_ceil (hi - lo) USER_PAGE_SIZE = b - a"
  proof -
    have "hi - lo = (b - a) * USER_PAGE_SIZE" by (simp add: ab diff_mult_distrib)
    then show ?thesis by (simp add: div_ceil_def USER_PAGE_SIZE_def)
  qed
  have "v \<in> set (page_list lo hi) \<longleftrightarrow> v \<in> pages lo hi" for v
  proof
    assume "v \<in> pages lo hi"
    then obtain c where c: "v = c * USER_PAGE_SIZE" "a \<le> c" "c < b"
      by (auto simp: pages_def ab USER_PAGE_SIZE_def dvd_def elim!: dvdE simp flip: dvd_eq_mod_eq_0)
    then have "v = lo + (c - a) * USER_PAGE_SIZE" "c - a < b - a" by (auto simp: ab simp flip: add_mult_distrib)
    then show "v \<in> set (page_list lo hi)" by (auto simp: page_list_def n)
  next
    assume "v \<in> set (page_list lo hi)"
    then obtain i where "v = lo + i * USER_PAGE_SIZE" "i < b - a" unfolding page_list_def n by auto
    then show "v \<in> pages lo hi" using assms(1) by (auto simp: pages_def ab USER_PAGE_SIZE_def)
  qed
  then show "set (page_list lo hi) = pages lo hi" by blast
  show "distinct (page_list lo hi)" by (auto simp: page_list_def distinct_map inj_on_def USER_PAGE_SIZE_def)
qed

lemma pages_not_bad: "USER_MMAP_BASE \<le> lo \<Longrightarrow> hi \<le> USER_MMAP_END \<Longrightarrow> v \<in> pages lo hi \<Longrightarrow> \<not> bad_user_page v"
  by (auto simp: pages_def bad_user_page_def USER_MMAP_BASE_def USER_MMAP_END_def USER_SPACE_END_def USER_PAGE_SIZE_def PAGE_SIZE_def)

lemma prot_flags_ok [simp]: "flags_ok (prot_flags w x)"
  by (auto simp: prot_flags_def intro!: flags_ok_or)

text \<open>The flags the pages of a new mapping end up with.\<close>

definition anon_flags :: "bool \<Rightarrow> bool \<Rightarrow> bool \<Rightarrow> bool \<Rightarrow> usize \<Rightarrow> usize \<Rightarrow> usize \<Rightarrow> u64" where
  "anon_flags writable executable guarded accessible lo hi v =
     (if guarded \<and> (v = lo \<or> v = hi - USER_PAGE_SIZE) \<or> \<not> accessible then PF_NO_EXECUTE OR PF_USER
      else prot_flags writable executable OR PF_PRESENT OR PF_USER)"

lemma access_flags_none: "access_flags fl False = fl OR PF_USER"
  by (simp add: access_flags_def)

lemma guarded_bounds:
  assumes "map_range lo hi" "lo + 2 * USER_PAGE_SIZE < hi"
  shows "map_range (lo + USER_PAGE_SIZE) (hi - USER_PAGE_SIZE)" "lo \<in> pages lo hi" "hi - USER_PAGE_SIZE \<in> pages lo hi"
    "lo \<noteq> hi - USER_PAGE_SIZE" "pages lo hi = pages (lo + USER_PAGE_SIZE) (hi - USER_PAGE_SIZE) \<union> {lo, hi - USER_PAGE_SIZE}"
proof -
  obtain a b where ab: "lo = a * USER_PAGE_SIZE" "hi = b * USER_PAGE_SIZE" "a + 2 < b"
    using assms by (auto simp: map_range_def USER_PAGE_SIZE_def elim!: dvdE simp flip: dvd_eq_mod_eq_0)
  have lo: "lo + USER_PAGE_SIZE = (a + 1) * USER_PAGE_SIZE" "hi - USER_PAGE_SIZE = (b - 1) * USER_PAGE_SIZE"
    by (simp_all add: ab diff_mult_distrib)
  show "map_range (lo + USER_PAGE_SIZE) (hi - USER_PAGE_SIZE)"
    using assms(1) unfolding map_range_def lo by (simp add: ab(1,2) USER_PAGE_SIZE_def) linarith
  show "lo \<in> pages lo hi" "hi - USER_PAGE_SIZE \<in> pages lo hi" "lo \<noteq> hi - USER_PAGE_SIZE"
    using ab(3) unfolding pages_def lo by (simp_all add: ab USER_PAGE_SIZE_def)
  have "v \<in> pages lo hi \<longleftrightarrow> v \<in> pages (lo + USER_PAGE_SIZE) (hi - USER_PAGE_SIZE) \<union> {lo, hi - USER_PAGE_SIZE}" for v
  proof (cases "v mod USER_PAGE_SIZE = 0")
    case True
    then obtain c where c: "v = c * USER_PAGE_SIZE" by (auto elim!: dvdE simp flip: dvd_eq_mod_eq_0)
    show ?thesis unfolding pages_def lo unfolding ab c using ab(3) by (auto simp: USER_PAGE_SIZE_def)
  next
    case False
    then show ?thesis by (auto simp: pages_def ab lo)
  qed
  then show "pages lo hi = pages (lo + USER_PAGE_SIZE) (hi - USER_PAGE_SIZE) \<union> {lo, hi - USER_PAGE_SIZE}" by blast
qed

text \<open>What a successful mapping does to the pages.\<close>

definition mapped_fresh :: "usize \<Rightarrow> usize \<Rightarrow> (usize \<Rightarrow> u64) \<Rightarrow> address_space \<Rightarrow> machine \<Rightarrow> address_space \<Rightarrow> machine \<Rightarrow> bool" where
  "mapped_fresh lo hi fl sp st sp' st' \<longleftrightarrow> (\<forall>v \<in> pages lo hi. space_view sp st v = None) \<and> advance sp st sp' st' \<and>
     (\<exists>fr. space_view sp' st' = (\<lambda>v. if v \<in> pages lo hi then Some (fr v, fl v) else space_view sp st v) \<and>
        (\<forall>v \<in> pages lo hi. fr v \<in> free_set st \<and> (\<forall>i < 512. mem st' (slot (fr v) i) = 0)))"

lemma mapped_fresh_protect:
  assumes m: "mapped_fresh lo hi fl sp st sp1 st1" and ok: "space_ok F sp1 st1" and fl0: "flags_ok fl0"
    and ps: "distinct ps" "set ps \<subseteq> pages lo hi" "map_range lo hi"
    and run: "protect_pages ps fl0 present sp1 st1 = (st2, r)"
  shows "r = Inr () \<and> space_ok F sp1 st2 \<and> free_set st2 = free_set st1 \<and>
    mapped_fresh lo hi (\<lambda>v. if v \<in> set ps then access_flags fl0 present else fl v) sp st sp1 st2"
proof -
  have nb: "\<forall>p \<in> set ps. \<not> bad_user_page p" using ps pages_not_bad [of lo hi] by (auto simp: map_range_def)
  note s = protect_pages_spec [OF ok fl0 nb ps(1) run]
  obtain fr where fr: "space_view sp1 st1 = (\<lambda>v. if v \<in> pages lo hi then Some (fr v, fl v) else space_view sp st v)"
    "\<forall>v \<in> pages lo hi. fr v \<in> free_set st \<and> (\<forall>i < 512. mem st1 (slot (fr v) i) = 0)" using m by (auto simp: mapped_fresh_def)
  have z: "mem st2 (slot (fr v) i) = 0" if v: "v \<in> pages lo hi" "i < 512" for v i
  proof -
    have "space_view sp1 st1 v = Some (fr v, fl v)" using fr(1) v by simp
    then have "mem st2 (slot (fr v) i) = mem st1 (slot (fr v) i)"
      using advance_mem [of sp1 st1 sp1 st2 "fr v" i] s v(2) space_view_not_free [OF ok] space_frame_ok [OF ok] by blast
    then show ?thesis using fr(2) v by simp
  qed
  have view: "space_view sp1 st2 = (\<lambda>v. if v \<in> pages lo hi then Some (fr v, if v \<in> set ps then access_flags fl0 present else fl v)
      else space_view sp st v)"
    using s ps(2) by (auto simp: fr(1) fun_eq_iff)
  have "\<forall>v \<in> pages lo hi. fr v \<in> free_set st \<and> (\<forall>i < 512. mem st2 (slot (fr v) i) = 0)" using fr(2) z by blast
  then have "mapped_fresh lo hi (\<lambda>v. if v \<in> set ps then access_flags fl0 present else fl v) sp st sp1 st2"
    using view m s advance_trans [of sp st sp1 st1 sp1 st2] unfolding mapped_fresh_def by blast
  then show ?thesis using s by blast
qed

lemma mapped_fresh_cong: "mapped_fresh lo hi fl sp st sp' st' \<Longrightarrow> (\<And>v. v \<in> pages lo hi \<Longrightarrow> fl v = fl' v) \<Longrightarrow> mapped_fresh lo hi fl' sp st sp' st'"
  unfolding mapped_fresh_def by (auto simp: fun_eq_iff)

text \<open>The outcome of mapping a chosen range.\<close>

definition anon_effect ::
  "usize \<Rightarrow> usize \<Rightarrow> usize \<Rightarrow> usize \<Rightarrow> bool \<Rightarrow> bool \<Rightarrow> bool \<Rightarrow> bool \<Rightarrow> address_space \<Rightarrow> vm_process \<Rightarrow> vm_world \<Rightarrow>
     address_space \<Rightarrow> vm_process \<Rightarrow> vm_world \<Rightarrow> process_error + usize \<Rightarrow> bool" where
  "anon_effect requested lo hi n writable executable guarded accessible sp p w sp' p' w' res \<longleftrightarrow>
    (case res of
       Inl e \<Rightarrow> p' = p\<lparr>vp_space := Some sp'\<rparr> \<and> space_view sp' (vw_machine w') = space_view sp (vw_machine w) \<and>
         ((\<exists>v \<in> pages lo hi. space_view sp (vw_machine w) v \<noteq> None) \<or>
          \<not> snd (map_pages (page_list lo hi) (prot_flags writable executable) [] (sp, vw_machine w)))
     | Inr a \<Rightarrow> a = (if guarded then lo + USER_PAGE_SIZE else lo) \<and>
         p' = p\<lparr>vp_space := Some sp', next_mmap_addr := (if requested = 0 then hi else next_mmap_addr p),
           guard_regions := (if guarded then bt_put a n (guard_regions p) else guard_regions p)\<rparr> \<and>
         mapped_fresh lo hi (anon_flags writable executable guarded accessible lo hi) sp (vw_machine w) sp' (vw_machine w'))"

text \<open>After the pages are mapped: the pages of an inaccessible mapping and the guard pages are withdrawn.\<close>

lemma map_chosen_finish:
  assumes r: "map_range lo hi" "guarded \<Longrightarrow> lo + 2 * USER_PAGE_SIZE < hi"
    and cf: "check_free (page_list lo hi) sp (vw_machine w) = Inr ()"
    and m: "map_pages (page_list lo hi) (prot_flags writable executable) [] (sp, vw_machine w) = ((sp1, st1), True)"
    and m1: "space_ok F sp1 st1" "held sp1 st1 = held sp (vw_machine w)" "pool_set st1 = pool_set (vw_machine w)"
      "mapped_fresh lo hi (\<lambda>v. prot_flags writable executable OR PF_PRESENT OR PF_USER) sp (vw_machine w) sp1 st1"
    and run: "map_chosen requested lo hi n writable executable guarded accessible sp p w = (p', w', res)"
  shows "\<exists>sp'. space_ok F sp' (vw_machine w') \<and> held sp' (vw_machine w') = held sp (vw_machine w) \<and>
    pool_set (vw_machine w') = pool_set (vw_machine w) \<and> w' = w\<lparr>vw_machine := vw_machine w'\<rparr> \<and>
    anon_effect requested lo hi n writable executable guarded accessible sp p w sp' p' w' res"
proof -
  let ?st = "vw_machine w" and ?fl = "prot_flags writable executable"
  define lo' where "lo' = (if guarded then lo + USER_PAGE_SIZE else lo)"
  define hi' where "hi' = (if guarded then hi - USER_PAGE_SIZE else hi)"
  have r': "map_range lo' hi'" "pages lo' hi' \<subseteq> pages lo hi"
    using r guarded_bounds [of lo hi] by (auto simp: lo'_def hi'_def)
  have pl': "set (page_list lo' hi') = pages lo' hi'" "distinct (page_list lo' hi')" using page_list_set r'(1) by (auto simp: map_range_def)
  define f1 where "f1 = (\<lambda>v. if \<not> accessible \<and> v \<in> pages lo' hi' then PF_NO_EXECUTE OR PF_USER else ?fl OR PF_PRESENT OR PF_USER)"
  obtain st2 q where p2: "(if accessible then (st1, Inr ()) else protect_pages (page_list lo' hi') PF_NO_EXECUTE False sp1 st1) = (st2, q)"
    by (metis prod.collapse)
  have m2: "q = Inr ()" "space_ok F sp1 st2" "free_set st2 = free_set st1" "mapped_fresh lo hi f1 sp ?st sp1 st2"
    using p2 m1 mapped_fresh_protect [OF m1(4,1) _ pl'(2) _ r(1), of PF_NO_EXECUTE False st2 q, unfolded access_flags_none] r'(2) pl'(1)
    by (auto simp: f1_def split: if_splits)
  have step: "map_chosen requested lo hi n writable executable guarded accessible sp p w =
    (let p1 = p\<lparr>vp_space := Some sp1, next_mmap_addr := (if requested = 0 then hi else next_mmap_addr p)\<rparr>
     in if guarded then
          (case protect_pages [lo, hi - USER_PAGE_SIZE] PF_NO_EXECUTE False sp1 st2 of
             (st3, Inl e) \<Rightarrow> (p1, w\<lparr>vw_machine := st3\<rparr>, Inl e)
           | (st3, Inr _) \<Rightarrow>
               (p1\<lparr>guard_regions := bt_put (lo + USER_PAGE_SIZE) n (guard_regions p1)\<rparr>,
                w\<lparr>vw_machine := st3\<rparr>, Inr (lo + USER_PAGE_SIZE)))
        else (p1, w\<lparr>vw_machine := st2\<rparr>, Inr lo))"
    using p2 [unfolded m2(1) lo'_def hi'_def] by (simp only: map_chosen_def cf m Let_def sum.case prod.case bool.case)
  show ?thesis
  proof (cases guarded)
    case False
    then have "p' = p\<lparr>vp_space := Some sp1, next_mmap_addr := (if requested = 0 then hi else next_mmap_addr p)\<rparr>"
      "w' = w\<lparr>vw_machine := st2\<rparr>" "res = Inr lo" using run step by (auto simp: Let_def)
    moreover have "mapped_fresh lo hi (anon_flags writable executable guarded accessible lo hi) sp ?st sp1 st2"
      by (rule mapped_fresh_cong [OF m2(4)]) (auto simp: f1_def anon_flags_def False lo'_def hi'_def)
    moreover have "held sp1 st2 = held sp ?st" "pool_set st2 = pool_set ?st" using m1(2) m2 by (auto simp: held_def mapped_fresh_def advance_def)
    ultimately show ?thesis using m2(2) False by (intro exI [of _ sp1]) (simp add: anon_effect_def)
  next
    case True
    note gb = guarded_bounds [OF r(1) r(2) [OF True]]
    obtain st3 q3 where p3: "protect_pages [lo, hi - USER_PAGE_SIZE] PF_NO_EXECUTE False sp1 st2 = (st3, q3)" by fastforce
    note m3 = mapped_fresh_protect [OF m2(4,2) _ _ _ r(1) p3, simplified, OF gb(4) conjI [OF gb(2,3)]]
    have "p' = p\<lparr>vp_space := Some sp1, next_mmap_addr := (if requested = 0 then hi else next_mmap_addr p),
         guard_regions := bt_put (lo + USER_PAGE_SIZE) n (guard_regions p)\<rparr>"
      "w' = w\<lparr>vw_machine := st3\<rparr>" "res = Inr (lo + USER_PAGE_SIZE)" using run step m3 True by (simp_all add: Let_def p3 del: protect_pages.simps)
    moreover have "mapped_fresh lo hi (anon_flags writable executable guarded accessible lo hi) sp ?st sp1 st3"
      using m3 gb(5) by (intro mapped_fresh_cong [OF conjunct2 [OF conjunct2 [OF conjunct2 [OF m3]]]])
        (auto simp: f1_def anon_flags_def True lo'_def hi'_def access_flags_none)
    moreover have "held sp1 st3 = held sp ?st" "pool_set st3 = pool_set ?st"
      using m1(2) m2 m3 by (auto simp: held_def mapped_fresh_def advance_def)
    ultimately show ?thesis using m3 True by (intro exI [of _ sp1]) (simp add: anon_effect_def)
  qed
qed

lemma map_chosen_spec:
  assumes ok: "space_ok F sp (vw_machine w)" and r: "map_range lo hi" "lo < hi" "guarded \<Longrightarrow> lo + 2 * USER_PAGE_SIZE < hi"
    and sp: "vp_space p = Some sp"
    and run: "map_chosen requested lo hi n writable executable guarded accessible sp p w = (p', w', res)"
  shows "\<exists>sp'. space_ok F sp' (vw_machine w') \<and> held sp' (vw_machine w') = held sp (vw_machine w) \<and>
    pool_set (vw_machine w') = pool_set (vw_machine w) \<and> w' = w\<lparr>vw_machine := vw_machine w'\<rparr> \<and>
    anon_effect requested lo hi n writable executable guarded accessible sp p w sp' p' w' res"
proof -
  let ?st = "vw_machine w" and ?fl = "prot_flags writable executable"
  have pl: "set (page_list lo hi) = pages lo hi" "distinct (page_list lo hi)" using page_list_set r(1) by (auto simp: map_range_def)
  have nb: "\<forall>p \<in> pages lo hi. \<not> bad_user_page p" using pages_not_bad r(1) by (auto simp: map_range_def)
  show ?thesis
  proof (cases "\<forall>v \<in> pages lo hi. space_view sp ?st v = None")
    case False
    then have "check_free (page_list lo hi) sp ?st = Inl AddressInUse" using check_free_spec [OF ok, of "page_list lo hi"] nb pl by auto
    then have "p' = p" "w' = w" "res = Inl AddressInUse" using run by (auto simp: map_chosen_def)
    then show ?thesis using ok False by (intro exI [of _ sp]) (auto simp: same_space [OF sp] anon_effect_def)
  next
    case free: True
    then have cf: "check_free (page_list lo hi) sp ?st = Inr ()" using check_free_spec [OF ok, of "page_list lo hi"] nb pl by auto
    obtain sp1 st1 d where m: "map_pages (page_list lo hi) ?fl [] (sp, ?st) = ((sp1, st1), d)" by (metis prod.collapse)
    note ms = map_pages_spec [OF ok prot_flags_ok _ pl(2) _ _ m, simplified, unfolded pl(1), OF nb free]
    show ?thesis
    proof (cases d)
      case False
      then show ?thesis using run cf m ms free by (auto simp: map_chosen_def anon_effect_def)
    next
      case d: True
      have "mapped_fresh lo hi (\<lambda>v. ?fl OR PF_PRESENT OR PF_USER) sp ?st sp1 st1" using ms d free by (auto simp: mapped_fresh_def)
      then show ?thesis using map_chosen_finish [OF r(1,3) cf m [unfolded eqTrueI [OF d]] _ _ _ _ run] ms by blast
    qed
  qed
qed

definition page_up :: "usize \<Rightarrow> usize" where
  "page_up len = align_down (len + (USER_PAGE_SIZE - 1)) USER_PAGE_SIZE"

lemma page_up: "page_up len mod USER_PAGE_SIZE = 0" "0 < len \<Longrightarrow> 0 < page_up len" "len \<le> page_up len"
  using align_down_dvd [of USER_PAGE_SIZE "len + (USER_PAGE_SIZE - 1)"] align_down_gt [of USER_PAGE_SIZE "len + (USER_PAGE_SIZE - 1)"]
  by (auto simp: page_up_def USER_PAGE_SIZE_def)

lemma map_anonymous_cases:
  assumes run: "map_anonymous requested len writable executable guarded accessible p w = (p', w', res)"
    and sp: "vp_space p = Some sp" and al: "next_mmap_addr p mod USER_PAGE_SIZE = 0"
  obtains (invalid) "res = Inl InvalidMemoryRange" "p' = p" "w' = w"
    | (chosen) lo hi where "map_range lo hi" "lo < hi" "guarded \<Longrightarrow> lo + 2 * USER_PAGE_SIZE < hi"
        "lo = (if requested = 0 then next_mmap_addr p else requested)"
        "hi = lo + (page_up len + (if guarded then 2 * USER_PAGE_SIZE else 0))"
        "map_chosen requested lo hi (page_up len) writable executable guarded accessible sp p w = (p', w', res)"
proof -
  define lo where "lo = (if requested = 0 then next_mmap_addr p else requested)"
  define hi where "hi = lo + (page_up len + (if guarded then 2 * USER_PAGE_SIZE else 0))"
  define good where "good \<longleftrightarrow> 0 < len \<and> USER_MMAP_BASE \<le> lo \<and> hi \<le> USER_MMAP_END \<and>
     (requested \<noteq> 0 \<longrightarrow> requested mod USER_PAGE_SIZE = 0)"
  have eq: "(p', w', res) = (p, w, Inl InvalidMemoryRange) \<or>
      good \<and> map_chosen requested lo hi (page_up len) writable executable guarded accessible sp p w = (p', w', res)"
    using run sp unfolding map_anonymous_def good_def lo_def hi_def
    by (auto simp: checked_add_def page_up_def Let_def not_less split: if_splits)
  show ?thesis
  proof (cases "(p', w', res) = (p, w, Inl InvalidMemoryRange)")
    case False
    then have g: "good" and m: "map_chosen requested lo hi (page_up len) writable executable guarded accessible sp p w = (p', w', res)"
      using eq by auto
    have "lo mod USER_PAGE_SIZE = 0" using g al by (auto simp: good_def lo_def)
    then have "hi mod USER_PAGE_SIZE = 0" using page_up(1) [of len] by (auto simp: hi_def mod_add_eq [symmetric, of "lo"] mod_add_eq [symmetric, of "page_up len"])
    then have "map_range lo hi" using g \<open>lo mod USER_PAGE_SIZE = 0\<close> by (simp add: map_range_def good_def)
    moreover have "0 < page_up len" using g page_up(2) by (simp add: good_def)
    then have "lo < hi" "guarded \<Longrightarrow> lo + 2 * USER_PAGE_SIZE < hi" by (auto simp: hi_def)
    ultimately show ?thesis using m chosen lo_def hi_def by blast
  qed (use invalid in auto)
qed

section \<open>Memory safety of a process\<close>

definition globals_at :: "vm_world \<Rightarrow> cap_globals" where
  "globals_at w = (vw_globals w)\<lparr>g_pmm := m_pmm (vw_machine w)\<rparr>"

definition frames_of :: "cap_globals \<Rightarrow> u64 \<Rightarrow> usize set" where
  "frames_of g i = (case bt_get (shared_objects g) i of None \<Rightarrow> {} | Some obj \<Rightarrow> set (so_frames obj))"

definition shared_frames :: "cap_globals \<Rightarrow> usize set" where
  "shared_frames g = (\<Union>i. frames_of g i)"

definition page_refs :: "vm_process \<Rightarrow> u64 \<Rightarrow> nat" where
  "page_refs p sid = bt_sum (\<lambda>i. one_if (i = sid)) (shared_pages (vp_caps p))"

text \<open>The pages recorded as shared are the pages mapped to frames of live shared objects.\<close>

definition shares_ok :: "cap_globals \<Rightarrow> (usize, u64) btree \<Rightarrow> (usize \<Rightarrow> (usize \<times> u64) option) \<Rightarrow> bool" where
  "shares_ok g pgs V \<longleftrightarrow> bt_ok pgs \<and>
     (\<forall>v sid. bt_get pgs v = Some sid \<longrightarrow>
        (\<exists>f fl. V v = Some (f, fl) \<and> f \<in> frames_of g sid)) \<and>
     (\<forall>v f fl. V v = Some (f, fl) \<longrightarrow> f \<in> shared_frames g \<longrightarrow> bt_get pgs v \<noteq> None)"

text \<open>
  The invariant of a process with the address space \<open>sp\<close>, where \<open>R\<close> counts the references to
  shared objects held elsewhere: by handles, by owners and by the pages of other processes.
\<close>

definition vm_at :: "(u64 \<Rightarrow> nat) \<Rightarrow> address_space \<Rightarrow> vm_process \<Rightarrow> vm_world \<Rightarrow> bool" where
  "vm_at R sp p w \<longleftrightarrow> registry_inv (\<lambda>i. R i + page_refs p i) (globals_at w) \<and>
     space_ok (shared_frames (vw_globals w)) sp (vw_machine w) \<and>
     shares_ok (vw_globals w) (shared_pages (vp_caps p)) (space_view sp (vw_machine w))"

definition vm_inv :: "(u64 \<Rightarrow> nat) \<Rightarrow> vm_process \<Rightarrow> vm_world \<Rightarrow> bool" where
  "vm_inv R p w \<longleftrightarrow> next_mmap_addr p mod USER_PAGE_SIZE = 0 \<and> (\<exists>sp. vp_space p = Some sp \<and> vm_at R sp p w)"

lemma shared_objects_at [simp]: "shared_objects (globals_at w) = shared_objects (vw_globals w)" "g_pmm (globals_at w) = m_pmm (vw_machine w)"
  by (simp_all add: globals_at_def)

lemma frames_of_at [simp]: "frames_of (globals_at w) = frames_of (vw_globals w)"
  by (simp add: frames_of_def fun_eq_iff)

lemma frames_of_put: "bt_get (shared_objects g) sid = Some obj \<Longrightarrow>
    frames_of (g'\<lparr>shared_objects := bt_put sid (obj\<lparr>so_refs := n\<rparr>) (shared_objects g)\<rparr>) = frames_of g"
  by (auto simp: frames_of_def fun_eq_iff)

lemma frames_of_del: "frames_of (g'\<lparr>shared_objects := bt_del sid (shared_objects g), g_pmm := m\<rparr>) = (frames_of g)(sid := {})"
  by (auto simp: frames_of_def fun_eq_iff)

lemma shared_frames_at [simp]: "shared_frames (globals_at w) = shared_frames (vw_globals w)"
  by (simp add: shared_frames_def)

lemma globals_at_on [simp]: "globals_at (on_globals f w) = f (globals_at w)"
  by (simp add: globals_at_def on_globals_def Let_def)

lemma on_globals_simps [simp]:
  "vw_globals (on_globals f w) = f (globals_at w)" "m_pmm (vw_machine (on_globals f w)) = g_pmm (f (globals_at w))"
  "mem (vw_machine (on_globals f w)) = mem (vw_machine w)"
  by (simp_all add: globals_at_def on_globals_def Let_def)

text \<open>A step of the machine that keeps the frames of shared objects allocated keeps the registry.\<close>

lemma registry_machine:
  assumes reg: "registry_inv R (globals_at w)" and ok: "space_ok (shared_frames (vw_globals w)) sp st'"
    and pool: "pool_set st' = pool_set (vw_machine w)"
  shows "registry_inv R (globals_at (w\<lparr>vw_machine := st'\<rparr>))"
proof -
  note I = registry_invD [OF reg]
  obtain pm' where pm': "m_pmm st' = Some pm'" "pmm_ok pm'" using space_okD(3) [OF ok] by (auto simp: frames_ok_def)
  have apart: "shared_frames (vw_globals w) \<inter> free_addrs pm' = {}" using ok pm' by (auto simp: space_ok_def free_set_def)
  have fr: "frames_inv (globals_at (w\<lparr>vw_machine := st'\<rparr>))"
  proof (cases "m_pmm (vw_machine w)")
    case None
    then have "shared_objects (vw_globals w) = []" using I(2) by (simp add: frames_inv_def)
    then show ?thesis using pm' by (simp add: frames_inv_def objects_ok_def globals_at_def)
  next
    case (Some pm)
    then have oo: "objects_ok pm (shared_objects (vw_globals w))" using I(2) by (simp add: frames_inv_def)
    have "pool_addrs pm' = pool_addrs pm" using pool pm' Some by (simp add: pool_set_def)
    moreover have "set (so_frames obj) \<inter> free_addrs pm' = {}" if "bt_get (shared_objects (vw_globals w)) i = Some obj" for i obj
    proof -
      have "set (so_frames obj) = frames_of (vw_globals w) i" using that by (simp add: frames_of_def)
      then show ?thesis using apart by (auto simp: shared_frames_def)
    qed
    ultimately have "objects_ok pm' (shared_objects (vw_globals w))" using oo pm'(2) unfolding objects_ok_def by metis
    then show ?thesis using pm' by (simp add: frames_inv_def globals_at_def)
  qed
  show ?thesis by (rule registry_invI) (use I fr in \<open>auto simp: globals_at_def\<close>)
qed

lemma space_ok_release:
  assumes ok: "space_ok F sp st" and A: "set fs \<subseteq> F" "set fs \<subseteq> pool_set st"
    and out: "\<And>v f fl. space_view sp st v = Some (f, fl) \<Longrightarrow> f \<notin> set fs"
  shows "space_ok (F - set fs) sp (st\<lparr>m_pmm := map_option (fold free_frame fs) (m_pmm st)\<rparr>)"
proof -
  let ?st = "st\<lparr>m_pmm := map_option (fold free_frame fs) (m_pmm st)\<rparr>"
  obtain pm where pm: "m_pmm st = Some pm" "pmm_ok pm" using space_okD(3) [OF ok] by (auto simp: frames_ok_def)
  have "pmm_ok (fold free_frame fs pm) \<and> pool_addrs (fold free_frame fs pm) = pool_addrs pm \<and>
      free_addrs (fold free_frame fs pm) = free_addrs pm \<union> set fs"
    using frames.dealloc_all [OF pm(2), of fs] A(2) pm(1) by (simp add: pool_set_def)
  then have fr: "frames_ok ?st" "pool_set ?st = pool_set st" "free_set ?st = free_set st \<union> set fs"
    using space_okD(3) [OF ok] pm by (auto simp: frames_ok_def pool_set_def free_set_def)
  have F: "F \<inter> (set (page_table_frames sp) \<union> set (user_frames sp) \<union> free_set st) = {}" "\<forall>a \<in> F. frame_addr_ok a"
    "set (user_frames sp) \<subseteq> pool_set st - free_set st" "distinct (page_table_frames sp @ user_frames sp)"
    "set (page_table_frames sp) \<subseteq> pool_set st - free_set st" "tables_ok (mem st) (root_frame sp) (set (page_table_frames sp))"
    using ok by (auto simp: space_ok_def tab_ok_def)
  have t: "tab_ok sp ?st" using fr F(1,5,6) A(1) unfolding tab_ok_def by auto
  have "flags_ok fl \<and> f \<in> set (user_frames sp) \<union> (F - set fs)" if "space_view sp ?st v = Some (f, fl)" for v f fl
    using space_ok_view [OF ok] out that by auto
  moreover have "v = w" if "space_view sp ?st v = Some (f, fl)" "space_view sp ?st w = Some (f, fl')" "f \<in> set (user_frames sp)" for v w f fl fl'
    using space_ok_inj [OF ok] that by auto
  moreover have "set (user_frames sp) \<subseteq> pool_set ?st - free_set ?st"
    "(F - set fs) \<inter> (set (page_table_frames sp) \<union> set (user_frames sp) \<union> free_set ?st) = {}"
    "\<forall>a \<in> F - set fs. frame_addr_ok a" using fr F A by auto
  ultimately show ?thesis unfolding space_ok_def using t F(4) by blast
qed

lemma registry_frames:
  assumes "registry_inv R (globals_at w)"
  shows "frames_of (vw_globals w) sid \<subseteq> pool_set (vw_machine w)" "frames_of (vw_globals w) sid \<subseteq> shared_frames (vw_globals w)"
    "\<And>i. i \<noteq> sid \<Longrightarrow> frames_of (vw_globals w) i \<inter> frames_of (vw_globals w) sid = {}"
proof -
  have fi: "frames_inv (globals_at w)" using registry_invD(2) [OF assms(1)] .
  show "frames_of (vw_globals w) sid \<subseteq> shared_frames (vw_globals w)" by (auto simp: shared_frames_def)
  show "frames_of (vw_globals w) sid \<subseteq> pool_set (vw_machine w)" using fi
    by (auto simp: frames_inv_def frames_of_def objects_ok_def pool_set_def split: option.splits)
  show "frames_of (vw_globals w) i \<inter> frames_of (vw_globals w) sid = {}" if "i \<noteq> sid" for i
  proof (cases "bt_get (shared_objects (vw_globals w)) i"; cases "bt_get (shared_objects (vw_globals w)) sid")
    fix a b assume ab: "bt_get (shared_objects (vw_globals w)) i = Some a" "bt_get (shared_objects (vw_globals w)) sid = Some b"
    then obtain pm where "objects_ok pm (shared_objects (vw_globals w))"
      using fi by (cases "m_pmm (vw_machine w)") (auto simp: frames_inv_def)
    then have "set (so_frames a) \<inter> set (so_frames b) = {}" using ab that unfolding objects_ok_def by blast
    then show ?thesis using ab by (simp add: frames_of_def)
  qed (auto simp: frames_of_def)
qed

text \<open>Giving up one reference: the object goes only when nothing maps it any more.\<close>

lemma release_step:
  assumes reg: "registry_inv RR (globals_at w)" and pos: "0 < RR sid" "RR sid < usize_modulus"
    and ok: "space_ok (shared_frames (vw_globals w)) sp (vw_machine w)"
    and sh: "shares_ok (vw_globals w) pgs (space_view sp (vw_machine w))"
    and gone: "RR sid = 1 \<Longrightarrow> \<forall>v. bt_get pgs v \<noteq> Some sid"
  defines "w' \<equiv> on_globals (shared_vm_release sid 1) w"
  shows "registry_inv (RR(sid := RR sid - 1)) (globals_at w') \<and>
    space_ok (shared_frames (vw_globals w')) sp (vw_machine w') \<and>
    space_view sp (vw_machine w') = space_view sp (vw_machine w) \<and>
    shares_ok (vw_globals w') pgs (space_view sp (vw_machine w'))"
proof -
  have view: "space_view sp (vw_machine w') = space_view sp (vw_machine w)" by (simp add: space_view_def fun_eq_iff w'_def)
  have reg': "registry_inv (RR(sid := RR sid - 1)) (globals_at w')"
    using release_registry [OF reg pos] by (simp add: w'_def)
  obtain obj where obj: "bt_get (shared_objects (vw_globals w)) sid = Some obj" "so_refs obj = RR sid"
    using registry_live [OF reg pos(1)] by auto
  note rf = registry_frames [OF reg, where sid = sid]
  have fo: "frames_of (vw_globals w) sid = set (so_frames obj)" using obj(1) by (simp add: frames_of_def)
  have sub: "wrap_sub (so_refs obj) 1 = RR sid - 1" using obj(2) pos by (simp add: wrap_sub_exact)
  have unmapped: "f \<notin> set (so_frames obj)" if one: "RR sid = 1" and v: "space_view sp (vw_machine w) v = Some (f, fl)" for v f fl
  proof
    assume f: "f \<in> set (so_frames obj)"
    then have "bt_get pgs v \<noteq> None" using sh v rf(2) unfolding shares_ok_def fo by blast
    then obtain i g fl' where i: "bt_get pgs v = Some i" "space_view sp (vw_machine w) v = Some (g, fl')"
      "g \<in> frames_of (vw_globals w) i" using sh unfolding shares_ok_def by blast
    have "i \<noteq> sid" using i(1) gone [OF one] by blast
    then show False using rf(3) [of i] i(2,3) v f fo by auto
  qed
  show ?thesis
  proof (cases "RR sid = 1")
    case True
    have g': "vw_globals w' = (globals_at w)\<lparr>shared_objects := bt_del sid (shared_objects (vw_globals w)),
        g_pmm := map_option (fold free_frame (so_frames obj)) (m_pmm (vw_machine w))\<rparr>"
      using obj(1) sub True by (simp add: w'_def shared_vm_release_def)
    have m': "vw_machine w' = (vw_machine w)\<lparr>m_pmm := map_option (fold free_frame (so_frames obj)) (m_pmm (vw_machine w))\<rparr>"
      using obj(1) sub True by (simp add: w'_def on_globals_def shared_vm_release_def Let_def)
    have fr: "frames_of (vw_globals w') = (frames_of (vw_globals w))(sid := {})" unfolding g' frames_of_del [where g = "globals_at w", simplified] by (rule refl)
    have F: "shared_frames (vw_globals w') = shared_frames (vw_globals w) - set (so_frames obj)"
    proof -
      have "frames_of (vw_globals w) i - frames_of (vw_globals w) sid = ((frames_of (vw_globals w))(sid := {})) i" for i
        using rf(3) [of i] by (cases "i = sid") auto
      then have "(\<Union>i. ((frames_of (vw_globals w))(sid := {})) i) = (\<Union>i. frames_of (vw_globals w) i - frames_of (vw_globals w) sid)"
        by (simp only:)
      then show ?thesis unfolding shared_frames_def fr fo [symmetric] by auto
    qed
    have "space_ok (shared_frames (vw_globals w')) sp (vw_machine w')"
      unfolding F m' by (rule space_ok_release [OF ok rf(2,1) [unfolded fo]]) (rule unmapped [OF True])
    moreover have "shares_ok (vw_globals w') pgs (space_view sp (vw_machine w'))"
      using sh gone [OF True] unfolding view shares_ok_def F fr by auto
    ultimately show ?thesis using reg' view by blast
  next
    case False
    have g': "vw_globals w' = (globals_at w)\<lparr>shared_objects := bt_put sid (obj\<lparr>so_refs := RR sid - 1\<rparr>) (shared_objects (vw_globals w))\<rparr>"
      using obj(1) sub False pos(1) by (simp add: w'_def shared_vm_release_def)
    have m': "vw_machine w' = vw_machine w" using obj(1) sub False pos(1) by (simp add: w'_def on_globals_def shared_vm_release_def globals_at_def Let_def)
    have fr: "frames_of (vw_globals w') = frames_of (vw_globals w)" unfolding g' using frames_of_put [OF obj(1)] by simp
    then have F: "shared_frames (vw_globals w') = shared_frames (vw_globals w)" by (simp add: shared_frames_def)
    have "shares_ok (vw_globals w') pgs (space_view sp (vw_machine w'))"
      using sh unfolding view shares_ok_def F fr .
    then show ?thesis using reg' view ok F m' by simp
  qed
qed

lemma vm_atD:
  assumes "vm_at R sp p w"
  shows "registry_inv (\<lambda>i. R i + page_refs p i) (globals_at w)" "space_ok (shared_frames (vw_globals w)) sp (vw_machine w)"
    "shares_ok (vw_globals w) (shared_pages (vp_caps p)) (space_view sp (vw_machine w))"
  using assms by (simp_all add: vm_at_def)

lemma page_refs_cong: "vp_caps p' = vp_caps p \<Longrightarrow> page_refs p' = page_refs p"
  by (simp add: page_refs_def fun_eq_iff)

lemma vm_at_caps: "vp_caps p' = vp_caps p \<Longrightarrow> vm_at R sp p' w \<longleftrightarrow> vm_at R sp p w"
  by (simp add: vm_at_def page_refs_def)

lemma vm_at_machine:
  assumes "vm_at R sp p w" "space_ok (shared_frames (vw_globals w)) sp' st'" "pool_set st' = pool_set (vw_machine w)"
    "shares_ok (vw_globals w) (shared_pages (vp_caps p)) (space_view sp' st')" "vp_caps p' = vp_caps p"
  shows "vm_at R sp' p' (w\<lparr>vw_machine := st'\<rparr>)"
  using registry_machine [OF vm_atD(1) [OF assms(1)] assms(2,3)] assms(2,4,5) page_refs_cong [OF assms(5)]
  by (simp add: vm_at_def)

lemma shares_fresh:
  assumes sh: "shares_ok g pgs (space_view sp st)" and ok: "space_ok (shared_frames g) sp st"
    and m: "mapped_fresh lo hi fl sp st sp' st'"
  shows "shares_ok g pgs (space_view sp' st')"
proof -
  obtain fr where fr: "space_view sp' st' = (\<lambda>v. if v \<in> pages lo hi then Some (fr v, fl v) else space_view sp st v)"
    "\<forall>v \<in> pages lo hi. fr v \<in> free_set st" "\<forall>v \<in> pages lo hi. space_view sp st v = None" using m by (auto simp: mapped_fresh_def)
  have F: "shared_frames g \<inter> free_set st = {}" using ok by (auto simp: space_ok_def)
  show ?thesis unfolding shares_ok_def
  proof (intro conjI allI impI)
    show "bt_ok pgs" using sh by (simp add: shares_ok_def)
  next
    fix v sid assume "bt_get pgs v = Some sid"
    then obtain f fl0 where "space_view sp st v = Some (f, fl0)" "f \<in> frames_of g sid" using sh unfolding shares_ok_def by blast
    then show "\<exists>f fl. space_view sp' st' v = Some (f, fl) \<and> f \<in> frames_of g sid" using fr(1,3) by auto
  next
    fix v f fl0 assume v: "space_view sp' st' v = Some (f, fl0)" "f \<in> shared_frames g"
    have "f \<notin> free_set st" using F v(2) by blast
    then have "v \<notin> pages lo hi" using fr(2) v(1) unfolding fr(1) by auto
    then have "space_view sp st v = Some (f, fl0)" using v(1) fr(1) by simp
    then show "bt_get pgs v \<noteq> None" using sh v(2) unfolding shares_ok_def by blast
  qed
qed

lemma vm_invE:
  assumes "vm_inv R p w"
  obtains sp where "vp_space p = Some sp" "vm_at R sp p w" "next_mmap_addr p mod USER_PAGE_SIZE = 0"
  using assms by (auto simp: vm_inv_def)

lemma map_anonymous_vm:
  assumes inv: "vm_inv R p w" and run: "map_anonymous requested len writable executable guarded accessible p w = (p', w', res)"
  shows "vm_inv R p' w'"
  using inv
proof (rule vm_invE)
  fix sp assume sp: "vp_space p = Some sp" and at: "vm_at R sp p w" and al: "next_mmap_addr p mod USER_PAGE_SIZE = 0"
  note I = vm_atD [OF at]
  from run sp al show ?thesis
  proof (cases rule: map_anonymous_cases)
    case invalid
    then show ?thesis using inv by simp
  next
    case (chosen lo hi)
    obtain sp' where s: "space_ok (shared_frames (vw_globals w)) sp' (vw_machine w')" "pool_set (vw_machine w') = pool_set (vw_machine w)"
      "w' = w\<lparr>vw_machine := vw_machine w'\<rparr>"
      "anon_effect requested lo hi (page_up len) writable executable guarded accessible sp p w sp' p' w' res"
      using map_chosen_spec [OF I(2) chosen(1,2,3) sp chosen(6)] by blast
    have "shares_ok (vw_globals w) (shared_pages (vp_caps p)) (space_view sp' (vw_machine w'))"
      using s(4) I(3) shares_fresh [OF I(3,2)] by (cases res) (auto simp: anon_effect_def)
    moreover have p': "vp_caps p' = vp_caps p" "vp_space p' = Some sp'" "next_mmap_addr p' mod USER_PAGE_SIZE = 0"
      using s(4) al chosen(1) by (cases res; auto simp: map_range_def anon_effect_def)+
    ultimately show ?thesis using vm_at_machine [OF at s(1,2), of p'] s(3) unfolding vm_inv_def by metis
  qed
qed

lemma vm_range_end_spec:
  "vm_range_end start len = Inr fin \<Longrightarrow> map_range start fin \<and> start < fin \<and> fin = start + page_up len"
  using page_up(1,2) [of len]
  by (auto simp: vm_range_end_def checked_add_def page_up_def map_range_def mod_add_eq [symmetric, of start] split: if_splits)

lemma shares_flags:
  assumes sh: "shares_ok g pgs V" and same: "\<And>v. map_option fst (V' v) = map_option fst (V v)"
  shows "shares_ok g pgs V'"
proof -
  have V: "\<exists>fl. V v = Some (f, fl)" if "V' v = Some (f, fl')" for v f fl' using same [of v] that by (cases "V v") auto
  have V': "\<exists>fl'. V' v = Some (f, fl')" if "V v = Some (f, fl)" for v f fl using same [of v] that by (cases "V' v") auto
  show ?thesis using sh V V' unfolding shares_ok_def by meson
qed

lemma protect_range_cases:
  assumes run: "protect_range start len writable executable present p w = (w', res)" and sp: "vp_space p = Some sp"
  obtains (same) e where "res = Inl e" "w' = w"
    | (prot) fin st' where "vm_range_end start len = Inr fin" "\<forall>g \<in> set (guard_regions p). \<not> hits_guard start fin g"
        "all_mapped (page_list start fin) sp (vw_machine w)" "w' = w\<lparr>vw_machine := st'\<rparr>"
        "protect_pages (page_list start fin) (prot_flags writable executable) present sp (vw_machine w) = (st', res)"
proof (cases "vm_range_end start len")
  case (Inl e)
  then have "w' = w" "res = Inl e" using run by (simp_all add: protect_range_def)
  then show ?thesis using same by blast
next
  case (Inr fin)
  obtain st' r where p: "protect_pages (page_list start fin) (prot_flags writable executable) present sp (vw_machine w) = (st', r)"
    by fastforce
  show ?thesis
  proof (cases "(\<exists>g \<in> set (guard_regions p). hits_guard start fin g) \<or> \<not> all_mapped (page_list start fin) sp (vw_machine w)")
    case True
    then have "w' = w \<and> res = Inl InvalidMemoryRange" using run Inr sp unfolding protect_range_def by (simp split: if_splits)
    then show ?thesis using same by blast
  next
    case False
    then have "w' = w\<lparr>vw_machine := st'\<rparr>" "res = r" using run Inr sp p unfolding protect_range_def by simp_all
    then show ?thesis using prot Inr p False by blast
  qed
qed

lemma protect_range_vm:
  assumes inv: "vm_inv R p w" and run: "protect_range start len writable executable present p w = (w', res)"
  shows "vm_inv R p w'"
  using inv
proof (rule vm_invE)
  fix sp assume sp: "vp_space p = Some sp" and at: "vm_at R sp p w" and al: "next_mmap_addr p mod USER_PAGE_SIZE = 0"
  note I = vm_atD [OF at]
  from run sp show ?thesis
  proof (cases rule: protect_range_cases)
    case same
    then show ?thesis using inv by simp
  next
    case (prot fin st')
    note m = vm_range_end_spec [OF prot(1)]
    have pl: "set (page_list start fin) = pages start fin" "distinct (page_list start fin)" using page_list_set m by (auto simp: map_range_def)
    have nb: "\<forall>p \<in> set (page_list start fin). \<not> bad_user_page p" using pages_not_bad m pl by (auto simp: map_range_def)
    note s = protect_pages_spec [OF I(2) prot_flags_ok nb pl(2) prot(5)]
    have "shares_ok (vw_globals w) (shared_pages (vp_caps p)) (space_view sp st')"
      by (rule shares_flags [OF I(3)]) (use s in \<open>simp add: option.map_comp comp_def case_prod_unfold\<close>)
    then show ?thesis using vm_at_machine [OF at, of sp st' p] s prot(4) sp al by (auto simp: vm_inv_def advance_def)
  qed
qed

text \<open>Unmapping one page, with the reference of a shared page.\<close>

lemma page_refs_del:
  assumes "bt_ok (shared_pages (vp_caps p))" "bt_get (shared_pages (vp_caps p)) page = Some sid"
    "shared_pages (vp_caps p') = bt_del page (shared_pages (vp_caps p))"
  shows "page_refs p i = page_refs p' i + one_if (sid = i)"
  using bt_sum_del [OF assms(1), of "\<lambda>j. one_if (j = i)" page] assms(2,3) by (simp add: page_refs_def)

lemma page_refs_pos: "bt_get (shared_pages (vp_caps p)) v = Some sid \<Longrightarrow> 0 < page_refs p sid"
  using bt_sum_mono_le [of "shared_pages (vp_caps p)" v sid "\<lambda>j. one_if (j = sid)"] by (simp add: page_refs_def one_if_def)

lemma shares_ok_frames: "frames_of g' = frames_of g \<Longrightarrow> shares_ok g' pgs V \<longleftrightarrow> shares_ok g pgs V"
  by (simp add: shares_ok_def shared_frames_def)

lemma shares_ok_unmap:
  "shares_ok g pgs V \<Longrightarrow> shares_ok g (bt_del page pgs) (V(page := None))"
  by (auto simp: shares_ok_def)

definition refs_bound :: "vm_world \<Rightarrow> bool" where
  "refs_bound w \<longleftrightarrow> (\<forall>i obj. bt_get (shared_objects (vw_globals w)) i = Some obj \<longrightarrow>
     so_refs obj + length (so_frames obj) < usize_modulus)"

lemma unmap_step:
  assumes at: "vm_at R sp p w" and u: "unmap_user_page page sp (vw_machine w) = (sp', st', Inr b)"
    and sid: "bt_get (shared_pages (vp_caps p)) page = Some sid" and bound: "refs_bound w"
    and p': "vp_caps p' = (vp_caps p)\<lparr>shared_pages := bt_del page (shared_pages (vp_caps p))\<rparr>"
  shows "vm_at R sp' p' (on_globals (shared_vm_release sid 1) (w\<lparr>vw_machine := st'\<rparr>)) \<and>
    space_view sp' (vw_machine (on_globals (shared_vm_release sid 1) (w\<lparr>vw_machine := st'\<rparr>))) = (space_view sp (vw_machine w))(page := None)"
proof -
  note I = vm_atD [OF at]
  note us = unmap_user_page_spec [OF I(2) u, simplified] unmap_user_page_pool [OF I(2) u]
  let ?w = "w\<lparr>vw_machine := st'\<rparr>" and ?pgs = "bt_del page (shared_pages (vp_caps p))"
  have view: "space_view sp' st' = (space_view sp (vw_machine w))(page := None)" using us(1) by simp
  have reg: "registry_inv (\<lambda>i. R i + page_refs p i) (globals_at ?w)" using registry_machine [OF I(1) _ us(2)] us(1) by blast
  have ok: "space_ok (shared_frames (vw_globals ?w)) sp' (vw_machine ?w)" using us(1) by simp
  have sh: "shares_ok (vw_globals ?w) ?pgs (space_view sp' (vw_machine ?w))" using shares_ok_unmap [OF I(3)] view by simp
  have bt: "bt_ok (shared_pages (vp_caps p))" using I(3) by (simp add: shares_ok_def)
  have refs: "page_refs p i = page_refs p' i + one_if (sid = i)" for i using page_refs_del [OF bt sid] p' by simp
  have pos: "0 < R sid + page_refs p sid" using page_refs_pos [OF sid] by simp
  have small: "R sid + page_refs p sid < usize_modulus"
    using registry_live [OF I(1), of sid] pos bound by (fastforce simp: refs_bound_def)
  have gone: "\<forall>v. bt_get ?pgs v \<noteq> Some sid" if "R sid + page_refs p sid = 1"
    using page_refs_pos [of p'] p' refs [of sid] that by (fastforce simp: one_if_def)
  have eq: "(\<lambda>i. R i + page_refs p i)(sid := R sid + page_refs p sid - 1) = (\<lambda>i. R i + page_refs p' i)"
    using refs by (auto simp: fun_eq_iff one_if_def)
  note rs = release_step [OF reg pos small ok sh gone, unfolded eq]
  show ?thesis using rs view p' unfolding vm_at_def by auto
qed

lemma refs_bound_release:
  assumes "refs_bound w" "bt_get (shared_objects (vw_globals w)) sid = Some obj" "0 < so_refs obj"
  shows "refs_bound (on_globals (shared_vm_release sid 1) (w\<lparr>vw_machine := st'\<rparr>))"
proof -
  have "so_refs obj < usize_modulus" using assms(1,2) by (fastforce simp: refs_bound_def)
  then have "wrap_sub (so_refs obj) 1 = so_refs obj - 1" using assms(3) by (simp add: wrap_sub_exact)
  then show ?thesis using assms unfolding refs_bound_def
    by (fastforce simp: shared_vm_release_def globals_at_def Let_def split: if_splits)
qed

lemma unmap_loop_spec:
  "vm_at R sp p w \<Longrightarrow> refs_bound w \<Longrightarrow> \<forall>v \<in> set ps. \<not> bad_user_page v \<Longrightarrow> unmap_loop ps sp p w = (sp', p', w', r) \<Longrightarrow>
     r = Inr () \<and> vm_at R sp' p' w' \<and> p' = p\<lparr>vp_caps := vp_caps p'\<rparr> \<and>
     space_view sp' (vw_machine w') = (\<lambda>v. if v \<in> set ps then None else space_view sp (vw_machine w) v)"
proof (induction ps arbitrary: sp p w)
  case (Cons page ps)
  note I = vm_atD [OF Cons.prems(1)]
  obtain sp1 st1 q where u: "unmap_user_page page sp (vw_machine w) = (sp1, st1, q)" by (metis prod_cases3)
  note us = unmap_user_page_spec [OF I(2) u] unmap_user_page_pool [OF I(2) u]
  obtain b where q: "q = Inr b" using us(1) Cons.prems(3) by (cases q) auto
  have view: "space_view sp1 st1 = (space_view sp (vw_machine w))(page := None)" using us(1) q by simp
  show ?case
  proof (cases "bt_get (shared_pages (vp_caps p)) page")
    case None
    have "shares_ok (vw_globals w) (shared_pages (vp_caps p)) (space_view sp1 st1)"
      using shares_ok_unmap [OF I(3), of page] None view by (simp add: bt_del_notin)
    then have at1: "vm_at R sp1 p (w\<lparr>vw_machine := st1\<rparr>)" using vm_at_machine [OF Cons.prems(1) _ us(2)] us(1) by simp
    have run: "unmap_loop ps sp1 p (w\<lparr>vw_machine := st1\<rparr>) = (sp', p', w', r)" using Cons.prems(4) u q None by simp
    have "refs_bound (w\<lparr>vw_machine := st1\<rparr>)" using Cons.prems(2) by (simp add: refs_bound_def)
    from Cons.IH [OF at1 this _ run] Cons.prems(3) show ?thesis by (auto simp: view fun_eq_iff)
  next
    case (Some sid)
    let ?p = "p\<lparr>vp_caps := (vp_caps p)\<lparr>shared_pages := bt_del page (shared_pages (vp_caps p))\<rparr>\<rparr>"
    let ?w = "on_globals (shared_vm_release sid 1) (w\<lparr>vw_machine := st1\<rparr>)"
    have at1: "vm_at R sp1 ?p ?w" "space_view sp1 (vw_machine ?w) = (space_view sp (vw_machine w))(page := None)"
      using unmap_step [OF Cons.prems(1) u [unfolded q] Some Cons.prems(2), of ?p] by simp_all
    have "0 < R sid + page_refs p sid" using page_refs_pos [OF Some] by simp
    then obtain obj where "bt_get (shared_objects (vw_globals w)) sid = Some obj" "0 < so_refs obj"
      using registry_live [OF I(1), of sid] by auto
    then have b1: "refs_bound ?w" by (rule refs_bound_release [OF Cons.prems(2)])
    have run: "unmap_loop ps sp1 ?p ?w = (sp', p', w', r)" using Cons.prems(4) u q Some by (simp add: Let_def)
    from Cons.IH [OF at1(1) b1 _ run] Cons.prems(3) show ?thesis unfolding at1(2) by (auto simp: fun_eq_iff)
  qed
qed simp

section \<open>Guard pages\<close>

definition guard_span :: "usize \<Rightarrow> usize \<Rightarrow> usize set" where
  "guard_span u n = pages (u - USER_PAGE_SIZE) (u + n + USER_PAGE_SIZE)"

definition GUARD_FLAGS :: u64 where
  "GUARD_FLAGS = PF_NO_EXECUTE OR PF_USER"

text \<open>
  The guarded regions of a process: each is mapped as a whole, its first and last page are not present,
  and no two of them overlap.
\<close>

definition region_ok :: "(usize \<Rightarrow> (usize \<times> u64) option) \<Rightarrow> usize \<Rightarrow> usize \<Rightarrow> bool" where
  "region_ok V u n \<longleftrightarrow> map_range (u - USER_PAGE_SIZE) (u + n + USER_PAGE_SIZE) \<and> 0 < n \<and> (\<forall>x \<in> guard_span u n. V x \<noteq> None) \<and>
     map_option snd (V (u - USER_PAGE_SIZE)) = Some GUARD_FLAGS \<and> map_option snd (V (u + n)) = Some GUARD_FLAGS"

definition guards_ok :: "(usize, usize) btree \<Rightarrow> (usize \<Rightarrow> (usize \<times> u64) option) \<Rightarrow> bool" where
  "guards_ok g V \<longleftrightarrow> bt_ok g \<and> (\<forall>u n. bt_get g u = Some n \<longrightarrow> region_ok V u n) \<and>
     (\<forall>u n u' n'. bt_get g u = Some n \<longrightarrow> bt_get g u' = Some n' \<longrightarrow> u \<noteq> u' \<longrightarrow> guard_span u n \<inter> guard_span u' n' = {})"

lemma region_bounds:
  assumes "region_ok V u n"
  shows "USER_PAGE_SIZE < u" "u + n + USER_PAGE_SIZE \<le> USER_MMAP_END" "u mod USER_PAGE_SIZE = 0" "(u + n) mod USER_PAGE_SIZE = 0"
    "u - USER_PAGE_SIZE \<in> guard_span u n" "u + n \<in> guard_span u n" "\<not> bad_user_page (u - USER_PAGE_SIZE)" "\<not> bad_user_page (u + n)"
    "wrap_sub u USER_PAGE_SIZE = u - USER_PAGE_SIZE" "wrap_add u n = u + n" "wrap_add (wrap_add u n) USER_PAGE_SIZE = u + n + USER_PAGE_SIZE"
proof -
  have m: "USER_MMAP_BASE \<le> u - USER_PAGE_SIZE" "u + n + USER_PAGE_SIZE \<le> USER_MMAP_END"
    "(u - USER_PAGE_SIZE) mod USER_PAGE_SIZE = 0" "(u + n + USER_PAGE_SIZE) mod USER_PAGE_SIZE = 0" "0 < n"
    using assms by (auto simp: region_ok_def map_range_def)
  show u: "USER_PAGE_SIZE < u" using m(1) by (simp add: USER_MMAP_BASE_def USER_PAGE_SIZE_def)
  show "u + n + USER_PAGE_SIZE \<le> USER_MMAP_END" by (rule m(2))
  show um: "u mod USER_PAGE_SIZE = 0" using m(3) u by (metis le_add_diff_inverse2 less_imp_le mod_add_self2)
  show un: "(u + n) mod USER_PAGE_SIZE = 0" using m(4) by simp
  show g: "u - USER_PAGE_SIZE \<in> guard_span u n" "u + n \<in> guard_span u n"
    using m(3) un u by (auto simp: guard_span_def pages_def) (simp_all add: USER_PAGE_SIZE_def)
  show "\<not> bad_user_page (u - USER_PAGE_SIZE)" "\<not> bad_user_page (u + n)"
    using g pages_not_bad [OF m(1,2)] by (auto simp: guard_span_def)
  have "u + n + USER_PAGE_SIZE < usize_modulus" using m(2) by (simp add: USER_MMAP_END_def usize_modulus_def)
  then show "wrap_sub u USER_PAGE_SIZE = u - USER_PAGE_SIZE" "wrap_add u n = u + n"
    "wrap_add (wrap_add u n) USER_PAGE_SIZE = u + n + USER_PAGE_SIZE"
    using u by (simp_all add: wrap_sub_exact wrap_add_exact)
qed

lemma guards_okD:
  assumes "guards_ok g V"
  shows "bt_ok g" "\<And>u n. bt_get g u = Some n \<Longrightarrow> region_ok V u n"
    "\<And>u n u' n'. bt_get g u = Some n \<Longrightarrow> bt_get g u' = Some n' \<Longrightarrow> u \<noteq> u' \<Longrightarrow> guard_span u n \<inter> guard_span u' n' = {}"
  using assms by (auto simp: guards_ok_def)

lemma guards_ok_mono:
  assumes g: "guards_ok g V" and same: "\<And>v. V v \<noteq> None \<Longrightarrow> V' v = V v"
  shows "guards_ok g V'"
proof -
  have "region_ok V' u n" if "bt_get g u = Some n" for u n
  proof -
    have r: "region_ok V u n" using guards_okD(2) [OF g that] .
    then have "\<forall>x \<in> guard_span u n. V' x = V x" using same by (simp add: region_ok_def)
    then show ?thesis using r region_bounds(5,6) [OF r] unfolding region_ok_def by (metis (no_types, lifting))
  qed
  then show ?thesis using guards_okD(1,3) [OF g] unfolding guards_ok_def by blast
qed

lemma guards_ok_put:
  assumes g: "guards_ok g V" and r: "region_ok V' u n" and same: "\<And>v. V v \<noteq> None \<Longrightarrow> V' v = V v"
    and fresh: "\<And>v. v \<in> guard_span u n \<Longrightarrow> V v = None"
  shows "guards_ok (bt_put u n g) V'"
proof -
  note G = guards_okD [OF guards_ok_mono [OF g same]]
  have new: "guard_span u' n' \<inter> guard_span u n = {}" if "bt_get g u' = Some n'" for u' n'
    using guards_okD(2) [OF g that] fresh by (force simp: region_ok_def)
  show ?thesis unfolding guards_ok_def
  proof (intro conjI allI impI)
    show "bt_ok (bt_put u n g)" using G(1) by simp
    show "region_ok V' a b" if "bt_get (bt_put u n g) a = Some b" for a b using that r G(2) by (auto split: if_splits)
    show "guard_span a b \<inter> guard_span a' b' = {}"
      if "bt_get (bt_put u n g) a = Some b" "bt_get (bt_put u n g) a' = Some b'" "a \<noteq> a'" for a b a' b'
      using that G(3) new by (simp split: if_splits) blast+
  qed
qed

lemma guards_ok_protect:
  assumes g: "guards_ok g V" and V': "V' = (\<lambda>v. if v \<in> P then map_option (\<lambda>(f, _). (f, fl)) (V v) else V v)"
    and out: "\<And>u n. bt_get g u = Some n \<Longrightarrow> u - USER_PAGE_SIZE \<notin> P \<and> u + n \<notin> P"
  shows "guards_ok g V'"
proof -
  have "region_ok V' u n" if "bt_get g u = Some n" for u n
    using guards_okD(2) [OF g that] out [OF that] by (auto simp: region_ok_def V')
  then show ?thesis using guards_okD(1,3) [OF g] unfolding guards_ok_def by blast
qed

lemma guards_ok_unmap:
  assumes g: "guards_ok g V" and V': "V' = (\<lambda>v. if v \<in> P then None else V v)"
    and sub: "bt_ok g'" "\<And>u n. bt_get g' u = Some n \<Longrightarrow> bt_get g u = Some n \<and> guard_span u n \<inter> P = {}"
  shows "guards_ok g' V'"
proof -
  have "region_ok V' u n" if "bt_get g' u = Some n" for u n
  proof -
    have r: "region_ok V u n" and d: "guard_span u n \<inter> P = {}" using sub(2) [OF that] guards_okD(2) [OF g] by auto
    have "\<forall>x \<in> guard_span u n. V' x = V x" using d by (auto simp: V')
    then show ?thesis using r region_bounds(5,6) [OF r] unfolding region_ok_def by (metis (no_types, lifting))
  qed
  then show ?thesis using sub guards_okD(3) [OF g] unfolding guards_ok_def by metis
qed

lemma guard_of_spec:
  "\<forall>(u, n) \<in> set xs. region_ok V u n \<Longrightarrow> guard_of start fin xs g0 = Inr guard \<Longrightarrow>
     (\<forall>(u, n) \<in> set xs. start = u \<and> fin = u + n \<or> pages start fin \<inter> guard_span u n = {}) \<and>
     (if \<exists>n. (start, n) \<in> set xs \<and> fin = start + n then guard = Some (start, fin - start) else guard = g0)"
proof (induction xs arbitrary: g0)
  case (Cons e xs)
  obtain u n where e: "e = (u, n)" by fastforce
  then have r: "region_ok V u n" using Cons.prems(1) by simp
  note b = region_bounds [OF r]
  show ?case
  proof (cases "start < u + n + USER_PAGE_SIZE \<and> u - USER_PAGE_SIZE < fin")
    case True
    then have ex: "start = u" "fin = u + n" "guard_of start fin xs (Some (u, n)) = Inr guard"
      using Cons.prems(2) b unfolding e by (auto simp: Let_def split: if_splits)
    from Cons.IH [OF _ ex(3)] Cons.prems(1) show ?thesis using ex(1,2) e by (auto split: if_splits)
  next
    case False
    then have run: "guard_of start fin xs g0 = Inr guard" using Cons.prems(2) b unfolding e by (auto simp: Let_def split: if_splits)
    have "pages start fin \<inter> guard_span u n = {}" using False by (auto simp: pages_def guard_span_def)
    moreover have "\<not> (start = u \<and> fin = u + n)" using False r b(1) by (auto simp: region_ok_def USER_PAGE_SIZE_def)
    moreover have "(\<exists>m. (start, m) \<in> set (e # xs) \<and> fin = start + m) \<longleftrightarrow> (\<exists>m. (start, m) \<in> set xs \<and> fin = start + m)"
      using calculation(2) e by auto
    ultimately show ?thesis using Cons.IH [OF _ run] Cons.prems(1) e by simp
  qed
qed simp

definition guards_private :: "(usize, usize) btree \<Rightarrow> (usize, u64) btree \<Rightarrow> bool" where
  "guards_private g pgs \<longleftrightarrow> (\<forall>u n x. bt_get g u = Some n \<longrightarrow> x \<in> guard_span u n \<longrightarrow> bt_get pgs x = None)"

definition guards_inv :: "vm_process \<Rightarrow> vm_world \<Rightarrow> bool" where
  "guards_inv p w \<longleftrightarrow> (\<exists>sp. vp_space p = Some sp \<and> guards_ok (guard_regions p) (space_view sp (vw_machine w)) \<and>
     guards_private (guard_regions p) (shared_pages (vp_caps p)))"

text \<open>The pages an unmapping gives up: the range, and the guard pages of the region it covers.\<close>

definition unmapped_pages :: "(usize, usize) btree \<Rightarrow> usize \<Rightarrow> usize \<Rightarrow> usize set" where
  "unmapped_pages g start fin = pages start fin \<union>
     (if bt_get g start = Some (fin - start) then {start - USER_PAGE_SIZE, fin} else {})"

lemma unmap_user_page_vm:
  assumes at: "vm_at R sp p w" and nb: "\<not> bad_user_page page" and no: "bt_get (shared_pages (vp_caps p)) page = None"
    and u: "unmap_user_page page sp (vw_machine w) = (sp', st', r)"
  shows "(\<exists>b. r = Inr b) \<and> vm_at R sp' p (w\<lparr>vw_machine := st'\<rparr>) \<and> space_view sp' st' = (space_view sp (vw_machine w))(page := None)"
proof -
  note I = vm_atD [OF at]
  note us = unmap_user_page_spec [OF I(2) u] unmap_user_page_pool [OF I(2) u]
  obtain b where r: "r = Inr b" using us(1) nb by (cases r) auto
  then have view: "space_view sp' st' = (space_view sp (vw_machine w))(page := None)" using us(1) by simp
  have "shares_ok (vw_globals w) (shared_pages (vp_caps p)) (space_view sp' st')"
    using shares_ok_unmap [OF I(3), of page] no view by (simp add: bt_del_notin)
  then show ?thesis using vm_at_machine [OF at _ us(2)] us(1) view r by simp
qed

lemma unmap_loop_pages:
  "unmap_loop ps sp p w = (sp', p', w', r) \<Longrightarrow> bt_get (shared_pages (vp_caps p)) x = None \<Longrightarrow> bt_get (shared_pages (vp_caps p')) x = None"
  by (induction ps sp p w rule: unmap_loop.induct) (auto simp: Let_def split: prod.splits sum.splits option.splits if_splits)

text \<open>The cases of unmapping a range.\<close>

lemma unmap_range_run:
  assumes fin: "vm_range_end start len = Inr fin" and guard: "guard_of start fin (guard_regions p) None = Inr guard"
    and sp: "vp_space p = Some sp" and m: "all_mapped (page_list start fin) sp (vw_machine w)"
    and loop: "unmap_loop (page_list start fin) sp p w = (sp1, p1, w1, Inr u)"
  shows "guard = None \<Longrightarrow> unmap_range start len p w = Ret (p1\<lparr>vp_space := Some sp1\<rparr>, w1, Inr ())"
    "guard = Some (usable, n) \<Longrightarrow> unmap_user_page (wrap_sub usable USER_PAGE_SIZE) sp1 (vw_machine w1) = (sp2, st2, Inr b) \<Longrightarrow>
       unmap_user_page (wrap_add usable n) sp2 st2 = (sp3, st3, Inr b') \<Longrightarrow>
       unmap_range start len p w = Ret (p1\<lparr>vp_space := Some sp3, guard_regions := bt_del usable (guard_regions p1)\<rparr>,
         w1\<lparr>vw_machine := st3\<rparr>, Inr ())"
  using assms by (simp_all add: unmap_range_def)

definition unmap_effect :: "usize \<Rightarrow> usize \<Rightarrow> vm_process \<Rightarrow> vm_world \<Rightarrow> vm_process \<Rightarrow> vm_world \<Rightarrow> bool" where
  "unmap_effect start fin p w p' w' \<longleftrightarrow> (\<exists>sp sp'. vp_space p = Some sp \<and> vp_space p' = Some sp' \<and>
     (\<forall>v \<in> pages start fin. space_view sp (vw_machine w) v \<noteq> None) \<and>
     space_view sp' (vw_machine w') = (\<lambda>v. if v \<in> unmapped_pages (guard_regions p) start fin then None else space_view sp (vw_machine w) v))"

text \<open>Unmapping a range that covers no guarded region.\<close>

lemma unmap_range_plain:
  assumes sp: "vp_space p = Some sp" and at: "vm_at R sp p w" and al: "next_mmap_addr p mod USER_PAGE_SIZE = 0"
    and g: "guards_ok (guard_regions p) (space_view sp (vw_machine w))"
      "guards_private (guard_regions p) (shared_pages (vp_caps p))"
    and fin: "map_range start fin" and mapped: "\<forall>v \<in> pages start fin. space_view sp (vw_machine w) v \<noteq> None"
    and apart: "\<forall>u n. bt_get (guard_regions p) u = Some n \<longrightarrow> pages start fin \<inter> guard_span u n = {}"
    and none: "bt_get (guard_regions p) start \<noteq> Some (fin - start)"
    and s: "vm_at R sp1 p1 w1" "p1 = p\<lparr>vp_caps := vp_caps p1\<rparr>"
      "space_view sp1 (vw_machine w1) = (\<lambda>v. if v \<in> pages start fin then None else space_view sp (vw_machine w) v)"
      "\<forall>x. bt_get (shared_pages (vp_caps p)) x = None \<longrightarrow> bt_get (shared_pages (vp_caps p1)) x = None"
  shows "vm_inv R (p1\<lparr>vp_space := Some sp1\<rparr>) w1 \<and> guards_inv (p1\<lparr>vp_space := Some sp1\<rparr>) w1 \<and>
    unmap_effect start fin p w (p1\<lparr>vp_space := Some sp1\<rparr>) w1"
proof -
  let ?p = "p1\<lparr>vp_space := Some sp1\<rparr>"
  have p1: "guard_regions p1 = guard_regions p" "next_mmap_addr p1 = next_mmap_addr p" by (subst s(2), simp)+
  have "vm_at R sp1 ?p w1" using s(1) by (simp add: vm_at_def page_refs_def)
  then have i: "vm_inv R ?p w1" using p1(2) al by (simp add: vm_inv_def)
  have "guards_ok (guard_regions p) (space_view sp1 (vw_machine w1))"
    by (rule guards_ok_unmap [OF g(1) s(3)]) (use guards_okD(1) [OF g(1)] apart in auto)
  then have gi: "guards_inv ?p w1" using g(2) s(4) p1(1) unfolding guards_inv_def guards_private_def by auto
  have "unmap_effect start fin p w ?p w1" using sp mapped s(3) none by (simp add: unmap_effect_def unmapped_pages_def)
  then show ?thesis using i gi by blast
qed

text \<open>Unmapping exactly the usable part of a guarded region takes its guard pages along.\<close>

lemma unmap_range_guarded:
  assumes sp: "vp_space p = Some sp" and al: "next_mmap_addr p mod USER_PAGE_SIZE = 0"
    and g: "guards_ok (guard_regions p) (space_view sp (vw_machine w))"
      "guards_private (guard_regions p) (shared_pages (vp_caps p))"
    and mapped: "\<forall>v \<in> pages start fin. space_view sp (vw_machine w) v \<noteq> None"
    and reg: "bt_get (guard_regions p) start = Some (fin - start)" "start \<le> fin"
    and s: "vm_at R sp1 p1 w1" "p1 = p\<lparr>vp_caps := vp_caps p1\<rparr>"
      "space_view sp1 (vw_machine w1) = (\<lambda>v. if v \<in> pages start fin then None else space_view sp (vw_machine w) v)"
      "\<forall>x. bt_get (shared_pages (vp_caps p)) x = None \<longrightarrow> bt_get (shared_pages (vp_caps p1)) x = None"
  obtains sp2 st2 b sp3 st3 b' where
    "unmap_user_page (wrap_sub start USER_PAGE_SIZE) sp1 (vw_machine w1) = (sp2, st2, Inr b)"
    "unmap_user_page (wrap_add start (fin - start)) sp2 st2 = (sp3, st3, Inr b')"
    "vm_inv R (p1\<lparr>vp_space := Some sp3, guard_regions := bt_del start (guard_regions p1)\<rparr>) (w1\<lparr>vw_machine := st3\<rparr>)"
    "guards_inv (p1\<lparr>vp_space := Some sp3, guard_regions := bt_del start (guard_regions p1)\<rparr>) (w1\<lparr>vw_machine := st3\<rparr>)"
    "unmap_effect start fin p w (p1\<lparr>vp_space := Some sp3, guard_regions := bt_del start (guard_regions p1)\<rparr>) (w1\<lparr>vw_machine := st3\<rparr>)"
proof -
  note r = guards_okD(2) [OF g(1) reg(1)]
  note b = region_bounds [OF r]
  have e: "start + (fin - start) = fin" using reg(2) by simp
  have p1: "guard_regions p1 = guard_regions p" "next_mmap_addr p1 = next_mmap_addr p" by (subst s(2), simp)+
  have no: "bt_get (shared_pages (vp_caps p1)) (start - USER_PAGE_SIZE) = None" "bt_get (shared_pages (vp_caps p1)) fin = None"
    using s(4) g(2) reg(1) b(5,6) e unfolding guards_private_def by auto
  obtain sp2 st2 q where u2: "unmap_user_page (start - USER_PAGE_SIZE) sp1 (vw_machine w1) = (sp2, st2, q)" by (metis prod_cases3)
  note s2 = unmap_user_page_vm [OF s(1) b(7) no(1) u2]
  obtain sp3 st3 q' where u3: "unmap_user_page fin sp2 st2 = (sp3, st3, q')" by (metis prod_cases3)

  have s3: "(\<exists>b. q' = Inr b) \<and> vm_at R sp3 p1 (w1\<lparr>vw_machine := st3\<rparr>) \<and> space_view sp3 st3 = (space_view sp2 st2)(fin := None)"
    using unmap_user_page_vm [of R sp2 p1 "w1\<lparr>vw_machine := st2\<rparr>" fin sp3 st3 q'] s2 b(8) no(2) u3 e by simp
  let ?p = "p1\<lparr>vp_space := Some sp3, guard_regions := bt_del start (guard_regions p1)\<rparr>" and ?w = "w1\<lparr>vw_machine := st3\<rparr>"
  let ?P = "unmapped_pages (guard_regions p) start fin"
  have view: "space_view sp3 st3 = (\<lambda>v. if v \<in> ?P then None else space_view sp (vw_machine w) v)"
    using s2 s3 s(3) reg(1) by (auto simp: fun_eq_iff unmapped_pages_def)
  have P: "?P \<subseteq> guard_span start (fin - start)" using reg b(5,6) e by (auto simp: unmapped_pages_def guard_span_def pages_def)
  have "guards_ok (bt_del start (guard_regions p)) (space_view sp3 st3)"
  proof (rule guards_ok_unmap [OF g(1) view])
    show "bt_ok (bt_del start (guard_regions p))" using guards_okD(1) [OF g(1)] by simp
    fix u n assume "bt_get (bt_del start (guard_regions p)) u = Some n"
    then have "bt_get (guard_regions p) u = Some n" "u \<noteq> start" by (auto split: if_splits)
    then show "bt_get (guard_regions p) u = Some n \<and> guard_span u n \<inter> ?P = {}" using guards_okD(3) [OF g(1) _ reg(1)] P by blast
  qed
  then have "guards_inv ?p ?w" using g(2) s(4) p1(1) unfolding guards_inv_def guards_private_def by (auto split: if_splits)
  moreover have "vm_inv R ?p ?w" using s3 al p1(2) vm_at_caps [of ?p p1 R sp3 ?w] by (simp add: vm_inv_def)
  moreover have "unmap_effect start fin p w ?p ?w" using sp mapped view by (simp add: unmap_effect_def)
  ultimately show ?thesis using that u2 u3 s2 s3 b(9,10) e by metis
qed

lemma unmap_range_spec:
  assumes inv: "vm_inv R p w" and gi: "guards_inv p w" and bound: "refs_bound w"
  shows "\<exists>p' w' res. unmap_range start len p w = Ret (p', w', res) \<and> vm_inv R p' w' \<and> guards_inv p' w' \<and>
    (case res of Inl e \<Rightarrow> p' = p \<and> w' = w | Inr _ \<Rightarrow> \<exists>fin. vm_range_end start len = Inr fin \<and> unmap_effect start fin p w p' w')"
  using inv
proof (rule vm_invE)
  fix sp assume sp: "vp_space p = Some sp" and at: "vm_at R sp p w" and al: "next_mmap_addr p mod USER_PAGE_SIZE = 0"
  note I = vm_atD [OF at]
  have g: "guards_ok (guard_regions p) (space_view sp (vw_machine w))"
      "guards_private (guard_regions p) (shared_pages (vp_caps p))"
    using gi sp by (auto simp: guards_inv_def)
  have same: ?thesis if "unmap_range start len p w = Ret (p, w, Inl e)" for e using that inv gi by simp
  show ?thesis
  proof (cases "vm_range_end start len")
    case (Inl e)
    then show ?thesis by (intro same) (simp add: unmap_range_def)
  next
    case fin: (Inr fin)
    note m = vm_range_end_spec [OF fin]
    have pl: "set (page_list start fin) = pages start fin" using page_list_set m by (auto simp: map_range_def)
    have nb: "\<forall>v \<in> set (page_list start fin). \<not> bad_user_page v" using pages_not_bad m pl by (auto simp: map_range_def)
    note am = all_mapped_spec [OF I(2) nb, unfolded pl]
    show ?thesis
    proof (cases "guard_of start fin (guard_regions p) None")
      case (Inl e)
      then show ?thesis using fin by (intro same) (simp add: unmap_range_def)
    next
      case gd: (Inr guard)
      have ro: "\<forall>(u, n) \<in> set (guard_regions p). region_ok (space_view sp (vw_machine w)) u n"
        using guards_okD(1,2) [OF g(1)] bt_set_get by fast
      note gs = guard_of_spec [OF ro gd]
      have ex: "(\<exists>n. (start, n) \<in> set (guard_regions p) \<and> fin = start + n) \<longleftrightarrow> bt_get (guard_regions p) start = Some (fin - start)"
        using bt_set_get [OF guards_okD(1) [OF g(1)]] bt_get_set m by (metis diff_add_inverse le_add_diff_inverse less_imp_le)
      show ?thesis
      proof (cases "all_mapped (page_list start fin) sp (vw_machine w)")
        case False
        then show ?thesis using fin gd sp by (intro same) (simp add: unmap_range_def)
      next
        case mapped: True
        obtain sp1 p1 w1 r where l: "unmap_loop (page_list start fin) sp p w = (sp1, p1, w1, r)" by (metis prod_cases4)
        note ls = unmap_loop_spec [OF at bound nb l]
        have keep: "\<forall>x. bt_get (shared_pages (vp_caps p)) x = None \<longrightarrow> bt_get (shared_pages (vp_caps p1)) x = None"
          using unmap_loop_pages [OF l] by blast
        from ls have r: "r = Inr ()" and s: "vm_at R sp1 p1 w1" "p1 = p\<lparr>vp_caps := vp_caps p1\<rparr>"
          "space_view sp1 (vw_machine w1) = (\<lambda>v. if v \<in> pages start fin then None else space_view sp (vw_machine w) v)" by (auto simp: pl)
        note run = unmap_range_run [OF fin gd sp mapped l [unfolded r]]
        show ?thesis
        proof (cases "bt_get (guard_regions p) start = Some (fin - start)")
          case False
          then have gn: "guard = None" using gs ex by simp
          have apart: "pages start fin \<inter> guard_span u n = {}" if u: "bt_get (guard_regions p) u = Some n" for u n
          proof -
            have "start = u \<and> fin = u + n \<or> pages start fin \<inter> guard_span u n = {}"
              using bspec [OF conjunct1 [OF gs] bt_get_set [OF u]] by simp
            then show ?thesis using False u by auto
          qed
          have "vm_inv R (p1\<lparr>vp_space := Some sp1\<rparr>) w1 \<and> guards_inv (p1\<lparr>vp_space := Some sp1\<rparr>) w1 \<and>
              unmap_effect start fin p w (p1\<lparr>vp_space := Some sp1\<rparr>) w1"
            by (rule unmap_range_plain [OF sp at al g _ _ _ False s keep]) (use apart am mapped m in blast)+
          then show ?thesis using run(1) [OF gn] fin by fastforce
        next
          case True
          then have gd': "guard = Some (start, fin - start)" using gs ex by auto
          have "\<forall>v \<in> pages start fin. space_view sp (vw_machine w) v \<noteq> None" "start \<le> fin" using am mapped m by auto
          from unmap_range_guarded [OF sp al g this(1) True this(2) s keep] obtain sp2 st2 b sp3 st3 b' where
            u: "unmap_user_page (wrap_sub start USER_PAGE_SIZE) sp1 (vw_machine w1) = (sp2, st2, Inr b)"
              "unmap_user_page (wrap_add start (fin - start)) sp2 st2 = (sp3, st3, Inr b')"
            and res: "vm_inv R (p1\<lparr>vp_space := Some sp3, guard_regions := bt_del start (guard_regions p1)\<rparr>) (w1\<lparr>vw_machine := st3\<rparr>)"
              "guards_inv (p1\<lparr>vp_space := Some sp3, guard_regions := bt_del start (guard_regions p1)\<rparr>) (w1\<lparr>vw_machine := st3\<rparr>)"
              "unmap_effect start fin p w (p1\<lparr>vp_space := Some sp3, guard_regions := bt_del start (guard_regions p1)\<rparr>) (w1\<lparr>vw_machine := st3\<rparr>)"
            by blast
          show ?thesis using run(2) [OF gd' u] res fin by fastforce
        qed
      qed
    qed
  qed
qed

section \<open>Mapping a shared object\<close>

lemma map_frames_spec:
  "space_ok F sp st \<Longrightarrow> flags_ok fl \<Longrightarrow> \<forall>(pg, f) \<in> set prs. \<not> bad_user_page pg \<and> f \<in> F \<Longrightarrow> distinct (map fst prs) \<Longrightarrow>
     \<forall>p \<in> set mapped. \<not> bad_user_page p \<Longrightarrow> set mapped \<inter> fst ` set prs = {} \<Longrightarrow> map_frames prs fl mapped (sp, st) = ((sp', st'), done) \<Longrightarrow>
     space_ok F sp' st' \<and> pool_set st' = pool_set st \<and>
     (\<not> done \<longrightarrow> space_view sp' st' = (\<lambda>v. if v \<in> set mapped then None else space_view sp st v)) \<and>
     (done \<longrightarrow> (\<forall>pg \<in> fst ` set prs. space_view sp st pg = None) \<and>
        space_view sp' st' = (\<lambda>v. case map_of prs v of Some f \<Rightarrow> Some (f, fl OR PF_PRESENT OR PF_USER) | None \<Rightarrow> space_view sp st v))"
proof (induction prs arbitrary: mapped sp st)
  case (Cons e prs)
  obtain pg f where e: "e = (pg, f)" by fastforce
  have nb: "\<not> bad_user_page pg" "f \<in> F" using Cons.prems(3) e by auto
  show ?case
  proof (cases "space_view sp st pg = None")
    case False
    then have "unmap_pages mapped (sp, st) = (sp', st')" "\<not> done"
      using Cons.prems(7) translate_view [OF Cons.prems(1) nb(1)] e by (auto split: option.splits)
    then show ?thesis using unmap_pages_spec [OF Cons.prems(1,5)] by simp
  next
    case free: True
    obtain sp1 st1 r where u: "map_user_frame pg f fl sp st = (sp1, st1, r)" by (metis prod_cases3)
    have fo: "frame_addr_ok f" using Cons.prems(1) nb(2) by (simp add: space_ok_def)
    have pool: "pool_set st1 = pool_set st" using map_user_frame_advance [OF space_okD(1) [OF Cons.prems(1)] Cons.prems(2) fo u] by (simp add: advance_def)
    note s = map_foreign_ok [OF Cons.prems(1,2) nb(2) u]
    show ?thesis
    proof (cases r)
      case (Inl x)
      then have "unmap_pages mapped (sp1, st1) = (sp', st')" "\<not> done"
        using Cons.prems(7) translate_view [OF Cons.prems(1) nb(1)] e u free by auto
      then show ?thesis using unmap_pages_spec [OF _ Cons.prems(5), of F sp1 st1 sp' st'] s Inl pool by auto
    next
      case (Inr x)
      then have s1: "space_ok F sp1 st1" "space_view sp1 st1 = (space_view sp st)(pg \<mapsto> (f, fl OR PF_PRESENT OR PF_USER))" using s by auto
      have run: "map_frames prs fl (mapped @ [pg]) (sp1, st1) = ((sp', st'), done)"
        using Cons.prems(7) translate_view [OF Cons.prems(1) nb(1)] e u free Inr by auto
      have pg: "pg \<notin> fst ` set prs" "pg \<notin> set mapped" "distinct (map fst prs)" using Cons.prems(4,6) e by auto
      have ih: "space_ok F sp' st' \<and> pool_set st' = pool_set st1 \<and>
       (\<not> done \<longrightarrow> space_view sp' st' = (\<lambda>v. if v \<in> set (mapped @ [pg]) then None else space_view sp1 st1 v)) \<and>
       (done \<longrightarrow> (\<forall>pg \<in> fst ` set prs. space_view sp1 st1 pg = None) \<and>
        space_view sp' st' = (\<lambda>v. case map_of prs v of Some f \<Rightarrow> Some (f, fl OR PF_PRESENT OR PF_USER) | None \<Rightarrow> space_view sp1 st1 v))"
        by (rule Cons.IH [OF s1(1) Cons.prems(2) _ pg(3) _ _ run]) (use Cons.prems(3,5,6) pg nb in auto)
      have fail: "space_view sp' st' = (\<lambda>v. if v \<in> set mapped then None else space_view sp st v)" if "\<not> done"
        using ih that s1(2) free by (auto simp: fun_eq_iff)
      have "map_of prs pg = None" using pg(1) by (simp add: map_of_eq_None_iff)
      then have new: "space_view sp' st' = (\<lambda>v. case map_of (e # prs) v of Some f \<Rightarrow> Some (f, fl OR PF_PRESENT OR PF_USER) | None \<Rightarrow> space_view sp st v)" if "done"
        using ih that s1(2) e by (auto simp: fun_eq_iff split: option.splits)
      have "space_view sp st q = None" if "done" "q \<in> fst ` set prs" for q
      proof -
        have "\<forall>q \<in> fst ` set prs. space_view sp1 st1 q = None" using ih that(1) by presburger
        then have "space_view sp1 st1 q = None" using that(2) by (rule bspec)
        moreover have "q \<noteq> pg" using that(2) pg(1) by metis
        ultimately
        show ?thesis by (simp add: s1(2))
      qed
      then show ?thesis using ih fail new free e pool by simp
    qed
  qed
qed auto

lemma map_of_zip_pages: "length ps = length fs \<Longrightarrow> v \<in> set ps \<longleftrightarrow> (\<exists>f. map_of (zip ps fs) v = Some f)"
  by (rule map_of_zip_is_Some)

lemma fold_put_get: "bt_get (fold (\<lambda>pg. bt_put pg x) ps m) v = (if v \<in> set ps then Some x else bt_get m v)"
  by (induction ps arbitrary: m) auto

lemma fold_put_ok: "bt_ok m \<Longrightarrow> bt_ok (fold (\<lambda>pg. bt_put pg x) ps m)"
  by (induction ps arbitrary: m) auto

lemma fold_put_sum:
  "bt_ok m \<Longrightarrow> distinct ps \<Longrightarrow> \<forall>v \<in> set ps. bt_get m v = None \<Longrightarrow>
     bt_sum g (fold (\<lambda>pg. bt_put pg x) ps m) = bt_sum g m + length ps * g x"
proof (induction ps arbitrary: m)
  case (Cons p ps)
  have "bt_sum g (bt_put p x m) = bt_sum g m + g x" using bt_sum_put [of m g p x] Cons.prems by simp
  moreover have "\<forall>v \<in> set ps. bt_get (bt_put p x m) v = None" using Cons.prems(2,3) by auto
  ultimately show ?case using Cons.IH [of "bt_put p x m"] Cons.prems(1,2) by simp
qed simp

text \<open>The references a mapping takes before it maps the frames.\<close>

definition retained :: "u64 \<Rightarrow> shared_vm_object \<Rightarrow> vm_world \<Rightarrow> vm_world" where
  "retained sid obj w = w\<lparr>vw_globals := (vw_globals w)\<lparr>shared_objects :=
     bt_put sid (obj\<lparr>so_refs := wrap_add (so_refs obj) (length (so_frames obj))\<rparr>) (shared_objects (vw_globals w))\<rparr>\<rparr>"

lemma retained_frames:
  assumes "bt_get (shared_objects (vw_globals w)) sid = Some obj"
  shows "frames_of (vw_globals (retained sid obj w)) = frames_of (vw_globals w)"
    "shared_frames (vw_globals (retained sid obj w)) = shared_frames (vw_globals w)"
    "vw_machine (retained sid obj w) = vw_machine w"
  using frames_of_put [OF assms] by (simp_all add: retained_def shared_frames_def)

lemma retained_registry:
  assumes reg: "registry_inv RR (globals_at w)" and bound: "refs_bound w" and get: "bt_get (shared_objects (vw_globals w)) sid = Some obj"
  shows "registry_inv (RR(sid := RR sid + length (so_frames obj))) (globals_at (retained sid obj w))"
proof -
  have r: "so_refs obj = RR sid" "0 < RR sid" using registry_invD(3) [OF reg, of sid obj] get by auto
  have "so_refs obj + length (so_frames obj) < usize_modulus" using bound get by (auto simp: refs_bound_def)
  then have "globals_at (retained sid obj w) =
      (globals_at w)\<lparr>shared_objects := bt_put sid (obj\<lparr>so_refs := RR sid + length (so_frames obj)\<rparr>) (shared_objects (globals_at w))\<rparr>"
    using r(1) by (simp add: globals_at_def retained_def wrap_add_exact)
  then show ?thesis using registry_set_refs [OF reg, of sid obj "RR sid + length (so_frames obj)"] get r(2) by simp
qed

lemma retained_undo:
  assumes at: "vm_at R sp p w" and bound: "refs_bound w" and get: "bt_get (shared_objects (vw_globals w)) sid = Some obj"
    and ok: "space_ok (shared_frames (vw_globals w)) sp1 st1" and pool: "pool_set st1 = pool_set (vw_machine w)"
    and view: "space_view sp1 st1 = space_view sp (vw_machine w)" and p': "vp_caps p' = vp_caps p"
  defines "w' \<equiv> on_globals (shared_vm_release sid (length (so_frames obj))) ((retained sid obj w)\<lparr>vw_machine := st1\<rparr>)"
  shows "vm_at R sp1 p' w' \<and> vw_machine w' = st1"
proof -
  note I = vm_atD [OF at]
  define RR where "RR = (\<lambda>i. R i + page_refs p i)"
  define n where "n = length (so_frames obj)"
  define w1 where "w1 = (retained sid obj w)\<lparr>vw_machine := st1\<rparr>"
  note rf = retained_frames [OF get]
  have r: "so_refs obj = RR sid" "0 < RR sid" using registry_invD(3) [OF I(1), of sid obj] get by (auto simp: RR_def)
  have "so_refs obj + n < usize_modulus" using bound get unfolding refs_bound_def n_def by blast
  then have small: "RR sid + n < usize_modulus" using r(1) by simp
  have "registry_inv (RR(sid := RR sid + n)) (globals_at (retained sid obj w))"
    using retained_registry [OF I(1) bound get] by (simp add: RR_def n_def)
  then have reg1: "registry_inv (RR(sid := RR sid + n)) (globals_at w1)"
    unfolding w1_def by (rule registry_machine) (use ok pool rf in simp_all)
  let ?obj = "obj\<lparr>so_refs := RR sid + n\<rparr>"
  have get1: "bt_get (shared_objects (vw_globals w1)) sid = Some ?obj" using small r(1) by (simp add: w1_def retained_def wrap_add_exact n_def)
  have undone: "globals_at w' = (globals_at w1)\<lparr>shared_objects := bt_put sid (?obj\<lparr>so_refs := RR sid\<rparr>) (shared_objects (globals_at w1))\<rparr>"
    using get1 r(2) small unfolding w'_def w1_def [symmetric] n_def [symmetric] globals_at_on
    by (simp add: shared_vm_release_def wrap_sub_exact)
  have "registry_inv ((RR(sid := RR sid + n))(sid := RR sid)) (globals_at w')"
    unfolding undone by (rule registry_set_refs [OF reg1 _ r(2)]) (use get1 in simp)
  then have reg': "registry_inv RR (globals_at w')" by simp
  have m': "vw_machine w' = st1"
    using get1 r(2) small unfolding w'_def w1_def [symmetric] n_def [symmetric]
    by (simp add: on_globals_def shared_vm_release_def wrap_sub_exact Let_def globals_at_def) (simp add: w1_def)
  have "frames_of (vw_globals w') = frames_of (globals_at w')" by simp
  also have "\<dots> = frames_of (globals_at w1)" unfolding undone by (rule frames_of_put) (use get1 in simp)
  also have "\<dots> = frames_of (vw_globals w)" using rf(1) by (simp add: w1_def)
  finally have fr: "frames_of (vw_globals w') = frames_of (vw_globals w)" .
  then have "shared_frames (vw_globals w') = shared_frames (vw_globals w)" by (simp add: shared_frames_def)
  moreover have "shares_ok (vw_globals w') (shared_pages (vp_caps p')) (space_view sp1 (vw_machine w'))"
    unfolding m' view p' using I(3) shares_ok_frames [OF fr] by simp
  ultimately show ?thesis using reg' ok m' p' unfolding vm_at_def RR_def page_refs_def by simp
qed

lemma retained_mapped:
  assumes at: "vm_at R sp p w" and bound: "refs_bound w" and get: "bt_get (shared_objects (vw_globals w)) sid = Some obj"
    and ok: "space_ok (shared_frames (vw_globals w)) sp1 st1" and pool: "pool_set st1 = pool_set (vw_machine w)"
    and ps: "distinct ps" "length ps = length (so_frames obj)" "\<forall>v \<in> set ps. space_view sp (vw_machine w) v = None"
    and view: "space_view sp1 st1 = (\<lambda>v. case map_of (zip ps (so_frames obj)) v of Some f \<Rightarrow> Some (f, fl) | None \<Rightarrow> space_view sp (vw_machine w) v)"
    and p': "shared_pages (vp_caps p') = fold (\<lambda>pg. bt_put pg sid) ps (shared_pages (vp_caps p))"
  shows "vm_at R sp1 p' ((retained sid obj w)\<lparr>vw_machine := st1\<rparr>)"
proof -
  note I = vm_atD [OF at]
  note rf = retained_frames [OF get]
  let ?w = "(retained sid obj w)\<lparr>vw_machine := st1\<rparr>" and ?pgs = "shared_pages (vp_caps p)"
  have bt: "bt_ok ?pgs" using I(3) by (simp add: shares_ok_def)
  have none: "\<forall>v \<in> set ps. bt_get ?pgs v = None" using I(3) ps(3) unfolding shares_ok_def by (metis not_None_eq)
  have refs: "page_refs p' i = page_refs p i + (if i = sid then length (so_frames obj) else 0)" for i
    using fold_put_sum [OF bt ps(1) none, of "\<lambda>j. one_if (j = i)" sid] p' ps(2) by (auto simp: page_refs_def one_if_def)
  have "registry_inv ((\<lambda>i. R i + page_refs p i)(sid := R sid + page_refs p sid + length (so_frames obj))) (globals_at (retained sid obj w))"
    using retained_registry [OF I(1) bound get] by simp
  moreover have "(\<lambda>i. R i + page_refs p i)(sid := R sid + page_refs p sid + length (so_frames obj)) = (\<lambda>i. R i + page_refs p' i)"
    using refs by (auto simp: fun_eq_iff)
  ultimately have reg: "registry_inv (\<lambda>i. R i + page_refs p' i) (globals_at ?w)"
    using registry_machine [of _ "retained sid obj w" sp1 st1] ok pool rf by simp
  have obj: "frames_of (vw_globals w) sid = set (so_frames obj)" using get by (simp add: frames_of_def)
  have "shares_ok (vw_globals w) (fold (\<lambda>pg. bt_put pg sid) ps ?pgs) (space_view sp1 st1)"
    unfolding shares_ok_def
  proof (intro conjI allI impI)
    show "bt_ok (fold (\<lambda>pg. bt_put pg sid) ps ?pgs)" using fold_put_ok [OF bt] .
  next
    fix v i assume v: "bt_get (fold (\<lambda>pg. bt_put pg sid) ps ?pgs) v = Some i"
    show "\<exists>f fl. space_view sp1 st1 v = Some (f, fl) \<and> f \<in> frames_of (vw_globals w) i"
    proof (cases "v \<in> set ps")
      case True
      then obtain f where f: "map_of (zip ps (so_frames obj)) v = Some f" using map_of_zip_pages [OF ps(2)] by blast
      then have "f \<in> set (so_frames obj)" by (metis map_of_SomeD set_zip_rightD)
      then show ?thesis using True v f obj by (simp add: view fold_put_get)
    next
      case False
      then have "map_of (zip ps (so_frames obj)) v = None" using map_of_zip_pages [OF ps(2), of v] by (metis not_None_eq)
      then show ?thesis using False v I(3) unfolding shares_ok_def view by (simp add: fold_put_get)
    qed
  next
    fix v f fl' assume v: "space_view sp1 st1 v = Some (f, fl')" "f \<in> shared_frames (vw_globals w)"
    show "bt_get (fold (\<lambda>pg. bt_put pg sid) ps ?pgs) v \<noteq> None"
    proof (cases "v \<in> set ps")
      case False
      then have "map_of (zip ps (so_frames obj)) v = None" using map_of_zip_pages [OF ps(2), of v] by (metis not_None_eq)
      then have "space_view sp (vw_machine w) v = Some (f, fl')" using v(1) by (simp add: view)
      then show ?thesis using False v(2) I(3) unfolding shares_ok_def by (simp add: fold_put_get)
    qed (simp add: fold_put_get)
  qed
  then show ?thesis using reg ok rf p' shares_ok_frames [OF rf(1)] by (simp add: vm_at_def)
qed

lemma frames_few:
  assumes reg: "registry_inv RR (globals_at w)" and get: "bt_get (shared_objects (vw_globals w)) sid = Some obj" and fr: "frames_ok (vw_machine w)"
  shows "length (so_frames obj) \<le> 2 ^ 40"
proof -
  have d: "distinct (so_frames obj)" using registry_invD(2) [OF reg] get fr by (auto simp: frames_inv_def objects_ok_def frames_ok_def)
  have a: "a < 2 ^ 52 \<and> 4096 dvd a" if "a \<in> set (so_frames obj)" for a
  proof -
    have "a \<in> frames_of (vw_globals w) sid" using that get by (simp add: frames_of_def)
    then have "frame_addr_ok a" using registry_frames(1) [OF reg] pool_frame_ok [OF fr] by blast
    then show ?thesis by (auto simp: frame_addr_ok_def PAGE_SIZE_def)
  qed
  then have "inj_on (\<lambda>a. a div 4096) (set (so_frames obj))" unfolding inj_on_def by (metis dvd_div_mult_self)
  moreover have "a div 4096 < 2 ^ 40" if "a \<in> set (so_frames obj)" for a using a [OF that] by (simp add: div_less_iff_less_mult)
  then have "(\<lambda>a. a div 4096) ` set (so_frames obj) \<subseteq> {..<2 ^ 40}" by auto
  ultimately have "card (set (so_frames obj)) \<le> card {..<(2 ^ 40 :: nat)}" by (metis card_image card_mono finite_lessThan)
  then show ?thesis using distinct_card [OF d] by simp
qed

lemma frames_fit:
  assumes reg: "registry_inv RR (globals_at w)" and get: "bt_get (shared_objects (vw_globals w)) sid = Some obj" and fr: "frames_ok (vw_machine w)"
  shows "wrap_mul (length (so_frames obj)) USER_PAGE_SIZE = length (so_frames obj) * USER_PAGE_SIZE"
  using frames_few [OF assms] by (simp add: wrap_mul_def usize_modulus_def USER_PAGE_SIZE_def)

text \<open>What mapping a shared object does to the pages.\<close>

definition shared_effect :: "u64 \<Rightarrow> usize \<Rightarrow> bool \<Rightarrow> vm_process \<Rightarrow> vm_world \<Rightarrow> vm_process \<Rightarrow> vm_world \<Rightarrow> bool" where
  "shared_effect sid start writable p w p' w' \<longleftrightarrow>
     (\<exists>sp sp' obj ps. vp_space p = Some sp \<and> vp_space p' = Some sp' \<and> bt_get (shared_objects (vw_globals w)) sid = Some obj \<and>
        ps = map (\<lambda>i. start + i * USER_PAGE_SIZE) [0..<length (so_frames obj)] \<and>
        (\<forall>v \<in> set ps. space_view sp (vw_machine w) v = None) \<and>
        space_view sp' (vw_machine w') = (\<lambda>v. case map_of (zip ps (so_frames obj)) v of
          Some f \<Rightarrow> Some (f, (PF_NO_EXECUTE OR (if writable then PF_WRITABLE else 0)) OR PF_PRESENT OR PF_USER)
        | None \<Rightarrow> space_view sp (vw_machine w) v))"

definition same_view :: "vm_process \<Rightarrow> vm_world \<Rightarrow> vm_process \<Rightarrow> vm_world \<Rightarrow> bool" where
  "same_view p w p' w' \<longleftrightarrow> guard_regions p' = guard_regions p \<and> shared_pages (vp_caps p') = shared_pages (vp_caps p) \<and>
     (\<exists>sp sp'. vp_space p = Some sp \<and> vp_space p' = Some sp' \<and>
       space_view sp' (vw_machine w') = space_view sp (vw_machine w))"

lemma same_view_guards: "same_view p w p' w' \<Longrightarrow> guards_inv p w \<Longrightarrow> guards_inv p' w'"
  by (auto simp: same_view_def guards_inv_def)

lemma shared_flags_ok: "flags_ok (PF_NO_EXECUTE OR (if writable then PF_WRITABLE else 0))"
  by (auto intro!: flags_ok_or)

definition shared_range :: "usize \<Rightarrow> usize \<Rightarrow> bool" where
  "shared_range start n \<longleftrightarrow> USER_MMAP_BASE \<le> start \<and> start mod USER_PAGE_SIZE = 0 \<and>
     (case checked_add start (wrap_mul n USER_PAGE_SIZE) of None \<Rightarrow> False | Some fin \<Rightarrow> fin \<le> USER_MMAP_END)"

lemma map_shared_vm_run:
  assumes "\<not> cp_is_kernel (vp_caps p)" "bt_get (shared_objects (vw_globals w)) sid = Some obj" "vp_space p = Some sp"
    and n: "n = length (so_frames obj)" and start: "start = (if requested = 0 then next_mmap_addr p else requested)"
    and ps: "ps = map (\<lambda>i. start + i * USER_PAGE_SIZE) [0..<n]"
    and m: "map_frames (zip ps (so_frames obj)) (PF_NO_EXECUTE OR (if writable then PF_WRITABLE else 0)) [] (sp, vw_machine w) = ((sp1, st1), d)"
  shows "map_shared_vm sid requested writable p w =
    (if \<not> shared_range start n then (p, on_globals (shared_vm_release sid n) (retained sid obj w), Inl InvalidMemoryRange)
     else if \<not> d then (p\<lparr>vp_space := Some sp1\<rparr>, on_globals (shared_vm_release sid n) ((retained sid obj w)\<lparr>vw_machine := st1\<rparr>), Inl AddressInUse)
     else (p\<lparr>vp_space := Some sp1,
             vp_caps := (vp_caps p)\<lparr>shared_pages := fold (\<lambda>pg m. bt_put pg sid m) ps (shared_pages (vp_caps p))\<rparr>,
             next_mmap_addr := (if requested = 0 then the (checked_add start (wrap_mul n USER_PAGE_SIZE)) else next_mmap_addr p)\<rparr>,
           (retained sid obj w)\<lparr>vw_machine := st1\<rparr>, Inr start))"
proof -
  have m': "map_frames (zip (map (\<lambda>i. start + i * USER_PAGE_SIZE) [0..<length (so_frames obj)]) (so_frames obj))
      (PF_NO_EXECUTE OR (if writable then PF_WRITABLE else 0)) [] (sp, vw_machine (retained sid obj w)) = ((sp1, st1), d)"
    using m retained_frames(3) [OF assms(2)] unfolding ps n by simp
  show ?thesis
    unfolding map_shared_vm_def shared_range_def Let_def assms(2,3) option.case start [symmetric] retained_def [symmetric] m' ps n prod.case
    using assms(1) by (cases d) simp_all
qed

lemma shared_range_pages:
  assumes r: "shared_range start n" and fit: "wrap_mul n USER_PAGE_SIZE = n * USER_PAGE_SIZE"
  shows "\<forall>v \<in> set (map (\<lambda>i. start + i * USER_PAGE_SIZE) [0..<n]). \<not> bad_user_page v"
    "the (checked_add start (wrap_mul n USER_PAGE_SIZE)) mod USER_PAGE_SIZE = 0" "distinct (map (\<lambda>i. start + i * USER_PAGE_SIZE) [0..<n])"
proof -
  have fin: "checked_add start (wrap_mul n USER_PAGE_SIZE) = Some (start + n * USER_PAGE_SIZE)" "start + n * USER_PAGE_SIZE \<le> USER_MMAP_END"
    "USER_MMAP_BASE \<le> start" "start mod USER_PAGE_SIZE = 0"
    using r fit by (auto simp: shared_range_def checked_add_def split: if_splits)
  have "\<not> bad_user_page (start + i * USER_PAGE_SIZE)" if "i < n" for i
    by (rule pages_not_bad [OF fin(3,2)]) (use that fin(4) in \<open>auto simp: pages_def USER_PAGE_SIZE_def\<close>)
  then show "\<forall>v \<in> set (map (\<lambda>i. start + i * USER_PAGE_SIZE) [0..<n]). \<not> bad_user_page v" by auto
  show "the (checked_add start (wrap_mul n USER_PAGE_SIZE)) mod USER_PAGE_SIZE = 0" using fin by simp
  show "distinct (map (\<lambda>i. start + i * USER_PAGE_SIZE) [0..<n])" by (auto simp: distinct_map inj_on_def)
qed

lemma map_shared_vm_spec:
  assumes inv: "vm_inv R p w" and bound: "refs_bound w" and run: "map_shared_vm sid requested writable p w = (p', w', res)"
  shows "vm_inv R p' w' \<and> (case res of Inl e \<Rightarrow> same_view p w p' w' | Inr a \<Rightarrow> shared_effect sid a writable p w p' w' \<and>
      guard_regions p' = guard_regions p \<and> (\<forall>x sp. vp_space p = Some sp \<longrightarrow> space_view sp (vw_machine w) x \<noteq> None \<longrightarrow>
        bt_get (shared_pages (vp_caps p')) x = bt_get (shared_pages (vp_caps p)) x))"
  using inv
proof (rule vm_invE)
  fix sp assume sp: "vp_space p = Some sp" and at: "vm_at R sp p w" and al: "next_mmap_addr p mod USER_PAGE_SIZE = 0"
  note I = vm_atD [OF at]
  have same: ?thesis if "p' = p" "vm_at R sp p w'" "vw_machine w' = vw_machine w" "res = Inl e" for e
    using that sp al by (simp add: vm_inv_def same_view_def)
  show ?thesis
  proof (cases "cp_is_kernel (vp_caps p) \<or> bt_get (shared_objects (vw_globals w)) sid = None")
    case True
    then have "p' = p \<and> w' = w \<and> (\<exists>e. res = Inl e)" using run unfolding map_shared_vm_def by (cases "cp_is_kernel (vp_caps p)") auto
    then show ?thesis using same at by blast
  next
    case False
    then obtain obj where k: "\<not> cp_is_kernel (vp_caps p)" and get: "bt_get (shared_objects (vw_globals w)) sid = Some obj" by blast
    define n where "n = length (so_frames obj)"
    define start where "start = (if requested = 0 then next_mmap_addr p else requested)"
    define ps where "ps = map (\<lambda>i. start + i * USER_PAGE_SIZE) [0..<n]"
    obtain sp1 st1 d where m: "map_frames (zip ps (so_frames obj)) (PF_NO_EXECUTE OR (if writable then PF_WRITABLE else 0)) [] (sp, vw_machine w)
      = ((sp1, st1), d)" by (metis prod.collapse)
    note r = map_shared_vm_run [OF k get sp n_def start_def ps_def m, unfolded run]
    have mem_same: "(retained sid obj w)\<lparr>vw_machine := vw_machine w\<rparr> = retained sid obj w" by (simp add: retained_def)
    show ?thesis
    proof (cases "shared_range start n")
      case False
      then have e: "p' = p" "w' = on_globals (shared_vm_release sid n) (retained sid obj w)" "res = Inl InvalidMemoryRange" using r by auto
      have "vm_at R sp p w' \<and> vw_machine w' = vw_machine w"
        using retained_undo [OF at bound get I(2) refl refl refl] unfolding mem_same e(2) n_def .
      then show ?thesis using same e by blast
    next
      case v: True
      note fit = frames_fit [OF I(1) get space_okD(3) [OF I(2)], folded n_def]
      note pg = shared_range_pages [OF v fit, folded ps_def]
      have fr: "set (so_frames obj) \<subseteq> shared_frames (vw_globals w)"
        using registry_frames(2) [OF I(1), of sid] get by (simp add: frames_of_def)
      have len: "length ps = length (so_frames obj)" by (simp add: ps_def n_def)
      have fst_set: "fst ` set (zip ps (so_frames obj)) = set ps" "map fst (zip ps (so_frames obj)) = ps" using len by (metis map_fst_zip set_map)+
      have "\<forall>(pg, f) \<in> set (zip ps (so_frames obj)). \<not> bad_user_page pg \<and> f \<in> shared_frames (vw_globals w)"
        using pg(1) fr by (auto dest: set_zip_leftD set_zip_rightD)
      note ms = map_frames_spec [OF I(2) shared_flags_ok this _ _ _ m, simplified fst_set, simplified, OF pg(3)]
      show ?thesis
      proof (cases d)
        case False
        then have e: "p' = p\<lparr>vp_space := Some sp1\<rparr>" "res = Inl AddressInUse"
          "w' = on_globals (shared_vm_release sid n) ((retained sid obj w)\<lparr>vw_machine := st1\<rparr>)" using r v by auto
        have ok1: "space_ok (shared_frames (vw_globals w)) sp1 st1" "pool_set st1 = pool_set (vw_machine w)"
          "space_view sp1 st1 = space_view sp (vw_machine w)" using ms False by auto
        have "vp_caps p' = vp_caps p" using e(1) by simp
        from retained_undo [OF at bound get ok1 this] have "vm_at R sp1 p' w' \<and> vw_machine w' = st1" unfolding e(3) n_def .
        then show ?thesis using e ok1(3) al sp by (simp add: vm_inv_def same_view_def)
      next
        case True
        then have e: "p' = p\<lparr>vp_space := Some sp1,
             vp_caps := (vp_caps p)\<lparr>shared_pages := fold (\<lambda>pg m. bt_put pg sid m) ps (shared_pages (vp_caps p))\<rparr>,
             next_mmap_addr := (if requested = 0 then the (checked_add start (wrap_mul n USER_PAGE_SIZE)) else next_mmap_addr p)\<rparr>"
          "w' = (retained sid obj w)\<lparr>vw_machine := st1\<rparr>" "res = Inr start" using r v by auto
        have ok1: "space_ok (shared_frames (vw_globals w)) sp1 st1" "pool_set st1 = pool_set (vw_machine w)"
          "\<forall>v \<in> set ps. space_view sp (vw_machine w) v = None"
          "space_view sp1 st1 = (\<lambda>v. case map_of (zip ps (so_frames obj)) v of
             Some f \<Rightarrow> Some (f, (PF_NO_EXECUTE OR (if writable then PF_WRITABLE else 0)) OR PF_PRESENT OR PF_USER)
           | None \<Rightarrow> space_view sp (vw_machine w) v)"
          using ms True by (auto simp: or.assoc)
        have "vm_at R sp1 p' w'"
          unfolding e(2) by (rule retained_mapped [OF at bound get ok1(1,2) pg(3) len ok1(3,4)]) (simp add: e(1))
        then have "vm_inv R p' w'" using e(1) al pg(2) by (simp add: vm_inv_def)
        moreover have "shared_effect sid start writable p w p' w'"
          using sp e ok1(3,4) get unfolding shared_effect_def n_def [symmetric] ps_def [symmetric] by (auto simp: n_def ps_def)
        moreover have "bt_get (shared_pages (vp_caps p')) x = bt_get (shared_pages (vp_caps p)) x"
          if "space_view sp (vw_machine w) x \<noteq> None" for x using that ok1(3) e(1) by (auto simp: fold_put_get)
        ultimately show ?thesis using e sp by simp
      qed
    qed
  qed
qed

end
