(* ===== verification/Pipe.thy ===== *)
theory Pipe
  imports Prelude "HOL-Library.Sublist"
begin

text \<open>
  Anonymous pipes (\<^verbatim>\<open>kernel/src/pipe.rs\<close>): the registry of byte buffers, reference counting
  of the two ends, blocking, end of file and broken pipe. The registry lock makes each
  operation atomic, so an execution is a sequence of operations.
\<close>

section \<open>Data and operations\<close>

definition PIPE_CAPACITY :: nat where
  "PIPE_CAPACITY = 64 * 1024"

record pipe =
  p_buf :: bytes
  read_refs :: u32
  write_refs :: u32

record pipe_registry =
  pipes :: "(u64, pipe) btree"
  next_pipe_id :: u64

datatype pipe_read_result = PipeData nat | PipeReadWouldBlock | PipeEof

datatype pipe_write_result = PipeWrote nat | PipeWriteWouldBlock | PipeBroken

definition pipe_registry_init :: pipe_registry where
  "pipe_registry_init = \<lparr>pipes = [], next_pipe_id = 1\<rparr>"

definition pipe_create :: "pipe_registry \<Rightarrow> pipe_registry \<times> u64" where
  "pipe_create reg =
     (let idn = next_pipe_id reg
      in (reg\<lparr>next_pipe_id := idn + 1,
              pipes := bt_put idn \<lparr>p_buf = [], read_refs = 1, write_refs = 1\<rparr> (pipes reg)\<rparr>, idn))"

definition pipe_retain :: "u64 \<Rightarrow> bool \<Rightarrow> pipe_registry \<Rightarrow> pipe_registry" where
  "pipe_retain idn write_end reg =
     (case bt_get (pipes reg) idn of
        None \<Rightarrow> reg
      | Some p \<Rightarrow>
          let p' = (if write_end then p\<lparr>write_refs := write_refs p + 1\<rparr>
                    else p\<lparr>read_refs := read_refs p + 1\<rparr>)
          in reg\<lparr>pipes := bt_put idn p' (pipes reg)\<rparr>)"

definition sat_dec :: "u32 \<Rightarrow> u32" where
  "sat_dec n = (if n = 0 then 0 else n - 1)"

definition pipe_release :: "u64 \<Rightarrow> bool \<Rightarrow> pipe_registry \<Rightarrow> pipe_registry \<times> bool" where
  "pipe_release idn write_end reg =
     (case bt_get (pipes reg) idn of
        None \<Rightarrow> (reg, False)
      | Some p \<Rightarrow>
          let p' = (if write_end then p\<lparr>write_refs := sat_dec (write_refs p)\<rparr>
                    else p\<lparr>read_refs := sat_dec (read_refs p)\<rparr>);
              wake = (if write_end then write_refs p' = 0 else read_refs p' = 0);
              drop_pipe = (read_refs p' = 0 \<and> write_refs p' = 0)
          in (reg\<lparr>pipes := (if drop_pipe then bt_del idn (pipes reg) else bt_put idn p' (pipes reg))\<rparr>,
              wake))"

definition pipe_is_readable :: "u64 \<Rightarrow> pipe_registry \<Rightarrow> bool" where
  "pipe_is_readable idn reg =
     (case bt_get (pipes reg) idn of Some p \<Rightarrow> p_buf p \<noteq> [] \<or> write_refs p = 0 | None \<Rightarrow> True)"

definition pipe_is_writable :: "u64 \<Rightarrow> pipe_registry \<Rightarrow> bool" where
  "pipe_is_writable idn reg =
     (case bt_get (pipes reg) idn of
        Some p \<Rightarrow> read_refs p = 0 \<or> length (p_buf p) < PIPE_CAPACITY | None \<Rightarrow> True)"

definition pipe_write_closed :: "u64 \<Rightarrow> pipe_registry \<Rightarrow> bool" where
  "pipe_write_closed idn reg =
     (case bt_get (pipes reg) idn of Some p \<Rightarrow> write_refs p = 0 | None \<Rightarrow> True)"

definition pipe_read :: "u64 \<Rightarrow> bytes \<Rightarrow> pipe_registry \<Rightarrow> pipe_registry \<times> bytes \<times> pipe_read_result" where
  "pipe_read idn out reg =
     (case bt_get (pipes reg) idn of
        None \<Rightarrow> (reg, out, PipeEof)
      | Some p \<Rightarrow>
          if p_buf p = [] then
            (reg, out, if write_refs p = 0 then PipeEof else PipeReadWouldBlock)
          else
            let n = min (length out) (length (p_buf p))
            in (reg\<lparr>pipes := bt_put idn (p\<lparr>p_buf := drop n (p_buf p)\<rparr>) (pipes reg)\<rparr>,
                copy_at 0 (take n (p_buf p)) out, PipeData n))"

definition pipe_write :: "u64 \<Rightarrow> bytes \<Rightarrow> pipe_registry \<Rightarrow> pipe_registry \<times> pipe_write_result" where
  "pipe_write idn data reg =
     (case bt_get (pipes reg) idn of
        None \<Rightarrow> (reg, PipeBroken)
      | Some p \<Rightarrow>
          if read_refs p = 0 then (reg, PipeBroken)
          else
            let space = PIPE_CAPACITY - length (p_buf p)
            in if space = 0 then (reg, PipeWriteWouldBlock)
               else
                 let n = min space (length data)
                 in (reg\<lparr>pipes := bt_put idn (p\<lparr>p_buf := p_buf p @ take n data\<rparr>) (pipes reg)\<rparr>,
                     PipeWrote n))"

section \<open>Executions\<close>

text \<open>
  An execution interleaves the operations of all processes on all pipes. The trace records,
  per pipe, the bytes its writers were told were accepted and the bytes its readers received.
\<close>

datatype pipe_op =
    PCreate
  | PRetain u64 bool
  | PRelease u64 bool
  | PRead u64 nat
  | PWrite u64 bytes

record pipe_trace =
  t_reg :: pipe_registry
  t_written :: "u64 \<Rightarrow> bytes"
  t_delivered :: "u64 \<Rightarrow> bytes"

fun pipe_step :: "pipe_op \<Rightarrow> pipe_trace \<Rightarrow> pipe_trace" where
  "pipe_step PCreate t = t\<lparr>t_reg := fst (pipe_create (t_reg t))\<rparr>"
| "pipe_step (PRetain idn w) t = t\<lparr>t_reg := pipe_retain idn w (t_reg t)\<rparr>"
| "pipe_step (PRelease idn w) t = t\<lparr>t_reg := fst (pipe_release idn w (t_reg t))\<rparr>"
| "pipe_step (PRead idn n) t =
     (case pipe_read idn (replicate n 0) (t_reg t) of
        (reg, out, PipeData k) \<Rightarrow>
          t\<lparr>t_reg := reg, t_delivered := (t_delivered t)(idn := t_delivered t idn @ take k out)\<rparr>
      | (reg, out, _) \<Rightarrow> t\<lparr>t_reg := reg\<rparr>)"
| "pipe_step (PWrite idn data) t =
     (case pipe_write idn data (t_reg t) of
        (reg, PipeWrote k) \<Rightarrow>
          t\<lparr>t_reg := reg, t_written := (t_written t)(idn := t_written t idn @ take k data)\<rparr>
      | (reg, _) \<Rightarrow> t\<lparr>t_reg := reg\<rparr>)"

definition pipe_run :: "pipe_op list \<Rightarrow> pipe_trace" where
  "pipe_run ops =
     fold pipe_step ops \<lparr>t_reg = pipe_registry_init, t_written = (\<lambda>_. []), t_delivered = (\<lambda>_. [])\<rparr>"

section \<open>The invariant\<close>

definition pipe_ok :: "nat \<Rightarrow> pipe \<Rightarrow> bool" where
  "pipe_ok n p \<longleftrightarrow> length (p_buf p) \<le> PIPE_CAPACITY \<and>
     (read_refs p \<noteq> 0 \<or> write_refs p \<noteq> 0) \<and>
     unat (read_refs p) \<le> n \<and> unat (write_refs p) \<le> n"

definition pipe_inv :: "nat \<Rightarrow> pipe_trace \<Rightarrow> bool" where
  "pipe_inv n t \<longleftrightarrow>
     unat (next_pipe_id (t_reg t)) \<le> n \<and>
     (\<forall>idn. next_pipe_id (t_reg t) \<le> idn \<longrightarrow>
        bt_get (pipes (t_reg t)) idn = None \<and> t_written t idn = [] \<and> t_delivered t idn = []) \<and>
     (\<forall>idn. prefix (t_delivered t idn) (t_written t idn)) \<and>
     (\<forall>idn p. bt_get (pipes (t_reg t)) idn = Some p \<longrightarrow>
        pipe_ok n p \<and> t_written t idn = t_delivered t idn @ p_buf p)"

lemma unat_plus_one_32: "Suc (unat (x :: u32)) < 2 ^ 32 \<Longrightarrow> unat (x + 1) = Suc (unat x)"
  by (simp add: unat_word_ariths)

lemma unat_plus_one_64: "Suc (unat (x :: u64)) < 2 ^ 64 \<Longrightarrow> unat (x + 1) = Suc (unat x)"
  by (simp add: unat_word_ariths)

lemma unat_sat_dec: "unat (sat_dec x) = unat x - 1"
  by (simp add: sat_dec_def unat_minus_one)

lemma pipe_ok_Suc [simp]: "pipe_ok n p \<Longrightarrow> pipe_ok (Suc n) p"
  by (auto simp: pipe_ok_def)

lemma pipe_invI:
  assumes "unat (next_pipe_id (t_reg t)) \<le> n"
    and "\<And>idn. next_pipe_id (t_reg t) \<le> idn \<Longrightarrow>
        bt_get (pipes (t_reg t)) idn = None \<and> t_written t idn = [] \<and> t_delivered t idn = []"
    and "\<And>idn. prefix (t_delivered t idn) (t_written t idn)"
    and "\<And>idn p. bt_get (pipes (t_reg t)) idn = Some p \<Longrightarrow>
        pipe_ok n p \<and> t_written t idn = t_delivered t idn @ p_buf p"
  shows "pipe_inv n t"
  using assms by (auto simp: pipe_inv_def)

lemma pipe_inv_id_less:
  "pipe_inv n t \<Longrightarrow> bt_get (pipes (t_reg t)) idn = Some p \<Longrightarrow> idn < next_pipe_id (t_reg t)"
  by (force simp: pipe_inv_def not_le [symmetric])

text \<open>Replacing one live pipe by one that keeps the stream equation keeps the invariant.\<close>

lemma pipe_inv_update:
  assumes inv: "pipe_inv n t" and live: "bt_get (pipes (t_reg t)) idn = Some p"
    and ok: "pipe_ok (Suc n) p'"
    and reg: "t_reg t' = (t_reg t)\<lparr>pipes := bt_put idn p' (pipes (t_reg t))\<rparr>"
    and stream: "t_written t' idn = t_delivered t' idn @ p_buf p'"
    and others: "\<And>i. i \<noteq> idn \<Longrightarrow> t_written t' i = t_written t i \<and> t_delivered t' i = t_delivered t i"
  shows "pipe_inv (Suc n) t'"
proof (rule pipe_invI)
  have lt: "idn < next_pipe_id (t_reg t)" using inv live by (rule pipe_inv_id_less)
  show "unat (next_pipe_id (t_reg t')) \<le> Suc n" using inv reg by (simp add: pipe_inv_def)
  show "bt_get (pipes (t_reg t')) i = None \<and> t_written t' i = [] \<and> t_delivered t' i = []"
    if "next_pipe_id (t_reg t') \<le> i" for i
    using that inv lt reg others [of i] by (cases "i = idn") (auto simp: pipe_inv_def)
  show "prefix (t_delivered t' i) (t_written t' i)" for i
    using inv stream others [of i] by (cases "i = idn") (auto simp: pipe_inv_def)
  show "pipe_ok (Suc n) q \<and> t_written t' i = t_delivered t' i @ p_buf q"
    if "bt_get (pipes (t_reg t')) i = Some q" for i q
    using that inv ok stream reg others [of i]
    by (cases "i = idn") (auto simp: pipe_inv_def)
qed

lemma pipe_inv_stream:
  "pipe_inv n t \<Longrightarrow> bt_get (pipes (t_reg t)) idn = Some p \<Longrightarrow>
     pipe_ok n p \<and> t_written t idn = t_delivered t idn @ p_buf p"
  by (simp add: pipe_inv_def)

lemma pipe_inv_mono: "pipe_inv n t \<Longrightarrow> pipe_inv (Suc n) t"
  by (auto simp: pipe_inv_def)


section \<open>Every operation keeps the invariant\<close>

lemma pipe_create_inv:
  assumes inv: "pipe_inv n t" and n: "Suc n < 2 ^ 32"
  shows "pipe_inv (Suc n) (t\<lparr>t_reg := fst (pipe_create (t_reg t))\<rparr>)"
proof (rule pipe_invI)
  let ?t = "t\<lparr>t_reg := fst (pipe_create (t_reg t))\<rparr>"
  let ?idn = "next_pipe_id (t_reg t)"
  have small: "unat ?idn \<le> n" using inv by (simp add: pipe_inv_def)
  with n have next_id: "unat (?idn + 1) = Suc (unat ?idn)" by (intro unat_plus_one_64) simp
  have fresh: "bt_get (pipes (t_reg t)) i = None \<and> t_written t i = [] \<and> t_delivered t i = []"
    if "?idn \<le> i" for i using that inv by (simp add: pipe_inv_def)
  show "unat (next_pipe_id (t_reg ?t)) \<le> Suc n"
    using small next_id by (simp add: pipe_create_def Let_def)
  have lt: "?idn < ?idn + 1" by (simp add: word_less_nat_alt next_id)
  show "bt_get (pipes (t_reg ?t)) i = None \<and> t_written ?t i = [] \<and> t_delivered ?t i = []"
    if "next_pipe_id (t_reg ?t) \<le> i" for i
    using that fresh [of i] lt by (auto simp: pipe_create_def Let_def)
  show "prefix (t_delivered ?t i) (t_written ?t i)" for i
    using inv by (simp add: pipe_inv_def)
  show "pipe_ok (Suc n) q \<and> t_written ?t i = t_delivered ?t i @ p_buf q"
    if "bt_get (pipes (t_reg ?t)) i = Some q" for i q
      proof (cases "i = ?idn")
    case True
    with that fresh [of ?idn] show ?thesis
      by (auto simp: pipe_create_def Let_def pipe_ok_def)
  next
    case False
    with that inv show ?thesis by (auto simp: pipe_create_def Let_def pipe_inv_def)
  qed
qed

lemma pipe_retain_inv:
  assumes inv: "pipe_inv n t" and n: "Suc n < 2 ^ 32"
  shows "pipe_inv (Suc n) (t\<lparr>t_reg := pipe_retain idn w (t_reg t)\<rparr>)"
proof (cases "bt_get (pipes (t_reg t)) idn")
  case None
  then show ?thesis using pipe_inv_mono [OF inv] by (simp add: pipe_retain_def)
next
  case (Some p)
  let ?p = "if w then p\<lparr>write_refs := write_refs p + 1\<rparr> else p\<lparr>read_refs := read_refs p + 1\<rparr>"
  note live = pipe_inv_stream [OF inv Some]
  have "unat (write_refs p + 1) = Suc (unat (write_refs p))"
    "unat (read_refs p + 1) = Suc (unat (read_refs p))"
    using n live by (auto simp: pipe_ok_def intro!: unat_plus_one_32)
  with live have "pipe_ok (Suc n) ?p"
    by (auto simp: pipe_ok_def unat_eq_zero [symmetric] simp del: unat_eq_zero unat_0_iff)
  from inv Some this show ?thesis
    by (rule pipe_inv_update) (use Some live in \<open>simp_all add: pipe_retain_def Let_def\<close>)
qed

lemma pipe_inv_remove:
  assumes "pipe_inv n t"
  shows "pipe_inv (Suc n) (t\<lparr>t_reg := (t_reg t)\<lparr>pipes := bt_del idn (pipes (t_reg t))\<rparr>\<rparr>)"
  using assms by (auto simp: pipe_inv_def split: if_splits)

lemma pipe_release_inv:
  assumes inv: "pipe_inv n t"
  shows "pipe_inv (Suc n) (t\<lparr>t_reg := fst (pipe_release idn w (t_reg t))\<rparr>)"
proof (cases "bt_get (pipes (t_reg t)) idn")
  case None
  then show ?thesis using pipe_inv_mono [OF inv] by (simp add: pipe_release_def)
next
  case (Some p)
  let ?p = "if w then p\<lparr>write_refs := sat_dec (write_refs p)\<rparr>
            else p\<lparr>read_refs := sat_dec (read_refs p)\<rparr>"
  note live = pipe_inv_stream [OF inv Some]
  show ?thesis
  proof (cases "read_refs ?p = 0 \<and> write_refs ?p = 0")
    case True
    then show ?thesis using pipe_inv_remove [OF inv, of idn] Some
      by (simp add: pipe_release_def Let_def)
  next
    case False
    with live have "pipe_ok (Suc n) ?p" by (auto simp: pipe_ok_def unat_sat_dec)
    from inv Some this show ?thesis
      by (rule pipe_inv_update)
        (use Some live False in \<open>auto simp: pipe_release_def Let_def split: if_splits\<close>)
  qed
qed

lemma pipe_read_inv:
  assumes inv: "pipe_inv n t"
  shows "pipe_inv (Suc n) (pipe_step (PRead idn k) t)"
proof (cases "bt_get (pipes (t_reg t)) idn")
  case None
  then show ?thesis using pipe_inv_mono [OF inv] by (simp add: pipe_read_def)
next
  case (Some p)
  let ?m = "min k (length (p_buf p))"
  note live = pipe_inv_stream [OF inv Some]
  show ?thesis
  proof (cases "p_buf p = []")
    case True
    then show ?thesis using pipe_inv_mono [OF inv] Some by (auto simp: pipe_read_def)
  next
    case False
    have "pipe_ok (Suc n) (p\<lparr>p_buf := drop ?m (p_buf p)\<rparr>)" using live by (auto simp: pipe_ok_def)
    with inv Some show ?thesis
      by (rule pipe_inv_update)
        (use Some live False in \<open>simp_all add: pipe_read_def Let_def copy_at_def\<close>)
  qed
qed

lemma pipe_write_inv:
  assumes inv: "pipe_inv n t"
  shows "pipe_inv (Suc n) (pipe_step (PWrite idn data) t)"
proof (cases "bt_get (pipes (t_reg t)) idn")
  case None
  then show ?thesis using pipe_inv_mono [OF inv] by (simp add: pipe_write_def)
next
  case (Some p)
  let ?m = "min (PIPE_CAPACITY - length (p_buf p)) (length data)"
  note live = pipe_inv_stream [OF inv Some]
  show ?thesis
  proof (cases "read_refs p = 0 \<or> PIPE_CAPACITY \<le> length (p_buf p)")
    case True
    then show ?thesis using pipe_inv_mono [OF inv] Some by (auto simp: pipe_write_def)
  next
    case False
    have "pipe_ok (Suc n) (p\<lparr>p_buf := p_buf p @ take ?m data\<rparr>)"
      using live by (auto simp: pipe_ok_def)
    with inv Some show ?thesis
      by (rule pipe_inv_update)
        (use Some live False in \<open>simp_all add: pipe_write_def Let_def\<close>)
  qed
qed

lemma pipe_step_inv:
  assumes "pipe_inv n t" and "Suc n < 2 ^ 32"
  shows "pipe_inv (Suc n) (pipe_step op t)"
  using assms
  by (cases op)
    (simp_all only: pipe_step.simps(1-3) pipe_create_inv pipe_retain_inv pipe_release_inv
       pipe_read_inv pipe_write_inv)

lemma pipe_fold_inv:
  "pipe_inv n t \<Longrightarrow> n + length ops < 2 ^ 32 \<Longrightarrow> pipe_inv (n + length ops) (fold pipe_step ops t)"
proof (induction ops arbitrary: n t)
  case (Cons op ops)
  then show ?case using Cons.IH [OF pipe_step_inv [OF Cons.prems(1), of op]] by simp
qed simp

lemma pipe_run_inv:
  assumes "length ops < 2 ^ 32 - 1"
  shows "pipe_inv (Suc (length ops)) (pipe_run ops)"
proof -
  let ?t = "\<lparr>t_reg = pipe_registry_init, t_written = (\<lambda>_. []), t_delivered = (\<lambda>_. [])\<rparr>"
  have "pipe_inv 1 ?t" by (simp add: pipe_inv_def pipe_registry_init_def)
  from pipe_fold_inv [OF this, of ops] assms show ?thesis by (simp add: pipe_run_def)
qed

lemmas pipe_op_defs = pipe_registry_init_def pipe_create_def pipe_retain_def pipe_release_def
  pipe_read_def pipe_write_def pipe_is_readable_def pipe_is_writable_def pipe_write_closed_def
  Let_def

section \<open>Properties\<close>

text \<open>
  C6. Pipes are reliable bounded byte streams. In every interleaving of fewer than $2^{32} - 1$
  pipe operations (so that neither the reference counts nor the ids wrap), the bytes delivered
  from any pipe are a prefix of the bytes its writers had accepted, and for a pipe that still
  exists the accepted bytes are exactly the delivered bytes followed by the buffer, which never
  exceeds \<^const>\<open>PIPE_CAPACITY\<close>.
\<close>
theorem pipe_stream_fifo:
  assumes "length ops < 2 ^ 32 - 1"
  shows "prefix (t_delivered (pipe_run ops) idn) (t_written (pipe_run ops) idn) \<and>
    (\<forall>p. bt_get (pipes (t_reg (pipe_run ops))) idn = Some p \<longrightarrow>
       t_written (pipe_run ops) idn = t_delivered (pipe_run ops) idn @ p_buf p \<and>
       length (p_buf p) \<le> PIPE_CAPACITY)"
  using pipe_run_inv [OF assms] by (auto simp: pipe_inv_def pipe_ok_def)

theorem pipe_stream_fifo_witness:
  "prefix (t_delivered (pipe_run [PCreate, PWrite 1 [7, 8, 9], PRead 1 2]) 1)
          (t_written (pipe_run [PCreate, PWrite 1 [7, 8, 9], PRead 1 2]) 1) \<and>
   t_delivered (pipe_run [PCreate, PWrite 1 [7, 8, 9], PRead 1 2]) 1 = [7, 8] \<and>
   t_written (pipe_run [PCreate, PWrite 1 [7, 8, 9], PRead 1 2]) 1 = [7, 8, 9]"
proof (intro conjI)
  show "prefix (t_delivered (pipe_run [PCreate, PWrite 1 [7, 8, 9], PRead 1 2]) 1)
          (t_written (pipe_run [PCreate, PWrite 1 [7, 8, 9], PRead 1 2]) 1)"
    by (rule pipe_stream_fifo [THEN conjunct1]) simp
qed (simp_all add: pipe_run_def pipe_op_defs PIPE_CAPACITY_def copy_at_def)

text \<open>
  Readiness reported to poll is exact: a read end is reported readable iff a read of it does
  not block, and a write end is reported writable iff a write to it does not block.
\<close>
lemma pipe_readiness_exact:
  "(pipe_is_readable idn reg \<longleftrightarrow> snd (snd (pipe_read idn out reg)) \<noteq> PipeReadWouldBlock) \<and>
   (pipe_is_writable idn reg \<longleftrightarrow> snd (pipe_write idn data reg) \<noteq> PipeWriteWouldBlock)"
  by (auto simp: pipe_op_defs split: option.splits)



end
