(* ===== verification/Vfs_Path.thy ===== *)
theory Vfs_Path
  imports Prelude
begin

text \<open>
  Path normalisation of the virtual file system (\<^verbatim>\<open>kernel/src/fs/vfs.rs\<close>): the code writes the
  normalised path into a fixed buffer of 256 bytes with a length, pushing and popping components in
  place. The reference is a stack of components; the two are proved equal, errors included.
  Characters stand for the bytes of a string.
\<close>

datatype vfs_error =
    NotFound | PermissionDenied | InvalidDescriptor | AlreadyExists | NotADirectory | IsADirectory
  | InvalidPath | Unsupported | IoError | DirectoryNotEmpty | FileTooBig

abbreviation slash :: char where
  "slash \<equiv> CHR ''/''"

section \<open>Strings\<close>

text \<open>\<open>str::split('/')\<close> and the trimming functions of the standard library.\<close>

fun split_slash :: "string \<Rightarrow> string list" where
  "split_slash [] = [[]]"
| "split_slash (c # cs) =
     (if c = slash then [] # split_slash cs
      else case split_slash cs of [] \<Rightarrow> [[c]] | p # ps \<Rightarrow> (c # p) # ps)"

definition trim_start_slash :: "string \<Rightarrow> string" where
  "trim_start_slash s = dropWhile (\<lambda>c. c = slash) s"

definition trim_slash :: "string \<Rightarrow> string" where
  "trim_slash s = rev (trim_start_slash (rev (trim_start_slash s)))"

definition starts_with :: "string \<Rightarrow> string \<Rightarrow> bool" where
  "starts_with s p \<longleftrightarrow> take (length p) s = p"

section \<open>The buffer\<close>

type_synonym path_buffer = "string \<times> nat"

definition PATH_MAX :: nat where
  "PATH_MAX = 256"

definition push_path_component :: "string \<Rightarrow> path_buffer \<Rightarrow> vfs_error + path_buffer" where
  "push_path_component part b =
     (case b of (out, len) \<Rightarrow>
        let needs_slash = (1 < len); required = length part + (if needs_slash then 1 else 0)
        in if length out < len + required then Inl InvalidPath
           else
             let (out1, len1) = (if needs_slash then (out[len := slash], len + 1) else (out, len))
             in Inr (copy_at len1 part out1, len1 + length part))"

fun seek_slash :: "string \<Rightarrow> nat \<Rightarrow> nat" where
  "seek_slash out 0 = 0"
| "seek_slash out (Suc idx) = (if out ! Suc idx \<noteq> slash then seek_slash out idx else Suc idx)"

definition pop_path_component :: "path_buffer \<Rightarrow> path_buffer" where
  "pop_path_component b =
     (case b of (out, len) \<Rightarrow>
        if len \<le> 1 then (out, 1)
        else let idx = seek_slash out (len - 1) in (out, if idx = 0 then 1 else idx))"

fun append_parts :: "string list \<Rightarrow> path_buffer \<Rightarrow> vfs_error + path_buffer" where
  "append_parts [] b = Inr b"
| "append_parts (part # parts) b =
     (if part = '''' \<or> part = ''.'' then append_parts parts b
      else if part = ''..'' then append_parts parts (pop_path_component b)
      else case push_path_component part b of Inl e \<Rightarrow> Inl e | Inr b' \<Rightarrow> append_parts parts b')"

definition append_path_components :: "string \<Rightarrow> path_buffer \<Rightarrow> vfs_error + path_buffer" where
  "append_path_components path b = append_parts (split_slash path) b"

definition normalize_path_into :: "string \<Rightarrow> string \<Rightarrow> string \<Rightarrow> vfs_error + string" where
  "normalize_path_into path cwd out =
     (let b = (out[0 := slash], 1);
          r = (if path = '''' then append_path_components cwd b
               else if \<not> starts_with path ''/'' then
                 (case append_path_components cwd b of
                    Inl e \<Rightarrow> Inl e | Inr b' \<Rightarrow> append_path_components path b')
               else append_path_components path b)
      in case r of Inl e \<Rightarrow> Inl e | Inr (out', len) \<Rightarrow> Inr (take len out'))"

definition normalize_path :: "string \<Rightarrow> string \<Rightarrow> vfs_error + string" where
  "normalize_path path cwd = normalize_path_into path cwd (replicate PATH_MAX (CHR 0x00))"

section \<open>The reference\<close>

definition render :: "string list \<Rightarrow> string" where
  "render cs = (if cs = [] then ''/'' else concat (map (\<lambda>c. slash # c) cs))"

fun walk :: "string list \<Rightarrow> string list \<Rightarrow> vfs_error + string list" where
  "walk [] cs = Inr cs"
| "walk (part # parts) cs =
     (if part = '''' \<or> part = ''.'' then walk parts cs
      else if part = ''..'' then walk parts (butlast cs)
      else if PATH_MAX < length (render (cs @ [part])) then Inl InvalidPath
      else walk parts (cs @ [part]))"

definition resolve :: "string \<Rightarrow> string \<Rightarrow> vfs_error + string list" where
  "resolve path cwd =
     walk ((if starts_with path ''/'' then [] else split_slash cwd) @ split_slash path) []"

definition component :: "string \<Rightarrow> bool" where
  "component c \<longleftrightarrow> c \<noteq> '''' \<and> c \<noteq> ''.'' \<and> c \<noteq> ''..'' \<and> slash \<notin> set c"

section \<open>Strings: facts\<close>

lemma split_slash_not_Nil [simp]: "split_slash s \<noteq> []"
  by (cases s) (auto split: list.splits)

lemma split_slash_no_slash: "p \<in> set (split_slash s) \<Longrightarrow> slash \<notin> set p"
proof (induction s arbitrary: p)
  case (Cons c s)
  then show ?case by (cases "split_slash s") (auto split: if_splits)
qed simp

lemma split_slash_plain: "slash \<notin> set s \<Longrightarrow> split_slash s = [s]"
  by (induction s) auto

lemma split_slash_append: "slash \<notin> set c \<Longrightarrow> split_slash (c @ slash # s) = c # split_slash s"
  by (induction c) auto

lemma split_slash_render:
  "\<forall>c \<in> set cs. slash \<notin> set c \<Longrightarrow> cs \<noteq> [] \<Longrightarrow> split_slash (render cs) = '''' # cs"
proof -
  assume a: "\<forall>c \<in> set cs. slash \<notin> set c" "cs \<noteq> []"
  have "split_slash (concat (map (\<lambda>c. slash # c) cs)) = '''' # cs" if "cs \<noteq> []" "\<forall>c \<in> set cs. slash \<notin> set c" for cs
    using that
  proof (induction cs)
    case (Cons c cs)
    show ?case
    proof (cases cs)
      case Nil
      then show ?thesis using Cons.prems by (simp add: split_slash_plain)
    next
      case (Cons d ds)
      then have "split_slash (concat (map (\<lambda>c. slash # c) cs)) = '''' # cs" using Cons.IH Cons.prems by simp
      then have "split_slash (d @ concat (map (\<lambda>c. slash # c) ds)) = cs" using Cons by simp
      then show ?thesis using Cons Cons.prems by (simp add: split_slash_append)
    qed
  qed simp
  then show ?thesis using a by (simp add: render_def)
qed

lemma render_Nil [simp]: "render [] = ''/''"
  by (simp add: render_def)

lemma render_snoc: "render (cs @ [c]) = (if cs = [] then slash # c else render cs @ slash # c)"
  by (simp add: render_def)

lemma render_single [simp]: "render [c] = slash # c"
  by (simp add: render_def)

lemma render_starts: "render cs = slash # tl (render cs)"
  by (cases cs) (auto simp: render_def)

lemma length_render_ge_1: "1 \<le> length (render cs)"
  using render_starts [of cs] by (metis One_nat_def Suc_le_mono length_Cons zero_le)

lemma length_render_1: "\<forall>c \<in> set cs. c \<noteq> '''' \<Longrightarrow> length (render cs) \<le> 1 \<longleftrightarrow> cs = []"
  by (cases cs) (auto simp: render_def)

section \<open>Refinement\<close>

definition holds :: "path_buffer \<Rightarrow> string list \<Rightarrow> bool" where
  "holds b cs \<longleftrightarrow> (case b of (out, len) \<Rightarrow>
     length out = PATH_MAX \<and> len = length (render cs) \<and> len \<le> PATH_MAX \<and> take len out = render cs)"

definition components :: "string list \<Rightarrow> bool" where
  "components cs \<longleftrightarrow> (\<forall>c \<in> set cs. c \<noteq> '''' \<and> slash \<notin> set c)"

lemma componentsD: "components cs \<Longrightarrow> \<forall>c \<in> set cs. c \<noteq> ''''"
  by (simp add: components_def)

lemma push_refines:
  assumes "holds b cs" "components cs" "part \<noteq> ''''"
  shows "case push_path_component part b of
      Inl e \<Rightarrow> e = InvalidPath \<and> PATH_MAX < length (render (cs @ [part]))
    | Inr b' \<Rightarrow> holds b' (cs @ [part])"
proof -
  obtain out len where b: "b = (out, len)" by (cases b)
  have h: "length out = PATH_MAX" "len = length (render cs)" "take len out = render cs" "len \<le> PATH_MAX"
    using assms(1) b by (auto simp: holds_def)
  show ?thesis
  proof (cases "cs = []")
    case True
    then show ?thesis using h assms(3) b
      by (auto simp: push_path_component_def Let_def holds_def render_snoc copy_at_def)
  next
    case False
    then have "1 < len" using h(2) length_render_1 [OF componentsD [OF assms(2)]] by simp
    moreover have "take len (out[len := slash]) = render cs" using h(3) by simp
    ultimately show ?thesis using h False b
      by (auto simp: push_path_component_def Let_def holds_def render_snoc copy_at_def take_Suc_conv_app_nth)
  qed
qed

lemma seek_slash_found:
  assumes "out ! i = slash" "\<forall>k. i < k \<and> k \<le> j \<longrightarrow> out ! k \<noteq> slash" "i \<le> j"
  shows "seek_slash out j = i"
  using assms
proof (induction j)
  case (Suc j)
  then show ?case by (cases "i = Suc j") auto
qed simp

lemma pop_refines:
  assumes "holds b cs" "components cs"
  shows "holds (pop_path_component b) (butlast cs)"
proof (cases "cs = []")
  case True
  then show ?thesis using assms(1) by (auto simp: holds_def pop_path_component_def)
next
  case False
  obtain out len where b: "b = (out, len)" by (cases b)
  have h: "length out = PATH_MAX" "len = length (render cs)" "take len out = render cs" "len \<le> PATH_MAX"
    using assms(1) b by (auto simp: holds_def)
  define ds c where dc: "ds = butlast cs" "c = last cs"
  have cs: "cs = ds @ [c]" using False dc by simp
  have c: "slash \<notin> set c" "c \<noteq> ''''" using assms(2) cs by (auto simp: components_def)
  define i where "i = (if ds = [] then 0 else length (render ds))"
  have r: "render cs = (if ds = [] then [] else render ds) @ slash # c" unfolding cs render_snoc by simp
  have li: "length (render cs) = i + Suc (length c)" using r by (simp add: i_def)
  have nth: "out ! k = render cs ! k" if "k < len" for k using h(3) that by (metis nth_take)
  have at: "render cs ! i = slash" using r by (simp add: i_def nth_append)
  have after: "render cs ! k \<noteq> slash" if "i < k" "k < len" for k
  proof -
    have "render cs ! k = c ! (k - Suc i)" using r that li h(2) by (auto simp: i_def nth_append nth_Cons')
    moreover have "k - Suc i < length c" using that li h(2) by simp
    ultimately show ?thesis using c(1) nth_mem by metis
  qed
  have "seek_slash out (len - 1) = i"
    by (rule seek_slash_found) (use at after nth li h(2) c in auto)
  moreover have "1 < len" using li h(2) c(2) by (cases c) auto
  ultimately have "pop_path_component b = (out, if i = 0 then 1 else i)" using b by (simp add: pop_path_component_def Let_def)
  moreover have "take (if i = 0 then 1 else i) out = render ds"
  proof (cases "ds = []")
    case True
    then have "i = 0" by (simp add: i_def)
    then show ?thesis using True at nth [of 0] \<open>1 < len\<close> h(1) by (cases out) (auto simp: PATH_MAX_def)
  next
    case False
    then have "take i out = take i (render cs)" using h(2,3) li by (metis le_add1 min.absorb1 take_take)
    then show ?thesis using False r length_render_ge_1 [of ds] by (cases "render ds") (auto simp: i_def)
  qed
  ultimately show ?thesis using h li length_render_ge_1 [of ds] dc(1)
    by (auto simp: holds_def i_def split: if_splits)
qed

lemma components_snoc: "components cs \<Longrightarrow> part \<noteq> '''' \<Longrightarrow> slash \<notin> set part \<Longrightarrow> components (cs @ [part])"
  by (auto simp: components_def)

lemma components_butlast: "components cs \<Longrightarrow> components (butlast cs)"
  by (auto simp: components_def dest: in_set_butlastD)

lemma append_parts_refines:
  assumes "holds b cs" "components cs" "\<forall>p \<in> set parts. slash \<notin> set p"
  shows "case append_parts parts b of
      Inl e \<Rightarrow> walk parts cs = Inl e
    | Inr b' \<Rightarrow> (\<exists>cs'. walk parts cs = Inr cs' \<and> holds b' cs' \<and> components cs')"
  using assms
proof (induction parts arbitrary: b cs)
  case (Cons part parts)
  consider "part = '''' \<or> part = ''.''" | "part = ''..''" | "part \<noteq> ''''" "part \<noteq> ''.''" "part \<noteq> ''..''" by blast
  then show ?case
  proof cases
    case 1
    then have skip: "append_parts (part # parts) b = append_parts parts b" "walk (part # parts) cs = walk parts cs"
      by auto
    show ?thesis unfolding skip using Cons.IH [OF Cons.prems(1,2)] Cons.prems(3) by simp
  next
    case 2
    then have pop: "append_parts (part # parts) b = append_parts parts (pop_path_component b)"
        "walk (part # parts) cs = walk parts (butlast cs)" by auto
    show ?thesis unfolding pop
      using Cons.IH [OF pop_refines [OF Cons.prems(1,2)] components_butlast [OF Cons.prems(2)]] Cons.prems(3) by simp
  next
    case 3
    show ?thesis
    proof (cases "push_path_component part b")
      case (Inl e)
      then show ?thesis using push_refines [OF Cons.prems(1,2) 3(1)] 3 by simp
    next
      case (Inr b')
      then have h: "holds b' (cs @ [part])" using push_refines [OF Cons.prems(1,2) 3(1)] by simp
      then have "\<not> PATH_MAX < length (render (cs @ [part]))" by (auto simp: holds_def)
      then have push: "append_parts (part # parts) b = append_parts parts b'"
          "walk (part # parts) cs = walk parts (cs @ [part])" using 3 Inr by auto
      show ?thesis unfolding push using Cons.IH [OF h components_snoc] Cons.prems 3 by simp
    qed
  qed
qed simp

lemma walk_append: "walk (ps @ qs) cs = (case walk ps cs of Inl e \<Rightarrow> Inl e | Inr ds \<Rightarrow> walk qs ds)"
  by (induction ps arbitrary: cs) auto

lemma split_slash_parts: "\<forall>p \<in> set (split_slash s). slash \<notin> set p"
  using split_slash_no_slash by blast

lemma start_holds: "length out = PATH_MAX \<Longrightarrow> holds (out[0 := slash], 1) []"
  by (cases out) (auto simp: holds_def PATH_MAX_def)

lemma normalize_refines:
  assumes "length out = PATH_MAX"
  shows "normalize_path_into path cwd out =
    (case resolve path cwd of Inl e \<Rightarrow> Inl e | Inr cs \<Rightarrow> Inr (render cs))"
proof -
  have out: "(case r of Inl e \<Rightarrow> Inl e | Inr (out', len) \<Rightarrow> Inr (take len out')) =
      (case w of Inl e \<Rightarrow> Inl e | Inr cs \<Rightarrow> Inr (render cs))"
    if "case r of Inl e \<Rightarrow> w = Inl e | Inr b' \<Rightarrow> (\<exists>cs'. w = Inr cs' \<and> holds b' cs' \<and> components cs')"
    for r :: "vfs_error + path_buffer" and w
    using that by (auto simp: holds_def split: sum.splits)
  have c0: "components []" by (simp add: components_def)
  note start = append_parts_refines [OF start_holds [OF assms] c0 split_slash_parts]
  show ?thesis
  proof (cases "starts_with path ''/''")
    case True
    then have "path \<noteq> ''''" by (auto simp: starts_with_def)
    then show ?thesis using True out [OF start [of path]]
      by (simp add: normalize_path_into_def resolve_def append_path_components_def Let_def)
  next
    case False
    show ?thesis
    proof (cases "append_path_components cwd (out[0 := slash], 1)")
      case (Inl e)
      then have "walk (split_slash cwd) [] = Inl e" using start [of cwd] by (simp add: append_path_components_def)
      then show ?thesis using False Inl
        by (auto simp: normalize_path_into_def resolve_def Let_def walk_append)
    next
      case (Inr b)
      then obtain cs where w: "walk (split_slash cwd) [] = Inr cs" "holds b cs" "components cs"
        using start [of cwd] by (auto simp: append_path_components_def)
      show ?thesis
      proof (cases "path = ''''")
        case True
        then show ?thesis using False Inr w out [where r = "Inr b" and w = "Inr cs"]
          by (simp add: normalize_path_into_def resolve_def Let_def walk_append)
      next
        case ne: False
        show ?thesis using False ne Inr w out [OF append_parts_refines [OF w(2,3) split_slash_parts [of path]]]
          by (simp add: normalize_path_into_def resolve_def Let_def walk_append append_path_components_def)
      qed
    qed
  qed
qed

section \<open>Relative paths\<close>

text \<open>A component list as a relative path, the form in which file systems see paths.\<close>

definition join :: "string list \<Rightarrow> string" where
  "join cs = tl (concat (map (\<lambda>c. slash # c) cs))"

lemma join_Nil [simp]: "join [] = ''''"
  by (simp add: join_def)

lemma join_single [simp]: "join [c] = c"
  by (simp add: join_def)

lemma join_append: "cs \<noteq> [] \<Longrightarrow> ds \<noteq> [] \<Longrightarrow> join (cs @ ds) = join cs @ slash # join ds"
  by (cases cs; cases ds) (auto simp: join_def)

lemma join_snoc: "join (cs @ [c]) = (if cs = [] then c else join cs @ slash # c)"
  using join_append [of cs "[c]"] by simp

lemma render_join: "render cs = slash # join cs"
  by (cases cs) (auto simp: render_def join_def)

lemma split_slash_join_append:
  "components cs \<Longrightarrow> cs \<noteq> [] \<Longrightarrow> split_slash (join cs @ slash # s) = cs @ split_slash s"
proof (induction cs)
  case (Cons c cs)
  show ?case
  proof (cases "cs = []")
    case True
    then show ?thesis using Cons.prems by (simp add: components_def split_slash_append)
  next
    case False
    then have "join (c # cs) = c @ slash # join cs" using join_append [of "[c]" cs] by simp
    then show ?thesis using Cons False by (simp add: components_def split_slash_append)
  qed
qed simp

lemma split_slash_join: "components cs \<Longrightarrow> cs \<noteq> [] \<Longrightarrow> split_slash (join cs) = cs"
proof -
  assume a: "components cs" "cs \<noteq> []"
  show ?thesis
  proof (cases "butlast cs = []")
    case True
    then obtain c where "cs = [c]" using a(2) by (cases cs) (auto split: if_splits)
    then show ?thesis using a by (simp add: components_def split_slash_plain)
  next
    case False
    obtain ds c where cs: "cs = ds @ [c]" using a(2) by (metis append_butlast_last_id)
    then have "ds \<noteq> []" "components ds" "slash \<notin> set c" using False a(1) by (auto simp: components_def)
    then show ?thesis unfolding cs by (simp add: join_snoc split_slash_join_append split_slash_plain)
  qed
qed

lemma join_eq_Nil: "components cs \<Longrightarrow> join cs = '''' \<longleftrightarrow> cs = []"
  by (cases cs) (auto simp: join_def components_def)

lemma join_inj: "components cs \<Longrightarrow> components ds \<Longrightarrow> join cs = join ds \<longleftrightarrow> cs = ds"
  by (metis join_eq_Nil split_slash_join)

lemma hd_join: "components cs \<Longrightarrow> cs \<noteq> [] \<Longrightarrow> join cs \<noteq> '''' \<and> hd (join cs) \<noteq> slash"
  by (cases cs) (auto simp: join_def components_def neq_Nil_conv hd_append)

lemma last_join: "components cs \<Longrightarrow> cs \<noteq> [] \<Longrightarrow> last (join cs) \<noteq> slash"
proof -
  assume a: "components cs" "cs \<noteq> []"
  obtain ds c where cs: "cs = ds @ [c]" using a(2) by (metis append_butlast_last_id)
  then have "c \<noteq> ''''" "slash \<notin> set c" using a(1) by (auto simp: components_def)
  then have "last c \<noteq> slash" by (metis last_in_set)
  then show ?thesis using cs \<open>c \<noteq> ''''\<close> by (simp add: join_snoc)
qed

lemma trim_start_id: "s = '''' \<or> hd s \<noteq> slash \<Longrightarrow> trim_start_slash s = s"
  by (cases s) (auto simp: trim_start_slash_def)

lemma trim_join [simp]: "components cs \<Longrightarrow> trim_slash (join cs) = join cs"
proof (cases "cs = []")
  case False
  assume "components cs"
  then have "trim_start_slash (join cs) = join cs" "trim_start_slash (rev (join cs)) = rev (join cs)"
    using hd_join [of cs] last_join [of cs] False by (auto intro!: trim_start_id simp: hd_rev)
  then show ?thesis by (simp add: trim_slash_def)
qed (simp add: trim_slash_def trim_start_slash_def)

lemma starts_with_iff: "starts_with s p \<longleftrightarrow> (\<exists>r. s = p @ r)"
  unfolding starts_with_def by (metis append_eq_conv_conj append_take_drop_id)

lemma starts_with_join:
  assumes "components cs" "components ds" "cs \<noteq> []"
  shows "starts_with (join ds) (join cs @ [slash]) \<longleftrightarrow> (\<exists>es. es \<noteq> [] \<and> ds = cs @ es)"
proof
  assume "starts_with (join ds) (join cs @ [slash])"
  then obtain r where r: "join ds = join cs @ slash # r" by (auto simp: starts_with_iff)
  then have "ds \<noteq> []" by auto
  then have "ds = cs @ split_slash r" using r assms split_slash_join [of ds] split_slash_join_append [of cs r] by simp
  then show "\<exists>es. es \<noteq> [] \<and> ds = cs @ es" by auto
next
  assume "\<exists>es. es \<noteq> [] \<and> ds = cs @ es"
  then show "starts_with (join ds) (join cs @ [slash])" using assms(3) by (auto simp: starts_with_iff join_append)
qed

section \<open>Canonical paths\<close>

lemma walk_components:
  assumes "walk parts cs = Inr ds" "\<forall>p \<in> set parts. slash \<notin> set p" "\<forall>c \<in> set cs. component c"
    and "length (render cs) \<le> PATH_MAX"
  shows "(\<forall>c \<in> set ds. component c) \<and> length (render ds) \<le> PATH_MAX"
  using assms
proof (induction parts arbitrary: cs)
  case (Cons part parts)
  have "length (render (butlast cs)) \<le> PATH_MAX"
  proof (cases "cs = []")
    case False
    then obtain xs x where "cs = xs @ [x]" by (metis append_butlast_last_id)
    then show ?thesis using Cons.prems(4) by (auto simp: render_snoc PATH_MAX_def split: if_splits)
  qed (simp add: PATH_MAX_def)
  note short = this
  have down: "\<forall>c \<in> set (butlast cs). component c" using Cons.prems(3) in_set_butlastD by metis
  consider "part = '''' \<or> part = ''.''" | "part = ''..''" | "part \<noteq> ''''" "part \<noteq> ''.''" "part \<noteq> ''..''" by blast
  then show ?case
  proof cases
    case 1
    then show ?thesis using Cons.IH [OF _ _ Cons.prems(3,4)] Cons.prems(1,2) by auto
  next
    case 2
    then show ?thesis using Cons.IH [OF _ _ down short] Cons.prems(1,2) by simp
  next
    case 3
    then have "component part" using Cons.prems(2) by (simp add: component_def)
    then show ?thesis using Cons.IH [of "cs @ [part]"] Cons.prems 3 by (simp split: if_splits)
  qed
qed simp

lemma length_render_append: "length (render cs) \<le> length (render (cs @ ds))"
  using length_render_ge_1 [of ds] by (cases "cs = []") (auto simp: render_def)

lemma walk_render:
  "\<forall>c \<in> set ds. component c \<Longrightarrow> length (render (cs @ ds)) \<le> PATH_MAX \<Longrightarrow> walk ds cs = Inr (cs @ ds)"
proof (induction ds arbitrary: cs)
  case (Cons d ds)
  have "length (render (cs @ [d])) \<le> PATH_MAX"
    using Cons.prems(2) length_render_append [of "cs @ [d]" ds] by simp
  then show ?case using Cons.IH [of "cs @ [d]"] Cons.prems by (auto simp: component_def)
qed simp

lemma resolve_components:
  assumes "resolve path cwd = Inr cs"
  shows "(\<forall>c \<in> set cs. component c) \<and> length (render cs) \<le> PATH_MAX"
  by (rule walk_components [OF assms [unfolded resolve_def]])
    (use split_slash_parts in \<open>auto simp: PATH_MAX_def\<close>)

lemma starts_with_render: "starts_with (render cs) ''/''"
  using render_starts [of cs] by (cases "render cs") (auto simp: starts_with_def)

lemma resolve_render:
  assumes "\<forall>c \<in> set cs. component c" "length (render cs) \<le> PATH_MAX"
  shows "resolve (render cs) cwd = Inr cs"
proof -
  have "walk (split_slash (render cs)) [] = Inr cs"
  proof (cases "cs = []")
    case False
    then have "split_slash (render cs) = '''' # cs"
      using split_slash_render assms(1) by (simp add: component_def)
    then show ?thesis using walk_render [of cs "[]"] assms by simp
  qed simp
  then show ?thesis by (simp add: resolve_def starts_with_render)
qed

text \<open>
  C20. The in-place normalisation of the 256-byte buffer computes exactly the component-stack
  semantics of paths, for every path and working directory: \<open>.\<close> and empty components vanish,
  \<open>..\<close> pops and stops at the root, and the only failure is a normalised prefix longer than the
  buffer.
\<close>
theorem normalize_path_stack:
  "normalize_path path cwd = (case resolve path cwd of Inl e \<Rightarrow> Inl e | Inr cs \<Rightarrow> Inr (render cs))"
  by (simp add: normalize_path_def normalize_refines)

text \<open>
  Normalised paths are canonical: at most 256 bytes, absolute, made of proper components (none
  empty, \<open>.\<close> or \<open>..\<close>), and normalising one again from any working directory returns it unchanged.
\<close>
lemma normalize_path_canonical:
  assumes "normalize_path path cwd = Inr s"
  shows "\<exists>cs. s = render cs \<and> (\<forall>c \<in> set cs. component c) \<and> length s \<le> 256 \<and> normalize_path s cwd' = Inr s"
proof -
  obtain cs where cs: "resolve path cwd = Inr cs" "s = render cs"
    using assms by (auto simp: normalize_path_def normalize_refines split: sum.splits)
  note c = resolve_components [OF cs(1)]
  have "normalize_path s cwd' = Inr s" using resolve_render [of cs cwd'] c cs(2)
    by (simp add: normalize_path_def normalize_refines)
  then show ?thesis using c cs(2) by (auto simp: PATH_MAX_def)
qed

lemma normalize_path_canonical_witness:
  "normalize_path ''../b/./c//d'' ''/a/x'' = Inr ''/a/b/c/d'' \<and>
   (\<exists>cs. ''/a/b/c/d'' = render cs \<and> (\<forall>c \<in> set cs. component c) \<and> normalize_path ''/a/b/c/d'' '''' = Inr ''/a/b/c/d'')"
proof -
  have n: "normalize_path ''../b/./c//d'' ''/a/x'' = Inr ''/a/b/c/d''"
    by (simp add: normalize_path_def normalize_refines resolve_def starts_with_def render_def PATH_MAX_def)
  then show ?thesis using normalize_path_canonical [OF n, of "''''"] by blast
qed

end
