(* ===== verification/Memfs.thy ===== *)
theory Memfs
  imports Vfs_Path
begin

text \<open>
  The in-memory root file system (\<^verbatim>\<open>kernel/src/fs/memfs.rs\<close>) with the open flags, file types, directory
  entries and stat results of \<^verbatim>\<open>kernel/src/fs/vfs.rs\<close>: a flat list of nodes keyed by their cleaned path,
  and a list of open handles. The abstract view is a tree: a partial function from component lists to
  nodes, in which every node's parent is a directory.
\<close>

section \<open>Flags and entries\<close>

definition OPEN_READ :: u32 where
  "OPEN_READ = 1"

definition OPEN_WRITE :: u32 where
  "OPEN_WRITE = 2"

definition OPEN_CREATE :: u32 where
  "OPEN_CREATE = 4"

definition OPEN_TRUNC :: u32 where
  "OPEN_TRUNC = 8"

definition OPEN_APPEND :: u32 where
  "OPEN_APPEND = 16"

definition OPEN_EXCL :: u32 where
  "OPEN_EXCL = 32"

definition OPEN_VALID :: u32 where
  "OPEN_VALID = OPEN_READ OR OPEN_WRITE OR OPEN_CREATE OR OPEN_TRUNC OR OPEN_APPEND OR OPEN_EXCL"

definition flag_contains :: "u32 \<Rightarrow> u32 \<Rightarrow> bool" where
  "flag_contains fl other \<longleftrightarrow> fl AND other = other"

definition flags_valid :: "u32 \<Rightarrow> bool" where
  "flags_valid fl \<longleftrightarrow>
     fl AND NOT OPEN_VALID = 0 \<and>
     (flag_contains fl OPEN_READ \<or> flag_contains fl OPEN_WRITE) \<and>
     ((\<not> flag_contains fl OPEN_TRUNC \<and> \<not> flag_contains fl OPEN_APPEND) \<or> flag_contains fl OPEN_WRITE) \<and>
     (\<not> flag_contains fl OPEN_EXCL \<or> flag_contains fl OPEN_CREATE)"

datatype file_type = File | Directory | Device

record dir_entry =
  de_name :: string
  de_name_len :: usize
  de_type :: file_type

definition dir_entry_new :: "string \<Rightarrow> file_type \<Rightarrow> dir_entry" where
  "dir_entry_new name t =
     (let len = min (length name) 64
      in \<lparr>de_name = copy_at 0 (take len name) (replicate 64 (CHR 0x00)), de_name_len = len, de_type = t\<rparr>)"

record file_stat =
  st_type :: file_type
  st_size :: usize

section \<open>Nodes and handles\<close>

definition BASE_DIRS :: "string list" where
  "BASE_DIRS = [''kernel'', ''proc'', ''app'', ''assets'', ''dev'', ''cfg'', ''usr'', ''tmp'']"

definition MAX_MEMFS_FILE_SIZE :: nat where
  "MAX_MEMFS_FILE_SIZE = 16 * 1024 * 1024"

datatype mem_data = Owned bytes | Static bytes

fun as_slice :: "mem_data \<Rightarrow> bytes" where
  "as_slice (Owned d) = d"
| "as_slice (Static d) = d"

fun data_clear :: "mem_data \<Rightarrow> vfs_error + mem_data" where
  "data_clear (Owned d) = Inr (Owned [])"
| "data_clear (Static d) = Inl PermissionDenied"

fun data_resize :: "nat \<Rightarrow> mem_data \<Rightarrow> vfs_error + mem_data" where
  "data_resize len (Owned d) = Inr (Owned (take len d @ replicate (len - length d) 0))"
| "data_resize len (Static d) = Inl PermissionDenied"

fun data_write_at :: "nat \<Rightarrow> bytes \<Rightarrow> mem_data \<Rightarrow> vfs_error + mem_data" where
  "data_write_at off buf (Owned d) = Inr (Owned (copy_at off buf d))"
| "data_write_at off buf (Static d) = Inl PermissionDenied"

record mem_node =
  node_path :: string
  node_kind :: file_type
  node_data :: mem_data

record mem_handle =
  mh_path :: string
  mh_offset :: usize
  mh_flags :: u32

record memfs =
  nodes :: "mem_node list"
  next_handle :: usize
  open_handles :: "(usize \<times> mem_handle) list"

record memfs_stats =
  mst_files :: u64
  mst_directories :: u64
  mst_bytes :: u64
  mst_open_handles :: u64

definition memfs_empty :: memfs where
  "memfs_empty = \<lparr>nodes = [], next_handle = 1, open_handles = []\<rparr>"

section \<open>Paths\<close>

definition is_base_dir :: "string \<Rightarrow> bool" where
  "is_base_dir path \<longleftrightarrow> trim_slash path \<in> set BASE_DIRS"

definition node_index :: "string \<Rightarrow> memfs \<Rightarrow> nat option" where
  "node_index path fs = position (\<lambda>n. node_path n = trim_slash path) (nodes fs)"

definition node_type :: "string \<Rightarrow> memfs \<Rightarrow> file_type option" where
  "node_type path fs =
     (let clean = trim_slash path
      in if clean = '''' \<or> is_base_dir clean then Some Directory
         else map_option (\<lambda>i. node_kind (nodes fs ! i)) (node_index clean fs))"

text \<open>The part before the last slash and the part after it.\<close>

definition before_last_slash :: "string \<Rightarrow> string" where
  "before_last_slash s = rev (tl (dropWhile (\<lambda>c. c \<noteq> slash) (rev s)))"

definition after_last_slash :: "string \<Rightarrow> string" where
  "after_last_slash s = rev (takeWhile (\<lambda>c. c \<noteq> slash) (rev s))"

definition parent_path :: "string \<Rightarrow> string" where
  "parent_path path =
     (let clean = trim_slash path in if slash \<in> set clean then before_last_slash clean else '''')"

definition basename :: "string \<Rightarrow> string" where
  "basename path =
     (let clean = trim_slash path in if slash \<in> set clean then after_last_slash clean else clean)"

definition parent_exists :: "string \<Rightarrow> memfs \<Rightarrow> bool" where
  "parent_exists path fs \<longleftrightarrow> node_type (parent_path path) fs = Some Directory"

definition handle_index :: "usize \<Rightarrow> memfs \<Rightarrow> nat option" where
  "handle_index h fs = position (\<lambda>(k, _). k = h) (open_handles fs)"

definition is_direct_child :: "string \<Rightarrow> string \<Rightarrow> bool" where
  "is_direct_child parent child =
     (let parent = trim_slash parent; child = trim_slash child
      in if parent = '''' then child \<noteq> '''' \<and> slash \<notin> set child
         else starts_with child parent \<and> length parent < length child \<and> child ! length parent = slash \<and>
              slash \<notin> set (drop (length parent + 1) child))"

section \<open>Operations\<close>

definition push_node :: "string \<Rightarrow> file_type \<Rightarrow> memfs \<Rightarrow> memfs" where
  "push_node clean t fs = fs\<lparr>nodes := nodes fs @ [\<lparr>node_path = clean, node_kind = t, node_data = Owned []\<rparr>]\<rparr>"

definition set_data :: "nat \<Rightarrow> mem_data \<Rightarrow> memfs \<Rightarrow> memfs" where
  "set_data i d fs = fs\<lparr>nodes := (nodes fs)[i := (nodes fs ! i)\<lparr>node_data := d\<rparr>]\<rparr>"

definition set_offset :: "nat \<Rightarrow> usize \<Rightarrow> memfs \<Rightarrow> memfs" where
  "set_offset i off fs =
     fs\<lparr>open_handles := (open_handles fs)[i := (fst (open_handles fs ! i), (snd (open_handles fs ! i))\<lparr>mh_offset := off\<rparr>)]\<rparr>"

definition mem_create :: "string \<Rightarrow> memfs \<Rightarrow> memfs \<times> (vfs_error + unit)" where
  "mem_create path fs =
     (let clean = trim_slash path
      in if clean = '''' then (fs, Inl InvalidPath)
         else if node_type clean fs \<noteq> None then (fs, Inl AlreadyExists)
         else if \<not> parent_exists clean fs then (fs, Inl NotFound)
         else (push_node clean File fs, Inr ()))"

definition mem_mkdir :: "string \<Rightarrow> memfs \<Rightarrow> memfs \<times> (vfs_error + unit)" where
  "mem_mkdir path fs =
     (let clean = trim_slash path
      in if clean = '''' then (fs, Inl InvalidPath)
         else if node_type clean fs \<noteq> None then (fs, Inl AlreadyExists)
         else if \<not> parent_exists clean fs then (fs, Inl NotFound)
         else (push_node clean Directory fs, Inr ()))"

definition add_data :: "string \<Rightarrow> mem_data \<Rightarrow> memfs \<Rightarrow> memfs" where
  "add_data name d fs =
     (let fs1 = fst (mem_create name fs)
      in case node_index name fs1 of None \<Rightarrow> fs1 | Some i \<Rightarrow> set_data i d fs1)"

definition add_file :: "string \<Rightarrow> bytes \<Rightarrow> memfs \<Rightarrow> memfs" where
  "add_file name d fs = add_data name (Owned d) fs"

definition add_static_file :: "string \<Rightarrow> bytes \<Rightarrow> memfs \<Rightarrow> memfs" where
  "add_static_file name d fs = add_data name (Static d) fs"

definition add_device :: "string \<Rightarrow> memfs \<Rightarrow> memfs" where
  "add_device name fs =
     (let clean = trim_slash name
      in if clean = '''' \<or> \<not> parent_exists clean fs then fs
         else case node_index clean fs of
           Some i \<Rightarrow> fs\<lparr>nodes := (nodes fs)[i := (nodes fs ! i)\<lparr>node_kind := Device, node_data := Owned []\<rparr>]\<rparr>
         | None \<Rightarrow> push_node clean Device fs)"

definition static_file :: "string \<Rightarrow> memfs \<Rightarrow> bytes option" where
  "static_file name fs =
     (case node_index name fs of
        None \<Rightarrow> None
      | Some i \<Rightarrow> (case node_data (nodes fs ! i) of Static d \<Rightarrow> Some d | Owned _ \<Rightarrow> None))"

definition stats_step :: "mem_node \<Rightarrow> memfs_stats \<Rightarrow> memfs_stats" where
  "stats_step n st =
     (case node_kind n of
        File \<Rightarrow> st\<lparr>mst_files := mst_files st + 1, mst_bytes := mst_bytes st + of_nat (length (as_slice (node_data n)))\<rparr>
      | Directory \<Rightarrow> st\<lparr>mst_directories := mst_directories st + 1\<rparr>
      | Device \<Rightarrow> st)"

definition mem_stats :: "memfs \<Rightarrow> memfs_stats" where
  "mem_stats fs =
     (let st = fold stats_step (nodes fs)
                 \<lparr>mst_files = 0, mst_directories = of_nat (length BASE_DIRS), mst_bytes = 0, mst_open_handles = 0\<rparr>
      in st\<lparr>mst_open_handles := of_nat (length (open_handles fs))\<rparr>)"

definition open_truncate :: "u32 \<Rightarrow> nat \<Rightarrow> memfs \<Rightarrow> vfs_error + memfs" where
  "open_truncate fl i fs =
     (if flag_contains fl OPEN_TRUNC then
        if \<not> flag_contains fl OPEN_WRITE then Inl PermissionDenied
        else case data_clear (node_data (nodes fs ! i)) of Inl e \<Rightarrow> Inl e | Inr d \<Rightarrow> Inr (set_data i d fs)
      else Inr fs)"

definition open_file :: "string \<Rightarrow> u32 \<Rightarrow> memfs \<Rightarrow> memfs \<times> (vfs_error + usize)" where
  "open_file path fl fs =
     (case node_index path fs of
        None \<Rightarrow> (fs, Inl NotFound)
      | Some i \<Rightarrow>
          (case open_truncate fl i fs of
             Inl e \<Rightarrow> (fs, Inl e)
           | Inr fs2 \<Rightarrow>
               let h = next_handle fs2;
                   off = (if flag_contains fl OPEN_APPEND then length (as_slice (node_data (nodes fs2 ! i))) else 0)
               in (fs2\<lparr>next_handle := wrap_add h 1,
                       open_handles := open_handles fs2 @
                         [(h, \<lparr>mh_path = trim_slash path, mh_offset = off, mh_flags = fl\<rparr>)]\<rparr>, Inr h)))"

definition open_existing :: "string \<Rightarrow> u32 \<Rightarrow> memfs \<Rightarrow> memfs \<times> (vfs_error + usize)" where
  "open_existing path fl fs =
     (case node_type path fs of
        None \<Rightarrow> (fs, Inl NotFound)
      | Some Directory \<Rightarrow> (fs, Inl IsADirectory)
      | Some File \<Rightarrow> open_file path fl fs
      | Some Device \<Rightarrow> (fs, Inl Unsupported))"

definition mem_open :: "string \<Rightarrow> u32 \<Rightarrow> memfs \<Rightarrow> memfs \<times> (vfs_error + usize)" where
  "mem_open path fl fs =
     (if \<not> flags_valid fl then (fs, Inl InvalidPath)
      else
        let existed = (node_type path fs \<noteq> None)
        in if flag_contains fl OPEN_CREATE \<and> flag_contains fl OPEN_EXCL \<and> existed then (fs, Inl AlreadyExists)
           else if \<not> existed \<and> flag_contains fl OPEN_CREATE then
             (case mem_create path fs of
                (fs1, Inl e) \<Rightarrow> (fs1, Inl e)
              | (fs1, Inr _) \<Rightarrow> open_existing path fl fs1)
           else open_existing path fl fs)"

definition mem_read :: "usize \<Rightarrow> bytes \<Rightarrow> memfs \<Rightarrow> memfs \<times> bytes \<times> (vfs_error + usize)" where
  "mem_read h buf fs =
     (case handle_index h fs of
        None \<Rightarrow> (fs, buf, Inl InvalidDescriptor)
      | Some hi \<Rightarrow>
          let mh = snd (open_handles fs ! hi)
          in if \<not> flag_contains (mh_flags mh) OPEN_READ then (fs, buf, Inl PermissionDenied)
             else
               case node_index (mh_path mh) fs of
                 None \<Rightarrow> (fs, buf, Inl NotFound)
               | Some ni \<Rightarrow>
                   if node_kind (nodes fs ! ni) \<noteq> File then (fs, buf, Inl IsADirectory)
                   else
                     let data = as_slice (node_data (nodes fs ! ni)); off = mh_offset mh;
                         len = (if length data \<le> off then 0 else min (length buf) (length data - off))
                     in (set_offset hi (wrap_add off len) fs, copy_at 0 (slice data off (off + len)) buf, Inr len))"

definition mem_write :: "usize \<Rightarrow> bytes \<Rightarrow> memfs \<Rightarrow> memfs \<times> (vfs_error + usize)" where
  "mem_write h buf fs =
     (case handle_index h fs of
        None \<Rightarrow> (fs, Inl InvalidDescriptor)
      | Some hi \<Rightarrow>
          let mh = snd (open_handles fs ! hi)
          in if \<not> flag_contains (mh_flags mh) OPEN_WRITE then (fs, Inl PermissionDenied)
             else
               case node_index (mh_path mh) fs of
                 None \<Rightarrow> (fs, Inl NotFound)
               | Some ni \<Rightarrow>
                   if node_kind (nodes fs ! ni) \<noteq> File then (fs, Inl IsADirectory)
                   else
                     let d = node_data (nodes fs ! ni);
                         off = (if flag_contains (mh_flags mh) OPEN_APPEND then length (as_slice d) else mh_offset mh);
                         fin = wrap_add off (length buf)
                     in if MAX_MEMFS_FILE_SIZE < fin then (fs, Inl FileTooBig)
                        else
                          case (if length (as_slice d) < fin then data_resize fin d else Inr d) of
                            Inl e \<Rightarrow> (fs, Inl e)
                          | Inr d1 \<Rightarrow>
                              (case data_write_at off buf d1 of
                                 Inl e \<Rightarrow> (set_data ni d1 fs, Inl e)
                               | Inr d2 \<Rightarrow> (set_offset hi fin (set_data ni d2 fs), Inr (length buf))))"

definition mem_close :: "usize \<Rightarrow> memfs \<Rightarrow> memfs \<times> (vfs_error + unit)" where
  "mem_close h fs =
     (case handle_index h fs of
        None \<Rightarrow> (fs, Inl InvalidDescriptor)
      | Some hi \<Rightarrow> (fs\<lparr>open_handles := remove_nth hi (open_handles fs)\<rparr>, Inr ()))"

text \<open>Offsets of a seek are signed 64-bit values.\<close>

definition seek_base :: "u32 \<Rightarrow> usize \<Rightarrow> usize \<Rightarrow> int option" where
  "seek_base whence off sz =
     (if whence = 0 then Some 0
      else if whence = 1 then Some (sint (of_nat off :: u64))
      else if whence = 2 then Some (sint (of_nat sz :: u64))
      else None)"

definition mem_seek :: "usize \<Rightarrow> u64 \<Rightarrow> u32 \<Rightarrow> memfs \<Rightarrow> memfs \<times> (vfs_error + u64)" where
  "mem_seek h offset whence fs =
     (case handle_index h fs of
        None \<Rightarrow> (fs, Inl InvalidDescriptor)
      | Some hi \<Rightarrow>
          let mh = snd (open_handles fs ! hi)
          in case node_index (mh_path mh) fs of
               None \<Rightarrow> (fs, Inl NotFound)
             | Some ni \<Rightarrow>
                 if node_kind (nodes fs ! ni) \<noteq> File then (fs, Inl IsADirectory)
                 else
                   case seek_base whence (mh_offset mh) (length (as_slice (node_data (nodes fs ! ni)))) of
                     None \<Rightarrow> (fs, Inl InvalidPath)
                   | Some base \<Rightarrow>
                       let new = base + sint offset
                       in if new < 0 \<or> 2 ^ 63 \<le> new then (fs, Inl InvalidPath)
                          else (set_offset hi (nat new) fs, Inr (of_int new)))"

definition mem_stat :: "string \<Rightarrow> memfs \<Rightarrow> vfs_error + file_stat" where
  "mem_stat path fs =
     (let clean = trim_slash path
      in if clean = '''' \<or> is_base_dir clean then Inr \<lparr>st_type = Directory, st_size = 0\<rparr>
         else case node_index clean fs of
           None \<Rightarrow> Inl NotFound
         | Some i \<Rightarrow>
             Inr \<lparr>st_type = node_kind (nodes fs ! i), st_size = length (as_slice (node_data (nodes fs ! i)))\<rparr>)"

definition mem_stat_handle :: "usize \<Rightarrow> memfs \<Rightarrow> vfs_error + file_stat" where
  "mem_stat_handle h fs =
     (case handle_index h fs of
        None \<Rightarrow> Inl InvalidDescriptor
      | Some hi \<Rightarrow> mem_stat (mh_path (snd (open_handles fs ! hi))) fs)"

definition mem_ftruncate_handle :: "usize \<Rightarrow> u64 \<Rightarrow> memfs \<Rightarrow> memfs \<times> (vfs_error + unit)" where
  "mem_ftruncate_handle h len fs =
     (case handle_index h fs of
        None \<Rightarrow> (fs, Inl InvalidDescriptor)
      | Some hi \<Rightarrow>
          let mh = snd (open_handles fs ! hi)
          in if \<not> flag_contains (mh_flags mh) OPEN_WRITE then (fs, Inl PermissionDenied)
             else
               case node_index (mh_path mh) fs of
                 None \<Rightarrow> (fs, Inl NotFound)
               | Some ni \<Rightarrow>
                   if node_kind (nodes fs ! ni) \<noteq> File then (fs, Inl IsADirectory)
                   else if MAX_MEMFS_FILE_SIZE < unat len then (fs, Inl FileTooBig)
                   else
                     case data_resize (unat len) (node_data (nodes fs ! ni)) of
                       Inl e \<Rightarrow> (fs, Inl e)
                     | Inr d \<Rightarrow> (set_data ni d fs, Inr ()))"

definition entry_of :: "mem_node \<Rightarrow> dir_entry" where
  "entry_of n = dir_entry_new (basename (node_path n)) (node_kind n)"

definition mem_readdir :: "string \<Rightarrow> memfs \<Rightarrow> vfs_error + dir_entry list" where
  "mem_readdir path fs =
     (let clean = trim_slash path
      in if clean = '''' then
           Inr (map (\<lambda>d. dir_entry_new d Directory) BASE_DIRS @
                map entry_of (filter (\<lambda>n. is_direct_child '''' (node_path n) \<and> \<not> is_base_dir (node_path n)) (nodes fs)))
         else if node_type clean fs \<noteq> Some Directory then Inl NotADirectory
         else Inr (map entry_of (filter (\<lambda>n. is_direct_child clean (node_path n)) (nodes fs))))"

text \<open>The variant that fills a caller's array: entries beyond its end are dropped.\<close>

fun fill_entries :: "dir_entry list \<Rightarrow> nat \<Rightarrow> dir_entry list \<Rightarrow> dir_entry list \<times> nat" where
  "fill_entries [] cnt out = (out, cnt)"
| "fill_entries (e # es) cnt out =
     (if cnt < length out then fill_entries es (cnt + 1) (out[cnt := e]) else fill_entries es cnt out)"

definition mem_readdir_into :: "string \<Rightarrow> dir_entry list \<Rightarrow> memfs \<Rightarrow> dir_entry list \<times> (vfs_error + usize)" where
  "mem_readdir_into path out fs =
     (let clean = trim_slash path
      in if clean = '''' then
           (case fill_entries (map (\<lambda>d. dir_entry_new d Directory) BASE_DIRS) 0 out of
              (out1, cnt1) \<Rightarrow>
                (case fill_entries (map entry_of (filter (\<lambda>n. is_direct_child '''' (node_path n) \<and>
                        \<not> is_base_dir (node_path n)) (nodes fs))) cnt1 out1 of
                   (out2, cnt2) \<Rightarrow> (out2, Inr cnt2)))
         else if node_type clean fs \<noteq> Some Directory then (out, Inl NotADirectory)
         else
           (case fill_entries (map entry_of (filter (\<lambda>n. is_direct_child clean (node_path n)) (nodes fs))) 0 out of
              (out', cnt) \<Rightarrow> (out', Inr cnt)))"

definition is_static :: "mem_data \<Rightarrow> bool" where
  "is_static d \<longleftrightarrow> (case d of Static _ \<Rightarrow> True | Owned _ \<Rightarrow> False)"

definition mem_remove :: "string \<Rightarrow> memfs \<Rightarrow> memfs \<times> (vfs_error + unit)" where
  "mem_remove path fs =
     (let clean = trim_slash path
      in if clean = '''' then (fs, Inl InvalidPath)
         else case node_index clean fs of
           None \<Rightarrow> (fs, Inl NotFound)
         | Some i \<Rightarrow>
             if is_static (node_data (nodes fs ! i)) then (fs, Inl PermissionDenied)
             else if node_kind (nodes fs ! i) \<noteq> File then (fs, Inl IsADirectory)
             else (fs\<lparr>nodes := remove_nth i (nodes fs),
                      open_handles := filter (\<lambda>(_, mh). mh_path mh \<noteq> clean) (open_handles fs)\<rparr>, Inr ()))"

definition mem_remove_dir :: "string \<Rightarrow> memfs \<Rightarrow> memfs \<times> (vfs_error + unit)" where
  "mem_remove_dir path fs =
     (let clean = trim_slash path
      in if clean = '''' then (fs, Inl InvalidPath)
         else case node_index clean fs of
           None \<Rightarrow> (fs, Inl NotFound)
         | Some i \<Rightarrow>
             if is_static (node_data (nodes fs ! i)) then (fs, Inl PermissionDenied)
             else if node_kind (nodes fs ! i) \<noteq> Directory then (fs, Inl NotADirectory)
             else if \<exists>n \<in> set (nodes fs). starts_with (node_path n) (clean @ [slash]) then (fs, Inl DirectoryNotEmpty)
             else (fs\<lparr>nodes := remove_nth i (nodes fs)\<rparr>, Inr ()))"

definition rehome :: "string \<Rightarrow> string \<Rightarrow> string \<Rightarrow> string" where
  "rehome old new path = (if starts_with path (old @ [slash]) then new @ drop (length old) path else path)"

definition mem_rename :: "string \<Rightarrow> string \<Rightarrow> memfs \<Rightarrow> memfs \<times> (vfs_error + unit)" where
  "mem_rename old new fs =
     (let old = trim_slash old; new = trim_slash new
      in if old = '''' \<or> new = '''' then (fs, Inl InvalidPath)
         else if old = new then (fs, Inr ())
         else if starts_with new (old @ [slash]) then (fs, Inl InvalidPath)
         else case node_index old fs of
           None \<Rightarrow> (fs, Inl NotFound)
         | Some i \<Rightarrow>
             if is_static (node_data (nodes fs ! i)) then (fs, Inl PermissionDenied)
             else if node_type new fs \<noteq> None then (fs, Inl AlreadyExists)
             else if \<not> parent_exists new fs then (fs, Inl NotFound)
             else
               let is_dir = (node_kind (nodes fs ! i) = Directory);
                   ns = (nodes fs)[i := (nodes fs ! i)\<lparr>node_path := new\<rparr>];
                   ns' = (if is_dir then map (\<lambda>n. n\<lparr>node_path := rehome old new (node_path n)\<rparr>) ns else ns);
                   hs = (if is_dir then map (\<lambda>(k, mh). (k, mh\<lparr>mh_path := rehome old new (mh_path mh)\<rparr>)) (open_handles fs)
                         else open_handles fs);
                   hs' = map (\<lambda>(k, mh). (k, if mh_path mh = old then mh\<lparr>mh_path := new\<rparr> else mh)) hs
               in (fs\<lparr>nodes := ns', open_handles := hs'\<rparr>, Inr ()))"

definition mem_truncate :: "string \<Rightarrow> memfs \<Rightarrow> memfs \<times> (vfs_error + unit)" where
  "mem_truncate path fs =
     (let clean = trim_slash path
      in if clean = '''' then (fs, Inl InvalidPath)
         else case node_index clean fs of
           None \<Rightarrow> (fs, Inl NotFound)
         | Some i \<Rightarrow>
             if node_kind (nodes fs ! i) \<noteq> File then (fs, Inl IsADirectory)
             else case data_clear (node_data (nodes fs ! i)) of
               Inl e \<Rightarrow> (fs, Inl e)
             | Inr d \<Rightarrow> (set_data i d fs, Inr ()))"

section \<open>The tree\<close>

definition lookup :: "memfs \<Rightarrow> string \<Rightarrow> mem_node option" where
  "lookup fs p = find (\<lambda>n. node_path n = p) (nodes fs)"

definition dir_at :: "(string \<Rightarrow> mem_node option) \<Rightarrow> string \<Rightarrow> bool" where
  "dir_at lk p \<longleftrightarrow> p = '''' \<or> p \<in> set BASE_DIRS \<or> (\<exists>n. lk p = Some n \<and> node_kind n = Directory)"

definition node_wf :: "(string \<Rightarrow> mem_node option) \<Rightarrow> string \<Rightarrow> mem_node \<Rightarrow> bool" where
  "node_wf lk p n \<longleftrightarrow> node_path n = p \<and> p \<notin> set BASE_DIRS \<and>
     (\<exists>cs c. components (cs @ [c]) \<and> p = join (cs @ [c]) \<and> dir_at lk (join cs))"

definition tree_wf :: "(string \<Rightarrow> mem_node option) \<Rightarrow> bool" where
  "tree_wf lk \<longleftrightarrow> (\<forall>p n. lk p = Some n \<longrightarrow> node_wf lk p n)"

definition memfs_ok :: "memfs \<Rightarrow> bool" where
  "memfs_ok fs \<longleftrightarrow> distinct (map node_path (nodes fs)) \<and> tree_wf (lookup fs)"

definition rel_path :: "string \<Rightarrow> bool" where
  "rel_path p \<longleftrightarrow> (\<exists>cs. components cs \<and> trim_slash p = join cs)"

lemma rel_path_join [simp]: "components cs \<Longrightarrow> rel_path (join cs)"
  by (auto simp: rel_path_def)

lemma find_Some_mem: "find P xs = Some x \<Longrightarrow> x \<in> set xs \<and> P x"
  by (auto simp: find_Some_iff)

lemma lookup_in: "distinct (map node_path (nodes fs)) \<Longrightarrow> lookup fs p = Some n \<longleftrightarrow> n \<in> set (nodes fs) \<and> node_path n = p"
  unfolding lookup_def
proof (induction "nodes fs" arbitrary: fs)
  case (Cons m ms)
  have "find (\<lambda>n. node_path n = p) ms = Some n \<longleftrightarrow> n \<in> set ms \<and> node_path n = p"
    using Cons.hyps(1) [of "fs\<lparr>nodes := ms\<rparr>"] Cons.prems Cons.hyps(2) by (cases "nodes fs") auto
  then show ?case using Cons.hyps(2) [symmetric] Cons.prems by (auto simp: image_iff)
qed simp

lemma lookup_path: "lookup fs p = Some n \<Longrightarrow> node_path n = p"
  by (auto simp: lookup_def dest: find_Some_mem)

lemma position_find:
  "position P xs = Some i \<Longrightarrow> find P xs = Some (xs ! i) \<and> i < length xs"
  by (induction xs arbitrary: i) (auto split: if_splits)

lemma position_find_None: "position P xs = None \<longleftrightarrow> find P xs = None"
  by (induction xs) auto

lemma node_index_Some: "node_index p fs = Some i \<Longrightarrow> lookup fs (trim_slash p) = Some (nodes fs ! i) \<and> i < length (nodes fs)"
  using position_find [of "\<lambda>n. node_path n = trim_slash p" "nodes fs" i] by (simp add: node_index_def lookup_def)

lemma node_index_None: "node_index p fs = None \<longleftrightarrow> lookup fs (trim_slash p) = None"
  by (simp add: node_index_def lookup_def position_find_None)

lemma node_index_cases:
  obtains (none) "node_index p fs = None" "lookup fs (trim_slash p) = None"
  | (found) i where "node_index p fs = Some i" "lookup fs (trim_slash p) = Some (nodes fs ! i)" "i < length (nodes fs)"
      "node_path (nodes fs ! i) = trim_slash p"
  using node_index_Some [of p fs] node_index_None [of p fs] lookup_path by (cases "node_index p fs") auto

lemma base_dir_join: "components cs \<Longrightarrow> is_base_dir (join cs) \<longleftrightarrow> join cs \<in> set BASE_DIRS"
  by (simp add: is_base_dir_def)

lemma node_type_join:
  assumes "components cs"
  shows "node_type (join cs) fs =
    (if cs = [] \<or> join cs \<in> set BASE_DIRS then Some Directory else map_option node_kind (lookup fs (join cs)))"
proof (cases "cs = [] \<or> join cs \<in> set BASE_DIRS")
  case True
  then show ?thesis using assms by (auto simp: node_type_def base_dir_join join_eq_Nil Let_def)
next
  case False
  then show ?thesis using assms
    by (cases rule: node_index_cases [of "join cs" fs])
      (auto simp: node_type_def base_dir_join join_eq_Nil Let_def)
qed

lemma dir_at_node_type: "components cs \<Longrightarrow> node_type (join cs) fs = Some Directory \<longleftrightarrow> dir_at (lookup fs) (join cs)"
  by (auto simp: node_type_join dir_at_def join_eq_Nil)

lemma dropWhile_no_slash: "slash \<notin> set xs \<Longrightarrow> dropWhile (\<lambda>c. c \<noteq> slash) (xs @ slash # ys) = slash # ys"
  by (induction xs) auto

lemma takeWhile_no_slash: "slash \<notin> set xs \<Longrightarrow> takeWhile (\<lambda>c. c \<noteq> slash) (xs @ slash # ys) = xs"
  by (induction xs) auto

lemma parent_path_join: "components (cs @ [c]) \<Longrightarrow> parent_path (join (cs @ [c])) = join cs"
proof -
  assume a: "components (cs @ [c])"
  then have c: "slash \<notin> set c" by (auto simp: components_def)
  show ?thesis
  proof (cases "cs = []")
    case True
    then show ?thesis using a c by (simp add: parent_path_def trim_join [of "[c]", simplified])
  next
    case False
    have "trim_slash (join cs @ slash # c) = join cs @ slash # c" using trim_join [OF a] False by (simp add: join_snoc)
    then show ?thesis using False c dropWhile_no_slash [of "rev c" "rev (join cs)"]
      by (simp add: parent_path_def join_snoc before_last_slash_def)
  qed
qed

lemma basename_join: "components (cs @ [c]) \<Longrightarrow> basename (join (cs @ [c])) = c"
proof -
  assume a: "components (cs @ [c])"
  then have c: "slash \<notin> set c" by (auto simp: components_def)
  show ?thesis
  proof (cases "cs = []")
    case True
    then show ?thesis using a c by (simp add: basename_def trim_join [of "[c]", simplified])
  next
    case False
    have "trim_slash (join cs @ slash # c) = join cs @ slash # c" using trim_join [OF a] False by (simp add: join_snoc)
    then show ?thesis using False c takeWhile_no_slash [of "rev c" "rev (join cs)"]
      by (simp add: basename_def join_snoc after_last_slash_def)
  qed
qed

lemma components_append [simp]: "components (cs @ ds) \<longleftrightarrow> components cs \<and> components ds"
  by (auto simp: components_def)

lemma components_Nil [simp]: "components []"
  by (simp add: components_def)

lemma parent_exists_join:
  "components (cs @ [c]) \<Longrightarrow> parent_exists (join (cs @ [c])) fs \<longleftrightarrow> dir_at (lookup fs) (join cs)"
  by (simp only: parent_exists_def parent_path_join) (simp add: dir_at_node_type)

section \<open>Tree updates\<close>

lemma dir_at_mono: "dir_at lk p \<Longrightarrow> (\<And>n. lk p = Some n \<Longrightarrow> node_kind n = Directory \<Longrightarrow>
    \<exists>n'. lk' p = Some n' \<and> node_kind n' = Directory) \<Longrightarrow> dir_at lk' p"
  by (auto simp: dir_at_def)

lemma node_wf_dir:
  assumes "node_wf lk p n" "\<And>q. q \<noteq> p \<Longrightarrow> dir_at lk q \<Longrightarrow> dir_at lk' q"
  shows "node_wf lk' p n"
proof -
  obtain cs c where cs: "components (cs @ [c])" "p = join (cs @ [c])" "dir_at lk (join cs)"
    using assms(1) by (auto simp: node_wf_def)
  then have "join cs \<noteq> p" by (metis append_self_conv components_append join_inj list.distinct(1))
  then show ?thesis using assms cs by (auto simp: node_wf_def)
qed

lemma tree_wf_add:
  assumes "tree_wf lk" "lk p = None" "node_wf lk p n"
  shows "tree_wf (lk(p \<mapsto> n))"
proof -
  have "node_wf (lk(p \<mapsto> n)) q m" if "node_wf lk q m" for q m
    by (rule node_wf_dir [OF that]) (use assms(2) in \<open>auto simp: dir_at_def\<close>)
  then show ?thesis using assms(1,3) by (simp add: tree_wf_def)
qed

lemma tree_wf_update:
  assumes "tree_wf lk" "lk p = Some n" "node_path n' = p" "node_kind n = Directory \<Longrightarrow> node_kind n' = Directory"
  shows "tree_wf (lk(p \<mapsto> n'))"
proof -
  have keep: "node_wf (lk(p \<mapsto> n')) q m" if "node_wf lk q m" for q m
    by (rule node_wf_dir [OF that]) (use assms(2,4) in \<open>auto simp: dir_at_def\<close>)
  have "node_wf lk p n'" using assms(1-3) by (auto simp: tree_wf_def node_wf_def)
  then show ?thesis using assms(1) keep by (simp add: tree_wf_def)
qed

lemma tree_wf_delete:
  assumes "tree_wf lk" "\<And>cs c n. components (cs @ [c]) \<Longrightarrow> lk (join (cs @ [c])) = Some n \<Longrightarrow> join cs \<noteq> p"
  shows "tree_wf (lk(p := None))"
  unfolding tree_wf_def
proof (intro allI impI)
  fix q m
  assume q: "(lk(p := None)) q = Some m"
  then have "node_wf lk q m" using assms(1) by (auto simp: tree_wf_def split: if_splits)
  then obtain cs c where cs: "components (cs @ [c])" "q = join (cs @ [c])" "dir_at lk (join cs)"
      "node_path m = q" "q \<notin> set BASE_DIRS" by (auto simp: node_wf_def)
  have "join cs \<noteq> p" using assms(2) cs(1,2) q by (auto split: if_splits)
  then have "dir_at (lk(p := None)) (join cs)" using cs(3) by (auto simp: dir_at_def)
  then show "node_wf (lk(p := None)) q m" using cs by (auto simp: node_wf_def)
qed

text \<open>Every proper ancestor of a node is a directory.\<close>

lemma tree_ancestor:
  assumes "tree_wf lk" "components (cs @ ds)" "ds \<noteq> []" "lk (join (cs @ ds)) = Some n"
  shows "dir_at lk (join cs)"
  using assms
proof (induction ds arbitrary: n rule: rev_induct)
  case (snoc d ds)
  have "node_wf lk (join ((cs @ ds) @ [d])) n" using snoc.prems by (simp add: tree_wf_def)
  then obtain es e where es: "components (es @ [e])" "join ((cs @ ds) @ [d]) = join (es @ [e])" "dir_at lk (join es)"
    by (auto simp: node_wf_def)
  have "(cs @ ds) @ [d] = es @ [e]" using es(1,2) snoc.prems(2) join_inj [of "(cs @ ds) @ [d]" "es @ [e]"] by simp
  then have up: "dir_at lk (join (cs @ ds))" using es(3) by simp
  show ?case
  proof (cases "ds = []")
    case True
    then show ?thesis using up by simp
  next
    case False
    have comp: "components (cs @ ds)" using snoc.prems(2) by simp
    show ?thesis
    proof (cases "\<exists>m. lk (join (cs @ ds)) = Some m")
      case True
      then show ?thesis using snoc.IH [OF snoc.prems(1) comp False] by blast
    next
      case nol: False
      then have "join (cs @ ds) \<in> set BASE_DIRS" using up False comp join_eq_Nil [OF comp] by (auto simp: dir_at_def)
      then have "slash \<notin> set (join (cs @ ds))" by (auto simp: BASE_DIRS_def)
      then have "cs = []" using False by (cases "cs = []") (auto simp: join_append)
      then show ?thesis by (simp add: dir_at_def)
    qed
  qed
qed simp

section \<open>The operations as tree updates\<close>

lemma lookup_push:
  assumes "lookup fs clean = None"
  shows "lookup (push_node clean t fs) = (lookup fs)(clean \<mapsto> \<lparr>node_path = clean, node_kind = t, node_data = Owned []\<rparr>)"
proof
  fix p
  have "find P (xs @ [x]) = (case find P xs of None \<Rightarrow> if P x then Some x else None | Some y \<Rightarrow> Some y)"
    for P and xs :: "mem_node list" and x by (induction xs) auto
  then show "lookup (push_node clean t fs) p =
      ((lookup fs)(clean \<mapsto> \<lparr>node_path = clean, node_kind = t, node_data = Owned []\<rparr>)) p"
    using assms by (auto simp: lookup_def push_node_def split: option.splits)
qed

lemma push_node_ok:
  assumes "memfs_ok fs" "components (cs @ [c])" "lookup fs (join (cs @ [c])) = None"
    and "join (cs @ [c]) \<notin> set BASE_DIRS" "dir_at (lookup fs) (join cs)"
  shows "memfs_ok (push_node (join (cs @ [c])) t fs)"
proof -
  have "join (cs @ [c]) \<notin> node_path ` set (nodes fs)"
    using assms(1,3) lookup_in [of fs "join (cs @ [c])"] by (fastforce simp: memfs_ok_def)
  then have "distinct (map node_path (nodes (push_node (join (cs @ [c])) t fs)))"
    using assms(1) by (simp add: memfs_ok_def push_node_def)
  moreover have "tree_wf (lookup (push_node (join (cs @ [c])) t fs))"
    unfolding lookup_push [OF assms(3)]
    by (rule tree_wf_add) (use assms in \<open>auto simp: memfs_ok_def node_wf_def simp del: components_append\<close>)
  ultimately show ?thesis by (simp add: memfs_ok_def)
qed

lemma map_update_same: "i < length xs \<Longrightarrow> f y = f (xs ! i) \<Longrightarrow> map f (xs[i := y]) = map f xs"
  by (metis list_update_id map_update)

lemma find_update:
  "distinct (map node_path xs) \<Longrightarrow> i < length xs \<Longrightarrow> node_path m = node_path (xs ! i) \<Longrightarrow>
     find (\<lambda>n. node_path n = p) (xs[i := m]) = (if p = node_path m then Some m else find (\<lambda>n. node_path n = p) xs)"
proof (induction xs arbitrary: i)
  case (Cons x xs)
  show ?case
  proof (cases i)
    case 0
    then show ?thesis using Cons.prems by auto
  next
    case (Suc j)
    then have "node_path x \<noteq> node_path m" using Cons.prems by (auto simp: image_iff)
    then show ?thesis using Cons.IH [of j] Cons.prems Suc by auto
  qed
qed simp

lemma lookup_update:
  assumes "distinct (map node_path (nodes fs))" "i < length (nodes fs)" "node_path m = node_path (nodes fs ! i)"
  shows "lookup (fs\<lparr>nodes := (nodes fs)[i := m]\<rparr>) = (lookup fs)(node_path m \<mapsto> m)"
  by (rule ext) (simp add: lookup_def find_update [OF assms])

lemma find_remove:
  "distinct (map node_path xs) \<Longrightarrow> i < length xs \<Longrightarrow>
     find (\<lambda>n. node_path n = p) (remove_nth i xs) =
       (if p = node_path (xs ! i) then None else find (\<lambda>n. node_path n = p) xs)"
proof (induction xs arbitrary: i)
  case (Cons x xs)
  show ?case
  proof (cases i)
    case 0
    then show ?thesis using Cons.prems by (auto simp: find_None_iff image_iff)
  next
    case (Suc j)
    then have "node_path x \<noteq> node_path (xs ! j)" using Cons.prems by (auto simp: image_iff)
    then show ?thesis using Cons.IH [of j] Cons.prems Suc by (auto simp: remove_nth_def)
  qed
qed simp

lemma lookup_remove:
  assumes "distinct (map node_path (nodes fs))" "i < length (nodes fs)"
  shows "lookup (fs\<lparr>nodes := remove_nth i (nodes fs)\<rparr>) = (lookup fs)(node_path (nodes fs ! i) := None)"
  by (rule ext) (simp add: lookup_def find_remove [OF assms])

lemma lookup_cong: "nodes fs' = nodes fs \<Longrightarrow> lookup fs' = lookup fs"
  by (simp add: lookup_def fun_eq_iff)

lemma memfs_ok_cong: "nodes fs' = nodes fs \<Longrightarrow> memfs_ok fs' \<longleftrightarrow> memfs_ok fs"
  using lookup_cong [of fs' fs] by (simp add: memfs_ok_def)

lemma node_update_ok:
  assumes "memfs_ok fs" "i < length (nodes fs)" "node_path m = node_path (nodes fs ! i)"
    and "node_kind (nodes fs ! i) = Directory \<Longrightarrow> node_kind m = Directory"
  shows "memfs_ok (fs\<lparr>nodes := (nodes fs)[i := m]\<rparr>)"
proof -
  have d: "distinct (map node_path (nodes fs))" and t: "tree_wf (lookup fs)" using assms(1) by (auto simp: memfs_ok_def)
  have "lookup fs (node_path m) = Some (nodes fs ! i)" using lookup_in [OF d] assms(2,3) by simp
  then have "tree_wf (lookup (fs\<lparr>nodes := (nodes fs)[i := m]\<rparr>))"
    unfolding lookup_update [OF d assms(2,3)] by (rule tree_wf_update [OF t _ refl]) (use assms(4) in auto)
  then show ?thesis using d by (simp add: memfs_ok_def map_update_same [OF assms(2,3)])
qed

lemma set_data_ok: "memfs_ok fs \<Longrightarrow> i < length (nodes fs) \<Longrightarrow> memfs_ok (set_data i d fs)"
  unfolding set_data_def by (rule node_update_ok) auto

lemma set_offset_ok: "memfs_ok (set_offset i off fs) \<longleftrightarrow> memfs_ok fs"
  by (rule memfs_ok_cong) (simp add: set_offset_def)

lemma node_remove_ok:
  assumes "memfs_ok fs" "i < length (nodes fs)"
    and "\<And>cs c n. components (cs @ [c]) \<Longrightarrow> lookup fs (join (cs @ [c])) = Some n \<Longrightarrow> join cs \<noteq> node_path (nodes fs ! i)"
  shows "memfs_ok (fs\<lparr>nodes := remove_nth i (nodes fs)\<rparr>)"
proof -
  have d: "distinct (map node_path (nodes fs))" and t: "tree_wf (lookup fs)" using assms(1) by (auto simp: memfs_ok_def)
  have "map node_path (remove_nth i (nodes fs)) = remove_nth i (map node_path (nodes fs))"
    by (simp add: remove_nth_def take_map drop_map)
  then have "distinct (map node_path (remove_nth i (nodes fs)))" using d distinct_remove_nth by metis
  moreover have "tree_wf (lookup (fs\<lparr>nodes := remove_nth i (nodes fs)\<rparr>))"
    unfolding lookup_remove [OF d assms(2)] using assms(3) by (intro tree_wf_delete [OF t])
  ultimately show ?thesis by (simp add: memfs_ok_def)
qed

lemma base_dir_no_slash: "p \<in> set BASE_DIRS \<Longrightarrow> slash \<notin> set p"
  by (auto simp: BASE_DIRS_def)

lemma join_not_base: "cs \<noteq> [] \<Longrightarrow> ds \<noteq> [] \<Longrightarrow> join (cs @ ds) \<notin> set BASE_DIRS"
  using base_dir_no_slash [of "join (cs @ ds)"] by (auto simp: join_append)

lemma rel_path_split:
  assumes "rel_path p" "trim_slash p \<noteq> ''''"
  obtains cs c where "components (cs @ [c])" "trim_slash p = join (cs @ [c])"
proof -
  obtain ds where ds: "components ds" "trim_slash p = join ds" using assms(1) by (auto simp: rel_path_def)
  then have "ds \<noteq> []" using assms(2) by auto
  then show thesis using that ds by (metis append_butlast_last_id)
qed

lemma make_ok:
  assumes "memfs_ok fs" "rel_path p" "trim_slash p \<noteq> ''''" "node_type (trim_slash p) fs = None" "parent_exists (trim_slash p) fs"
  shows "memfs_ok (push_node (trim_slash p) t fs)"
proof -
  obtain cs c where c: "components (cs @ [c])" "trim_slash p = join (cs @ [c])" using rel_path_split assms(2,3) by metis
  have "join (cs @ [c]) \<notin> set BASE_DIRS" "lookup fs (join (cs @ [c])) = None"
    using assms(4) c node_type_join [OF c(1), of fs] by (auto split: if_splits)
  moreover have "dir_at (lookup fs) (join cs)" using assms(5) c parent_exists_join [OF c(1)] by simp
  ultimately show ?thesis using push_node_ok [OF assms(1) c(1)] c(2) by simp
qed

lemma mem_create_ok: "memfs_ok fs \<Longrightarrow> rel_path p \<Longrightarrow> memfs_ok (fst (mem_create p fs))"
  by (auto simp: mem_create_def Let_def make_ok)

lemma mem_mkdir_ok: "memfs_ok fs \<Longrightarrow> rel_path p \<Longrightarrow> memfs_ok (fst (mem_mkdir p fs))"
  by (auto simp: mem_mkdir_def Let_def make_ok)

lemma add_data_ok:
  assumes "memfs_ok fs" "rel_path p"
  shows "memfs_ok (add_data p d fs)"
  using mem_create_ok [OF assms]
  by (cases rule: node_index_cases [of p "fst (mem_create p fs)"]) (auto simp: add_data_def Let_def intro: set_data_ok)

lemma add_device_ok:
  assumes "memfs_ok fs" "rel_path p" "node_type p fs \<noteq> Some Directory"
  shows "memfs_ok (add_device p fs)"
proof (cases "trim_slash p = '''' \<or> \<not> parent_exists (trim_slash p) fs")
  case True
  then show ?thesis using assms(1) by (simp add: add_device_def Let_def)
next
  case False
  obtain cs where cs: "components cs" "trim_slash p = join cs" using assms(2) by (auto simp: rel_path_def)
  have nt: "node_type (join cs) fs \<noteq> Some Directory"
    using assms(3) cs by (simp add: node_type_def node_index_def Let_def)
  show ?thesis
  proof (cases rule: node_index_cases [of "trim_slash p" fs])
    case none
    then have "node_type (trim_slash p) fs = None" using nt cs by (simp add: node_type_join split: if_splits)
    then show ?thesis using make_ok [OF assms(1,2)] False none by (simp add: add_device_def Let_def)
  next
    case (found i)
    have "node_kind (nodes fs ! i) \<noteq> Directory" using nt found(2) cs by (simp add: node_type_join split: if_splits)
    then have "memfs_ok (fs\<lparr>nodes := (nodes fs)[i := (nodes fs ! i)\<lparr>node_kind := Device, node_data := Owned []\<rparr>]\<rparr>)"
      by (intro node_update_ok [OF assms(1) found(3)]) auto
    then show ?thesis using False found(1) by (simp add: add_device_def Let_def)
  qed
qed

lemma node_wf_proper: "node_wf lk p n \<Longrightarrow> p \<noteq> '''' \<and> p \<notin> set BASE_DIRS \<and> node_path n = p"
  unfolding node_wf_def by (metis append_is_Nil_conv join_eq_Nil list.distinct(1))

lemma mem_remove_ok:
  assumes "memfs_ok fs" "rel_path p"
  shows "memfs_ok (fst (mem_remove p fs))"
proof (cases rule: node_index_cases [of "trim_slash p" fs])
  case none
  then show ?thesis using assms(1) by (simp add: mem_remove_def Let_def)
next
  case (found i)
  obtain cs where cs: "components cs" "trim_slash p = join cs" using assms(2) by (auto simp: rel_path_def)
  have wf: "node_wf (lookup fs) (join cs) (nodes fs ! i)" using assms(1) found(2) cs by (auto simp: memfs_ok_def tree_wf_def)
  have del: "memfs_ok (fs\<lparr>nodes := remove_nth i (nodes fs)\<rparr>)" if plain: "node_kind (nodes fs ! i) = File"
  proof (rule node_remove_ok [OF assms(1) found(3)])
    fix ds d n
    assume a: "components (ds @ [d])" "lookup fs (join (ds @ [d])) = Some n"
    have "dir_at (lookup fs) (join ds)"
      by (rule tree_ancestor [of "lookup fs" ds "[d]"]) (use a assms(1) in \<open>auto simp: memfs_ok_def\<close>)
    then show "join ds \<noteq> node_path (nodes fs ! i)"
      using node_wf_proper [OF wf] plain found(2) cs by (auto simp: dir_at_def)
  qed
  then show ?thesis using assms(1) found(1)
      memfs_ok_cong [of "fs\<lparr>nodes := remove_nth i (nodes fs),
        open_handles := filter (\<lambda>(_, mh). mh_path mh \<noteq> trim_slash p) (open_handles fs)\<rparr>" "fs\<lparr>nodes := remove_nth i (nodes fs)\<rparr>"]
    by (auto simp: mem_remove_def Let_def)
qed

lemma mem_remove_dir_ok:
  assumes "memfs_ok fs" "rel_path p"
  shows "memfs_ok (fst (mem_remove_dir p fs))"
proof (cases rule: node_index_cases [of "trim_slash p" fs])
  case none
  then show ?thesis using assms(1) by (simp add: mem_remove_dir_def Let_def)
next
  case (found i)
  obtain cs where cs: "components cs" "trim_slash p = join cs" using assms(2) by (auto simp: rel_path_def)
  have "memfs_ok (fs\<lparr>nodes := remove_nth i (nodes fs)\<rparr>)"
    if ne: "trim_slash p \<noteq> ''''" and empty: "\<forall>n \<in> set (nodes fs). \<not> starts_with (node_path n) (trim_slash p @ [slash])"
  proof (rule node_remove_ok [OF assms(1) found(3)])
    fix ds d n
    assume a: "components (ds @ [d])" "lookup fs (join (ds @ [d])) = Some n"
    then have n: "n \<in> set (nodes fs)" "node_path n = join (ds @ [d])"
      using lookup_in [of fs "join (ds @ [d])" n] assms(1) by (auto simp: memfs_ok_def)
    show "join ds \<noteq> node_path (nodes fs ! i)"
    proof
      assume eq: "join ds = node_path (nodes fs ! i)"
      then have "ds = cs" using a(1) cs found(4) join_inj [of ds cs] by simp
      then have "cs \<noteq> []" "starts_with (node_path n) (trim_slash p @ [slash])"
        using ne n(2) cs(2) by (auto simp: starts_with_iff join_snoc)
      then show False using empty n(1) by blast
    qed
  qed
  then show ?thesis using assms(1) found(1) by (auto simp: mem_remove_dir_def Let_def)
qed

section \<open>Renaming\<close>

definition move :: "string list \<Rightarrow> string list \<Rightarrow> string list \<Rightarrow> string list" where
  "move os ns ds = (if take (length os) ds = os then ns @ drop (length os) ds else ds)"

definition moved_path :: "string \<Rightarrow> string \<Rightarrow> string \<Rightarrow> string" where
  "moved_path old new p = (if p = old then new else rehome old new p)"

text \<open>What the checks of a rename establish.\<close>

definition rename_ready :: "memfs \<Rightarrow> string list \<Rightarrow> string list \<Rightarrow> nat \<Rightarrow> bool" where
  "rename_ready fs os ns i \<longleftrightarrow> memfs_ok fs \<and> os \<noteq> [] \<and> ns \<noteq> [] \<and> components os \<and> components ns \<and>
     take (length os) ns \<noteq> os \<and> node_index (join os) fs = Some i \<and>
     node_type (join ns) fs = None \<and> parent_exists (join ns) fs"

lemma prefix_split: "take (length os) ds = os \<longleftrightarrow> (\<exists>es. ds = os @ es)"
  by (metis append_eq_conv_conj append_take_drop_id)

lemma moved_path_join:
  assumes "components os" "components ds" "os \<noteq> []" "ns \<noteq> []" "ds \<noteq> []"
  shows "moved_path (join os) (join ns) (join ds) = join (move os ns ds)"
proof (cases "take (length os) ds = os")
  case True
  then obtain es where es: "ds = os @ es" unfolding prefix_split by blast
  show ?thesis
  proof (cases "es = []")
    case True
    then show ?thesis using es by (simp add: moved_path_def move_def)
  next
    case False
    have "join ds \<noteq> join os" using es False assms join_inj [of ds os] by simp
    moreover have "starts_with (join ds) (join os @ [slash])" using starts_with_join [OF assms(1,2,3)] es False by blast
    ultimately show ?thesis using es False assms by (simp add: moved_path_def rehome_def move_def join_append)
  qed
next
  case False
  have "join ds \<noteq> join os" using False assms join_inj [of ds os] by auto
  moreover have "\<not> starts_with (join ds) (join os @ [slash])"
    using starts_with_join [OF assms(1,2,3)] False unfolding prefix_split by blast
  ultimately show ?thesis using False by (simp add: moved_path_def rehome_def move_def)
qed

lemma node_comps:
  assumes "memfs_ok fs" "n \<in> set (nodes fs)"
  obtains ds where "ds \<noteq> []" "components ds" "node_path n = join ds" "lookup fs (join ds) = Some n"
proof -
  have "lookup fs (node_path n) = Some n" using assms lookup_in [of fs "node_path n" n] by (simp add: memfs_ok_def)
  moreover from this have "node_wf (lookup fs) (node_path n) n" using assms(1) by (auto simp: memfs_ok_def tree_wf_def)
  moreover from this obtain cs c where "components (cs @ [c])" "node_path n = join (cs @ [c])"
    unfolding node_wf_def by blast
  ultimately show thesis using that [of "cs @ [c]"] by simp
qed

lemma no_node_under_new:
  assumes "rename_ready fs os ns i" "components (ns @ es)"
  shows "lookup fs (join (ns @ es)) = None"
proof (rule ccontr)
  assume "lookup fs (join (ns @ es)) \<noteq> None"
  then obtain n where n: "lookup fs (join (ns @ es)) = Some n" by blast
  have nt: "join ns \<notin> set BASE_DIRS" "lookup fs (join ns) = None" "ns \<noteq> []" "components ns" "tree_wf (lookup fs)"
    using assms(1) node_type_join [of ns fs] by (auto simp: rename_ready_def memfs_ok_def split: if_splits)
  then have "es \<noteq> []" using n by auto
  then have "dir_at (lookup fs) (join ns)" using tree_ancestor [OF nt(5) assms(2) _ n] by simp
  then show False using nt join_eq_Nil [OF nt(4)] by (auto simp: dir_at_def)
qed

lemma move_inj:
  assumes "rename_ready fs os ns i" "components ds" "components es" "move os ns ds = move os ns es"
    and "lookup fs (join ds) \<noteq> None" "lookup fs (join es) \<noteq> None"
  shows "ds = es"
proof -
  have none: "\<And>xs. components (ns @ xs) \<Longrightarrow> lookup fs (join (ns @ xs)) = None" using no_node_under_new [OF assms(1)] .
  show ?thesis
  proof (cases "take (length os) ds = os"; cases "take (length os) es = os")
    assume "take (length os) ds = os" "take (length os) es = os"
    then show ?thesis using assms(4) unfolding prefix_split by (auto simp: move_def)
  next
    assume "take (length os) ds = os" "take (length os) es \<noteq> os"
    then have "es = ns @ drop (length os) ds" using assms(4) by (simp add: move_def)
    then show ?thesis using none assms(3,6) by auto
  next
    assume "take (length os) ds \<noteq> os" "take (length os) es = os"
    then have "ds = ns @ drop (length os) es" using assms(4) by (simp add: move_def)
    then show ?thesis using none assms(2,5) by auto
  next
    assume "take (length os) ds \<noteq> os" "take (length os) es \<noteq> os"
    then show ?thesis using assms(4) by (simp add: move_def)
  qed
qed

lemma renamed_nodes:
  assumes "rename_ready fs os ns i"
  shows "(if node_kind (nodes fs ! i) = Directory
     then map (\<lambda>n. n\<lparr>node_path := rehome (join os) (join ns) (node_path n)\<rparr>) ((nodes fs)[i := (nodes fs ! i)\<lparr>node_path := join ns\<rparr>])
     else (nodes fs)[i := (nodes fs ! i)\<lparr>node_path := join ns\<rparr>]) =
    map (\<lambda>n. n\<lparr>node_path := moved_path (join os) (join ns) (node_path n)\<rparr>) (nodes fs)"
proof -
  have ok: "memfs_ok fs" "distinct (map node_path (nodes fs))" "tree_wf (lookup fs)" and c: "components os" "components ns"
    and ne: "os \<noteq> []" "ns \<noteq> []" and pre: "take (length os) ns \<noteq> os"
    using assms by (auto simp: rename_ready_def memfs_ok_def)
  have i: "i < length (nodes fs)" "node_path (nodes fs ! i) = join os" "lookup fs (join os) = Some (nodes fs ! i)"
    using node_index_Some [of "join os" fs i] lookup_path assms c by (auto simp: rename_ready_def)
  have stay: "rehome (join os) (join ns) (join ns) = join ns"
    using starts_with_join [OF c ne(1)] pre unfolding prefix_split by (auto simp: rehome_def)
  have other: "node_path (nodes fs ! j) \<noteq> join os" if "j < length (nodes fs)" "j \<noteq> i" for j
    using that i ok(2) by (metis distinct_conv_nth length_map nth_map)
  have leaf: "rehome (join os) (join ns) (node_path (nodes fs ! j)) = node_path (nodes fs ! j)"
    if lt: "j < length (nodes fs)" and nodir: "node_kind (nodes fs ! i) \<noteq> Directory" for j
  proof -
    obtain ds where ds: "components ds" "node_path (nodes fs ! j) = join ds" "lookup fs (join ds) = Some (nodes fs ! j)"
      using node_comps [OF ok(1) nth_mem [OF lt]] by blast
    have "\<not> (\<exists>es. es \<noteq> [] \<and> ds = os @ es)"
    proof
      assume "\<exists>es. es \<noteq> [] \<and> ds = os @ es"
      then obtain es where "es \<noteq> []" "ds = os @ es" by blast
      then have "dir_at (lookup fs) (join os)" using tree_ancestor [OF ok(3)] ds(1,3) by blast
      moreover have "node_wf (lookup fs) (join os) (nodes fs ! i)" using ok(3) i(3) by (auto simp: tree_wf_def)
      ultimately show False using node_wf_proper i(3) nodir by (fastforce simp: dir_at_def)
    qed
    then show ?thesis using starts_with_join [OF c(1) ds(1) ne(1)] ds(2) by (auto simp: rehome_def)
  qed
  show ?thesis
    by (rule nth_equalityI)
      (use i stay other leaf in \<open>auto simp: nth_list_update moved_path_def\<close>)
qed

lemma renamed_ok_lookup:
  assumes "rename_ready fs os ns i"
    and "nodes fs' = map (\<lambda>n. n\<lparr>node_path := moved_path (join os) (join ns) (node_path n)\<rparr>) (nodes fs)"
  shows "distinct (map node_path (nodes fs')) \<and>
    (\<forall>ds n. ds \<noteq> [] \<longrightarrow> components ds \<longrightarrow> lookup fs (join ds) = Some n \<longrightarrow>
       lookup fs' (join (move os ns ds)) = Some (n\<lparr>node_path := join (move os ns ds)\<rparr>)) \<and>
    (\<forall>q m. lookup fs' q = Some m \<longrightarrow>
       (\<exists>ds n. ds \<noteq> [] \<and> components ds \<and> lookup fs (join ds) = Some n \<and> q = join (move os ns ds) \<and>
          m = n\<lparr>node_path := join (move os ns ds)\<rparr>))"
proof -
  have ok: "memfs_ok fs" "distinct (map node_path (nodes fs))" and c: "components os" "components ns"
    and ne: "os \<noteq> []" "ns \<noteq> []" using assms(1) by (auto simp: rename_ready_def memfs_ok_def)
  let ?mv = "\<lambda>n. moved_path (join os) (join ns) (node_path n)"
  have comps_move: "components (move os ns ds)" if "components ds" for ds
    using that c by (auto simp: move_def components_def dest: in_set_dropD)
  have "inj_on ?mv (set (nodes fs))"
  proof (rule inj_onI)
    fix x y
    assume xy: "x \<in> set (nodes fs)" "y \<in> set (nodes fs)" "?mv x = ?mv y"
    obtain ds es where d: "ds \<noteq> []" "components ds" "node_path x = join ds" "lookup fs (join ds) = Some x"
      and e: "es \<noteq> []" "components es" "node_path y = join es" "lookup fs (join es) = Some y"
      using node_comps [OF ok(1)] xy by metis
    have "join (move os ns ds) = join (move os ns es)" using xy(3) d e moved_path_join c ne by simp
    then have "move os ns ds = move os ns es" using comps_move d(2) e(2) join_inj by blast
    then have "ds = es" using move_inj [OF assms(1) d(2) e(2)] d(4) e(4) by simp
    then show "x = y" using d(4) e(4) by simp
  qed
  then have dist: "distinct (map node_path (nodes fs'))"
    using ok(2) assms(2) by (simp add: distinct_map comp_def)
  have lk: "lookup fs' q = Some m \<longleftrightarrow> (\<exists>n \<in> set (nodes fs). ?mv n = q \<and> m = n\<lparr>node_path := ?mv n\<rparr>)" for q m
    using lookup_in [OF dist, of q m] assms(2) by auto
  have "lookup fs' (join (move os ns ds)) = Some (n\<lparr>node_path := join (move os ns ds)\<rparr>)"
    if "ds \<noteq> []" "components ds" "lookup fs (join ds) = Some n" for ds n
    unfolding lk using that lookup_in [OF ok(2), of "join ds" n] moved_path_join [OF c(1) that(2) ne(1) ne(2) that(1)]
    by (intro bexI [of _ n]) auto
  moreover have "\<exists>ds n. ds \<noteq> [] \<and> components ds \<and> lookup fs (join ds) = Some n \<and> q = join (move os ns ds) \<and>
      m = n\<lparr>node_path := join (move os ns ds)\<rparr>" if found: "lookup fs' q = Some m" for q m
  proof -
    obtain n where n: "n \<in> set (nodes fs)" "?mv n = q" "m = n\<lparr>node_path := ?mv n\<rparr>" using found unfolding lk by blast
    obtain ds where d: "ds \<noteq> []" "components ds" "node_path n = join ds" "lookup fs (join ds) = Some n"
      using node_comps [OF ok(1) n(1)] by blast
    show ?thesis using d n moved_path_join [OF c(1) d(2) ne(1) ne(2) d(1)] by auto
  qed
  ultimately show ?thesis using dist by blast
qed

lemma renamed_tree_wf:
  assumes "rename_ready fs os ns i"
    and "nodes fs' = map (\<lambda>n. n\<lparr>node_path := moved_path (join os) (join ns) (node_path n)\<rparr>) (nodes fs)"
  shows "tree_wf (lookup fs')"
  unfolding tree_wf_def
proof (intro allI impI)
  fix q m
  assume "lookup fs' q = Some m"
  have c: "components os" "components ns" and ne: "os \<noteq> []" "ns \<noteq> []" and pre: "take (length os) ns \<noteq> os"
    and wf: "tree_wf (lookup fs)" and nt: "node_type (join ns) fs = None" and par: "parent_exists (join ns) fs"
    using assms(1) by (auto simp: rename_ready_def memfs_ok_def)
  note lk = renamed_ok_lookup [OF assms]
  have fwd: "lookup fs' (join (move os ns ds)) = Some (n\<lparr>node_path := join (move os ns ds)\<rparr>)"
    if "ds \<noteq> []" "components ds" "lookup fs (join ds) = Some n" for ds n
    using lk that by simp
  obtain ds n where d: "ds \<noteq> []" "components ds" "lookup fs (join ds) = Some n" "q = join (move os ns ds)"
      "m = n\<lparr>node_path := join (move os ns ds)\<rparr>" using lk \<open>lookup fs' q = Some m\<close> by blast
  have proper: "join os \<notin> set BASE_DIRS"
    using node_index_Some [of "join os" fs i] assms(1) wf node_wf_proper c by (fastforce simp: rename_ready_def tree_wf_def)
  have new: "join ns \<notin> set BASE_DIRS" using nt c node_type_join [of ns fs] by (auto split: if_splits)
  have dwf: "node_wf (lookup fs) (join ds) n" using wf d(3) by (auto simp: tree_wf_def)
  have lift: "dir_at (lookup fs') (join (move os ns es))"
    if es: "components es" "dir_at (lookup fs) (join es)" "es \<noteq> []" "join es \<notin> set BASE_DIRS" for es
    using es fwd [of es] join_eq_Nil [OF es(1)] by (fastforce simp: dir_at_def)
  have keep: "dir_at (lookup fs') (join es)"
    if es: "components es" "dir_at (lookup fs) (join es)" "take (length os) es \<noteq> os" for es
    using lift [of es] es by (cases "es = [] \<or> join es \<in> set BASE_DIRS") (auto simp: dir_at_def move_def)
  show "node_wf (lookup fs') q m"
  proof (cases "take (length os) ds = os")
    case False
    then have stay: "move os ns ds = ds" by (simp add: move_def)
    obtain cs e where e: "components (cs @ [e])" "join ds = join (cs @ [e])" "dir_at (lookup fs) (join cs)"
      using dwf by (auto simp: node_wf_def simp del: components_append)
    then have ds: "ds = cs @ [e]" using join_inj d(2) by blast
    then have "take (length os) cs \<noteq> os" using False unfolding prefix_split by auto
    then have "dir_at (lookup fs') (join cs)" using keep e(1,3) by simp
    then show ?thesis using d(4,5) stay e ds node_wf_proper [OF dwf] unfolding node_wf_def by auto
  next
    case True
    then obtain es where es: "ds = os @ es" unfolding prefix_split by blast
    then have mv: "move os ns ds = ns @ es" by (simp add: move_def)
    have nb: "join (ns @ es) \<notin> set BASE_DIRS" using new join_not_base [OF ne(2), of es] by (cases "es = []") auto
    have comp: "components (ns @ es)" using c d(2) es by simp
    show ?thesis
    proof (cases es rule: rev_cases)
      case Nil
      obtain ps p where ps: "ns = ps @ [p]" using ne(2) by (metis append_butlast_last_id)
      then have "dir_at (lookup fs) (join ps)" using par parent_exists_join c(2) by simp
      moreover have "take (length os) ps \<noteq> os" using pre ps unfolding prefix_split by auto
      ultimately have "dir_at (lookup fs') (join ps)" using keep ps c(2) by simp
      then show ?thesis using d(4,5) mv Nil nb ps c(2) unfolding node_wf_def by auto
    next
      case (snoc es' e)
      have "dir_at (lookup fs) (join (os @ es'))"
        using tree_ancestor [OF wf, of "os @ es'" "[e]" n] d es snoc by simp
      moreover have "join (os @ es') \<notin> set BASE_DIRS" using proper join_not_base [OF ne(1), of es'] by (cases "es' = []") auto
      ultimately have "dir_at (lookup fs') (join (ns @ es'))"
        using lift [of "os @ es'"] ne(1) d(2) es snoc by (simp add: move_def)
      then show ?thesis using d(4,5) mv snoc nb comp unfolding node_wf_def
        by (intro conjI exI [of _ "ns @ es'"] exI [of _ e]) auto
    qed
  qed
qed

lemma mem_rename_cases:
  assumes "memfs_ok fs" "components os" "components ns" "mem_rename (join os) (join ns) fs = (fs', r)"
  obtains (failed) e where "r = Inl e" "fs' = fs"
  | (same) "r = Inr ()" "fs' = fs" "os = ns"
  | (moved) i where "r = Inr ()" "rename_ready fs os ns i" "\<not> is_static (node_data (nodes fs ! i))"
      "nodes fs' = map (\<lambda>n. n\<lparr>node_path := moved_path (join os) (join ns) (node_path n)\<rparr>) (nodes fs)"
proof -
  note d = assms(4) [unfolded mem_rename_def Let_def trim_join [OF assms(2)] trim_join [OF assms(3)]]
  show thesis
  proof (cases "join os = '''' \<or> join ns = ''''")
    case True
    then show thesis using d failed by auto
  next
    case ne: False
    then have nn: "os \<noteq> []" "ns \<noteq> []" by auto
    show thesis
    proof (cases "join os = join ns")
      case True
      then show thesis using d ne same join_inj [OF assms(2,3)] by auto
    next
      case diff: False
      show thesis
      proof (cases "starts_with (join ns) (join os @ [slash]) \<or> node_index (join os) fs = None")
        case True
        then show thesis using d ne diff failed by (auto split: if_splits)
      next
        case False
        then obtain i where i: "node_index (join os) fs = Some i" by auto
        have pre: "take (length os) ns \<noteq> os"
          using starts_with_join [OF assms(2,3) nn(1)] False diff unfolding prefix_split by (metis append_Nil2)
        show thesis
        proof (cases "is_static (node_data (nodes fs ! i)) \<or> node_type (join ns) fs \<noteq> None \<or> \<not> parent_exists (join ns) fs")
          case True
          then show thesis using d ne diff False i failed by (auto split: if_splits)
        next
          case go: False
          then have ready: "rename_ready fs os ns i" using assms nn pre i by (simp add: rename_ready_def)
          have "r = Inr ()" "nodes fs' = (if node_kind (nodes fs ! i) = Directory
             then map (\<lambda>n. n\<lparr>node_path := rehome (join os) (join ns) (node_path n)\<rparr>) ((nodes fs)[i := (nodes fs ! i)\<lparr>node_path := join ns\<rparr>])
             else (nodes fs)[i := (nodes fs ! i)\<lparr>node_path := join ns\<rparr>])"
            using d ne diff False i go by auto
          then show thesis using moved [OF _ ready] go renamed_nodes [OF ready] by simp
        qed
      qed
    qed
  qed
qed

lemma mem_rename_trim:
  "trim_slash p = join os \<Longrightarrow> components os \<Longrightarrow> trim_slash q = join ns \<Longrightarrow> components ns \<Longrightarrow>
     mem_rename p q fs = mem_rename (join os) (join ns) fs"
  by (simp add: mem_rename_def)

lemma mem_rename_ok:
  assumes "memfs_ok fs" "rel_path p" "rel_path q"
  shows "memfs_ok (fst (mem_rename p q fs))"
proof -
  obtain os ns where c: "components os" "trim_slash p = join os" "components ns" "trim_slash q = join ns"
    using assms(2,3) by (auto simp: rel_path_def)
  obtain fs' r where r: "mem_rename (join os) (join ns) fs = (fs', r)" by fastforce
  have "memfs_ok fs'"
    by (cases rule: mem_rename_cases [OF assms(1) c(1,3) r])
      (use assms(1) renamed_ok_lookup renamed_tree_wf in \<open>auto simp: memfs_ok_def\<close>)
  then show ?thesis using mem_rename_trim [OF c(2,1,4,3)] r by simp
qed

lemma mem_truncate_ok:
  assumes "memfs_ok fs"
  shows "memfs_ok (fst (mem_truncate p fs))"
  using assms set_data_ok [OF assms]
  by (cases rule: node_index_cases [of "trim_slash p" fs])
    (auto simp: mem_truncate_def Let_def split: sum.splits)

lemma open_truncate_ok:
  "memfs_ok fs \<Longrightarrow> i < length (nodes fs) \<Longrightarrow> open_truncate fl i fs = Inr fs2 \<Longrightarrow> memfs_ok fs2"
  by (auto simp: open_truncate_def set_data_ok split: if_splits sum.splits)

lemma open_file_ok:
  assumes "memfs_ok fs"
  shows "memfs_ok (fst (open_file p fl fs))"
proof -
  have upd: "memfs_ok (fs2\<lparr>next_handle := a, open_handles := b\<rparr>)" if "memfs_ok fs2" for fs2 a b
    using that memfs_ok_cong [of "fs2\<lparr>next_handle := a, open_handles := b\<rparr>" fs2] by simp
  show ?thesis
  proof (cases rule: node_index_cases [of p fs])
    case (found i)
    then show ?thesis using assms open_truncate_ok [OF assms found(3), of fl]
      by (cases "open_truncate fl i fs") (auto simp: open_file_def Let_def upd)
  qed (use assms in \<open>simp add: open_file_def\<close>)
qed

lemma open_existing_ok: "memfs_ok fs \<Longrightarrow> memfs_ok (fst (open_existing p fl fs))"
  using open_file_ok [of fs p fl] by (auto simp: open_existing_def split: option.splits file_type.splits)

lemma mem_open_ok:
  assumes "memfs_ok fs" "rel_path p"
  shows "memfs_ok (fst (mem_open p fl fs))"
proof -
  obtain fs1 x where c: "mem_create p fs = (fs1, x)" by fastforce
  then have "memfs_ok fs1" using mem_create_ok [OF assms] by simp
  then show ?thesis using assms(1) c open_existing_ok by (cases x) (simp_all add: mem_open_def Let_def)
qed

lemma mem_write_ok:
  assumes "memfs_ok fs"
  shows "memfs_ok (fst (mem_write h buf fs))"
proof (cases "handle_index h fs")
  case (Some hi)
  have "memfs_ok (set_data i d fs)" "memfs_ok (set_offset hi off (set_data i d fs))"
    if "node_index (mh_path (snd (open_handles fs ! hi))) fs = Some i" for i d off
    using set_data_ok [OF assms] node_index_Some [OF that] by (auto simp: set_offset_ok)
  then show ?thesis using assms Some by (auto simp: mem_write_def Let_def split: option.splits sum.splits)
qed (use assms in \<open>simp add: mem_write_def\<close>)

lemma mem_ftruncate_ok:
  assumes "memfs_ok fs"
  shows "memfs_ok (fst (mem_ftruncate_handle h len fs))"
proof (cases "handle_index h fs")
  case (Some hi)
  have "memfs_ok (set_data i d fs)" if "node_index (mh_path (snd (open_handles fs ! hi))) fs = Some i" for i d
    using set_data_ok [OF assms] node_index_Some [OF that] by auto
  then show ?thesis using assms Some by (auto simp: mem_ftruncate_handle_def Let_def split: option.splits sum.splits)
qed (use assms in \<open>simp add: mem_ftruncate_handle_def\<close>)

lemma mem_read_ok: "memfs_ok fs \<Longrightarrow> memfs_ok (fst (mem_read h buf fs))"
  by (auto simp: mem_read_def Let_def set_offset_ok split: option.splits)

lemma mem_seek_ok: "memfs_ok fs \<Longrightarrow> memfs_ok (fst (mem_seek h off w fs))"
  by (auto simp: mem_seek_def Let_def set_offset_ok split: option.splits)

lemma mem_close_ok: "memfs_ok fs \<Longrightarrow> memfs_ok (fst (mem_close h fs))"
  using memfs_ok_cong [of "fs\<lparr>open_handles := _\<rparr>" fs] by (auto simp: mem_close_def split: option.splits)

inductive memfs_reach :: "memfs \<Rightarrow> bool" where
  reach_empty: "memfs_reach memfs_empty"
| reach_add: "memfs_reach fs \<Longrightarrow> rel_path p \<Longrightarrow> memfs_reach (add_data p d fs)"
| reach_device: "memfs_reach fs \<Longrightarrow> rel_path p \<Longrightarrow> node_type p fs \<noteq> Some Directory \<Longrightarrow> memfs_reach (add_device p fs)"
| reach_create: "memfs_reach fs \<Longrightarrow> rel_path p \<Longrightarrow> memfs_reach (fst (mem_create p fs))"
| reach_mkdir: "memfs_reach fs \<Longrightarrow> rel_path p \<Longrightarrow> memfs_reach (fst (mem_mkdir p fs))"
| reach_remove: "memfs_reach fs \<Longrightarrow> rel_path p \<Longrightarrow> memfs_reach (fst (mem_remove p fs))"
| reach_remove_dir: "memfs_reach fs \<Longrightarrow> rel_path p \<Longrightarrow> memfs_reach (fst (mem_remove_dir p fs))"
| reach_rename: "memfs_reach fs \<Longrightarrow> rel_path p \<Longrightarrow> rel_path q \<Longrightarrow> memfs_reach (fst (mem_rename p q fs))"
| reach_truncate: "memfs_reach fs \<Longrightarrow> memfs_reach (fst (mem_truncate p fs))"
| reach_open: "memfs_reach fs \<Longrightarrow> rel_path p \<Longrightarrow> memfs_reach (fst (mem_open p fl fs))"
| reach_read: "memfs_reach fs \<Longrightarrow> memfs_reach (fst (mem_read h buf fs))"
| reach_write: "memfs_reach fs \<Longrightarrow> memfs_reach (fst (mem_write h buf fs))"
| reach_seek: "memfs_reach fs \<Longrightarrow> memfs_reach (fst (mem_seek h off w fs))"
| reach_ftruncate: "memfs_reach fs \<Longrightarrow> memfs_reach (fst (mem_ftruncate_handle h len fs))"
| reach_close: "memfs_reach fs \<Longrightarrow> memfs_reach (fst (mem_close h fs))"

lemmas mem_ops_ok = add_data_ok add_device_ok mem_create_ok mem_mkdir_ok mem_remove_ok mem_remove_dir_ok
  mem_rename_ok mem_truncate_ok mem_open_ok mem_read_ok mem_write_ok mem_seek_ok mem_ftruncate_ok mem_close_ok

lemma memfs_reach_ok: "memfs_reach fs \<Longrightarrow> memfs_ok fs"
proof (induction rule: memfs_reach.induct)
  case reach_empty
  then show ?case by (simp add: memfs_ok_def memfs_empty_def lookup_def tree_wf_def)
qed (rule mem_ops_ok; assumption)+

section \<open>Properties\<close>


lemma components_2: "components [''tmp'', ''a'']"
  by (simp add: components_def)

lemma rel_path_tmp_a: "rel_path ''tmp/a''"
  using rel_path_join [OF components_2] by (simp add: join_def)

lemma mkdir_tmp_a: "mem_mkdir ''tmp/a'' memfs_empty =
    (\<lparr>nodes = [\<lparr>node_path = ''tmp/a'', node_kind = Directory, node_data = Owned []\<rparr>], next_handle = 1, open_handles = []\<rparr>, Inr ())"
  by code_simp


lemma renamed_lookup:
  assumes "rename_ready fs os ns i" "ds \<noteq> []" "components ds"
    and "nodes fs' = map (\<lambda>n. n\<lparr>node_path := moved_path (join os) (join ns) (node_path n)\<rparr>) (nodes fs)"
  shows "lookup fs' (join ds) =
    (if take (length ns) ds = ns then map_option (\<lambda>n. n\<lparr>node_path := join ds\<rparr>) (lookup fs (join (os @ drop (length ns) ds)))
     else if take (length os) ds = os then None else lookup fs (join ds))"
proof -
  have c: "components os" "components ns" "os \<noteq> []" using assms(1) by (auto simp: rename_ready_def)
  note lk = renamed_ok_lookup [OF assms(1,4)]
  have fwd: "lookup fs' (join (move os ns es)) = Some (n\<lparr>node_path := join (move os ns es)\<rparr>)"
    if "es \<noteq> []" "components es" "lookup fs (join es) = Some n" for es n using lk that by simp
  have bwd: "\<exists>es n. es \<noteq> [] \<and> components es \<and> lookup fs (join es) = Some n \<and> ds = move os ns es"
    if some: "lookup fs' (join ds) = Some m" for m
  proof -
    obtain es n where e: "es \<noteq> []" "components es" "lookup fs (join es) = Some n" "join ds = join (move os ns es)"
      using lk some by blast
    then have "components (move os ns es)" using c by (auto simp: move_def components_def dest: in_set_dropD)
    then show ?thesis using e assms(3) join_inj by blast
  qed
  have none: "lookup fs (join (ns @ es)) = None" if "components (ns @ es)" for es
    using no_node_under_new [OF assms(1) that] .
  show ?thesis
  proof (cases "take (length ns) ds = ns")
    case True
    then obtain es where es: "ds = ns @ es" unfolding prefix_split by blast
    then have comp: "components (os @ es)" using c assms(3) by simp
    show ?thesis
    proof (cases "lookup fs (join (os @ es))")
      case (Some n)
      then show ?thesis using fwd [of "os @ es" n] comp c(3) True es by (simp add: move_def)
    next
      case None
      have "lookup fs' (join ds) = None"
      proof (rule ccontr)
        assume "lookup fs' (join ds) \<noteq> None"
        then obtain xs n where x: "components xs" "lookup fs (join xs) = Some n" "ds = move os ns xs" using bwd by blast
        show False
        proof (cases "take (length os) xs = os")
          case True
          then have "xs = os @ es" using x(3) es unfolding prefix_split by (auto simp: move_def)
          then show False using x(2) None by simp
        next
          case False
          then show False using x es none [of es] assms(3) by (simp add: move_def)
        qed
      qed
      then show ?thesis using True es None by simp
    qed
  next
    case nns: False
    have away: "ds = xs \<and> take (length os) xs \<noteq> os" if "ds = move os ns xs" for xs
      using that nns by (auto simp: move_def split: if_splits)
    show ?thesis
    proof (cases "lookup fs' (join ds)")
      case None
      then show ?thesis using nns fwd [OF assms(2,3)]
        by (cases "lookup fs (join ds)"; cases "take (length os) ds = os") (auto simp: move_def)
    next
      case (Some m)
      then obtain n where n: "lookup fs (join ds) = Some n" "take (length os) ds \<noteq> os" using bwd away by metis
      then have "lookup fs' (join ds) = Some (n\<lparr>node_path := join ds\<rparr>)" using fwd [OF assms(2,3)] by (simp add: move_def)
      then show ?thesis using nns n lookup_path [OF n(1)] by simp
    qed
  qed
qed

text \<open>
  C18. A successful rename moves exactly the subtree: what was at the old path and below is found at
  the corresponding path below the new one with type and contents intact, nothing is left at the old
  path, and every other path is untouched.
\<close>
theorem memfs_rename_moves_subtree:
  assumes "memfs_reach fs" "components os" "components ns" "components ds" "ds \<noteq> []"
    and "mem_rename (join os) (join ns) fs = (fs', Inr ())"
  shows "lookup fs' (join ds) =
    (if take (length ns) ds = ns then map_option (\<lambda>n. n\<lparr>node_path := join ds\<rparr>) (lookup fs (join (os @ drop (length ns) ds)))
     else if take (length os) ds = os then None else lookup fs (join ds))"
  using memfs_reach_ok [OF assms(1)] assms(2,3,6)
proof (cases rule: mem_rename_cases)
  case same
  then show ?thesis using lookup_path [of fs "join ds"] unfolding prefix_split
    by (cases "lookup fs (join ds)") auto
next
  case (moved i)
  then show ?thesis using renamed_lookup [OF moved(2) assms(5,4) moved(4)] by simp
qed simp

theorem memfs_rename_moves_subtree_witness:
  "\<exists>fs fs'. memfs_reach fs \<and> mem_rename (join [''tmp'', ''a'']) (join [''usr'', ''b'']) fs = (fs', Inr ()) \<and>
     lookup fs' ''usr/b'' \<noteq> None \<and> lookup fs' ''tmp/a'' = None"
proof -
  let ?fs = "fst (mem_mkdir ''tmp/a'' memfs_empty)"
  have r: "memfs_reach ?fs" by (intro reach_mkdir reach_empty rel_path_tmp_a)
  have c: "components [''usr'', ''b'']" by (simp add: components_def)
  have n: "mem_rename (join [''tmp'', ''a'']) (join [''usr'', ''b'']) ?fs = (fst (mem_rename ''tmp/a'' ''usr/b'' ?fs), Inr ())"
    unfolding mkdir_tmp_a by code_simp
  have l: "lookup ?fs ''tmp/a'' \<noteq> None" by (simp add: mkdir_tmp_a lookup_def)
  note at = memfs_rename_moves_subtree [OF r components_2 c _ _ n]
  have "lookup (fst (mem_rename ''tmp/a'' ''usr/b'' ?fs)) ''usr/b'' \<noteq> None"
    using at [OF c] l by (simp add: join_def)
  moreover have "lookup (fst (mem_rename ''tmp/a'' ''usr/b'' ?fs)) ''tmp/a'' = None"
    using at [OF components_2] by (simp add: join_def)
  ultimately show ?thesis using r n by blast
qed


text \<open>An open file: handle \<open>h\<close> reads and writes a file with contents \<open>d\<close> at offset \<open>off\<close>.\<close>

definition file_at :: "usize \<Rightarrow> memfs \<Rightarrow> bytes \<Rightarrow> usize \<Rightarrow> bool" where
  "file_at h fs d off \<longleftrightarrow>
     (\<exists>hi ni. handle_index h fs = Some hi \<and> hi < length (open_handles fs) \<and>
        mh_offset (snd (open_handles fs ! hi)) = off \<and>
        flag_contains (mh_flags (snd (open_handles fs ! hi))) OPEN_READ \<and>
        flag_contains (mh_flags (snd (open_handles fs ! hi))) OPEN_WRITE \<and>
        \<not> flag_contains (mh_flags (snd (open_handles fs ! hi))) OPEN_APPEND \<and>
        node_index (mh_path (snd (open_handles fs ! hi))) fs = Some ni \<and> ni < length (nodes fs) \<and>
        node_kind (nodes fs ! ni) = File \<and> node_data (nodes fs ! ni) = Owned d)"

lemma position_update:
  "i < length xs \<Longrightarrow> P y = P (xs ! i) \<Longrightarrow> position P (xs[i := y]) = position P xs"
proof (induction xs arbitrary: i)
  case (Cons x xs)
  then show ?case by (cases i) auto
qed simp

lemma handle_index_offset [simp]:
  assumes "hi < length (open_handles fs)"
  shows "handle_index h (set_offset hi off fs) = handle_index h fs"
  unfolding handle_index_def set_offset_def
  using position_update [of hi "open_handles fs" "\<lambda>(k, _). k = h"] assms by (auto simp: case_prod_beta)

lemma node_index_set_data [simp]: "ni < length (nodes fs) \<Longrightarrow> node_index p (set_data ni d fs) = node_index p fs"
  unfolding node_index_def set_data_def by (simp add: position_update)

lemma node_index_offset [simp]: "node_index p (set_offset hi off fs) = node_index p fs"
  by (simp add: node_index_def set_offset_def)

lemma handle_index_set_data [simp]: "handle_index h (set_data ni d fs) = handle_index h fs"
  by (simp add: handle_index_def set_data_def)

lemma set_fields [simp]:
  "nodes (set_offset hi off fs) = nodes fs"
  "open_handles (set_data ni d fs) = open_handles fs"
  "length (nodes (set_data ni d fs)) = length (nodes fs)"
  "length (open_handles (set_offset hi off fs)) = length (open_handles fs)"
  "hi < length (open_handles fs) \<Longrightarrow>
     snd (open_handles (set_offset hi off fs) ! hi) = (snd (open_handles fs ! hi))\<lparr>mh_offset := off\<rparr>"
  "ni < length (nodes fs) \<Longrightarrow> nodes (set_data ni d fs) ! ni = (nodes fs ! ni)\<lparr>node_data := d\<rparr>"
  by (simp_all add: set_offset_def set_data_def)

definition overwrite :: "nat \<Rightarrow> bytes \<Rightarrow> bytes \<Rightarrow> bytes" where
  "overwrite off buf d =
     take off (d @ replicate (off - length d) 0) @ buf @ drop (off + length buf) d"

lemma mem_write_file:
  assumes "file_at h fs d off" "off + length buf \<le> MAX_MEMFS_FILE_SIZE"
  shows "\<exists>fs'. mem_write h buf fs = (fs', Inr (length buf)) \<and> file_at h fs' (overwrite off buf d) (off + length buf)"
proof -
  obtain hi ni where f: "handle_index h fs = Some hi" "hi < length (open_handles fs)"
        "mh_offset (snd (open_handles fs ! hi)) = off"
        "flag_contains (mh_flags (snd (open_handles fs ! hi))) OPEN_READ"
        "flag_contains (mh_flags (snd (open_handles fs ! hi))) OPEN_WRITE"
        "\<not> flag_contains (mh_flags (snd (open_handles fs ! hi))) OPEN_APPEND"
        "node_index (mh_path (snd (open_handles fs ! hi))) fs = Some ni" "ni < length (nodes fs)"
        "node_kind (nodes fs ! ni) = File" "node_data (nodes fs ! ni) = Owned d"
    using assms(1) by (auto simp: file_at_def)
  have wrap: "wrap_add off (length buf) = off + length buf"
    using assms(2) by (simp add: wrap_add_def MAX_MEMFS_FILE_SIZE_def usize_modulus_def)
  let ?fs = "set_offset hi (off + length buf) (set_data ni (Owned (overwrite off buf d)) fs)"
  have ow: "copy_at off buf (if length d < off + length buf then take (off + length buf) d @ replicate (off + length buf - length d) 0 else d) =
      overwrite off buf d"
    by (auto simp: copy_at_def overwrite_def min_def intro: nth_equalityI)
  have w: "mem_write h buf fs = (?fs, Inr (length buf))"
    using f assms(2) wrap ow by (auto simp: mem_write_def Let_def split: if_splits)
  moreover have "file_at h ?fs (overwrite off buf d) (off + length buf)"
    unfolding file_at_def using f by simp
  ultimately show ?thesis by blast
qed

lemma mem_seek_file:
  assumes "file_at h fs d off" "new < 2 ^ 63"
  shows "\<exists>fs'. mem_seek h (of_nat new) 0 fs = (fs', Inr (of_nat new)) \<and> file_at h fs' d new"
proof -
  obtain hi ni where f: "handle_index h fs = Some hi" "hi < length (open_handles fs)"
        "flag_contains (mh_flags (snd (open_handles fs ! hi))) OPEN_READ"
        "flag_contains (mh_flags (snd (open_handles fs ! hi))) OPEN_WRITE"
        "\<not> flag_contains (mh_flags (snd (open_handles fs ! hi))) OPEN_APPEND"
        "node_index (mh_path (snd (open_handles fs ! hi))) fs = Some ni" "ni < length (nodes fs)"
        "node_kind (nodes fs ! ni) = File" "node_data (nodes fs ! ni) = Owned d"
    using assms(1) by (auto simp: file_at_def)
  have "sint (of_nat new :: u64) = int new"
    using assms(2) by (simp add: signed_of_nat signed_take_bit_int_eq_self)
  then have "mem_seek h (of_nat new) 0 fs = (set_offset hi new fs, Inr (of_nat new))"
    using f assms(2) by (simp add: mem_seek_def seek_base_def Let_def)
  moreover have "file_at h (set_offset hi new fs) d new"
    unfolding file_at_def using f by simp
  ultimately show ?thesis by blast
qed

lemma mem_read_file:
  assumes "file_at h fs d off" "off + length buf < usize_modulus"
  shows "\<exists>fs'. mem_read h buf fs = (fs', take (length buf) (drop off d) @ drop (length d - off) buf,
    Inr (min (length buf) (length d - off)))"
proof -
  obtain hi ni where f: "handle_index h fs = Some hi" "mh_offset (snd (open_handles fs ! hi)) = off"
        "flag_contains (mh_flags (snd (open_handles fs ! hi))) OPEN_READ"
        "node_index (mh_path (snd (open_handles fs ! hi))) fs = Some ni"
        "node_kind (nodes fs ! ni) = File" "node_data (nodes fs ! ni) = Owned d"
    using assms(1) by (auto simp: file_at_def)
  show ?thesis using f by (auto simp: mem_read_def Let_def copy_at_def slice_def min_def)
qed

text \<open>
  C23. Write then read back: through an open read-write handle at offset \<open>off\<close>, a write that stays
  within the 16 MiB cap is accepted whole; seeking back to \<open>off\<close> and reading as many bytes returns
  exactly the bytes written.
\<close>
theorem memfs_write_read:
  assumes "file_at h fs d off" "off + length buf \<le> MAX_MEMFS_FILE_SIZE" "length out = length buf"
  shows "\<exists>fs1 fs2 fs3. mem_write h buf fs = (fs1, Inr (length buf)) \<and>
    mem_seek h (of_nat off) 0 fs1 = (fs2, Inr (of_nat off)) \<and> mem_read h out fs2 = (fs3, buf, Inr (length buf))"
proof -
  obtain fs1 where w: "mem_write h buf fs = (fs1, Inr (length buf))" "file_at h fs1 (overwrite off buf d) (off + length buf)"
    using mem_write_file [OF assms(1,2)] by blast
  have small: "off < 2 ^ 63" "off + length out < usize_modulus"
    using assms(2,3) by (simp_all add: MAX_MEMFS_FILE_SIZE_def usize_modulus_def)
  obtain fs2 where s: "mem_seek h (of_nat off) 0 fs1 = (fs2, Inr (of_nat off))" "file_at h fs2 (overwrite off buf d) off"
    using mem_seek_file [OF w(2) small(1)] by blast
  have "take (length out) (drop off (overwrite off buf d)) = buf" "length buf \<le> length (overwrite off buf d) - off"
    using assms(3) by (auto simp: overwrite_def)
  then have "\<exists>fs3. mem_read h out fs2 = (fs3, buf, Inr (length buf))"
    using mem_read_file [OF s(2) small(2)] assms(3) by (simp add: min_def)
  then show ?thesis using w(1) s(1) by blast
qed

lemma open_tmp_a:
  "mem_open ''tmp/a'' 7 memfs_empty =
    (\<lparr>nodes = [\<lparr>node_path = ''tmp/a'', node_kind = File, node_data = Owned []\<rparr>], next_handle = 2,
        open_handles = [(1, \<lparr>mh_path = ''tmp/a'', mh_offset = 0, mh_flags = 7\<rparr>)]\<rparr>, Inr 1)"
  by (simp add: mem_open_def flags_valid_def flag_contains_def OPEN_READ_def OPEN_WRITE_def OPEN_CREATE_def OPEN_TRUNC_def
        OPEN_APPEND_def OPEN_EXCL_def OPEN_VALID_def node_type_def node_index_def memfs_empty_def is_base_dir_def BASE_DIRS_def
        trim_slash_def trim_start_slash_def mem_create_def parent_exists_def parent_path_def before_last_slash_def push_node_def
        open_existing_def open_file_def open_truncate_def wrap_add_def usize_modulus_def)

theorem memfs_write_read_witness:
  "\<exists>fs fs1 fs2 fs3. mem_open ''tmp/a'' 7 memfs_empty = (fs, Inr 1) \<and> mem_write 1 [104, 105] fs = (fs1, Inr 2) \<and>
     mem_seek 1 0 0 fs1 = (fs2, Inr 0) \<and> mem_read 1 [0, 0] fs2 = (fs3, [104, 105], Inr 2)"
proof -
  let ?fs = "fst (mem_open ''tmp/a'' 7 memfs_empty)"
  have f: "file_at 1 ?fs [] 0"
    by (simp add: open_tmp_a file_at_def handle_index_def node_index_def trim_slash_def trim_start_slash_def flag_contains_def
        OPEN_READ_def OPEN_WRITE_def OPEN_APPEND_def)
  have "\<exists>fs1 fs2 fs3. mem_write 1 [104, 105] ?fs = (fs1, Inr 2) \<and>
     mem_seek 1 0 0 fs1 = (fs2, Inr 0) \<and> mem_read 1 [0, 0] fs2 = (fs3, [104, 105], Inr 2)"
    using memfs_write_read [OF f, of "[104, 105]" "[0, 0]"] by (simp add: MAX_MEMFS_FILE_SIZE_def numeral_2_eq_2)
  then show ?thesis using open_tmp_a by (metis fst_conv)
qed

end
