(* ===== verification/Vfs.thy ===== *)
theory Vfs
  imports Memfs
begin

text \<open>
  The virtual file system switch (\<^verbatim>\<open>kernel/src/fs/vfs.rs\<close>): mounts, path resolution, the table of open
  files with its reference counts, and the dispatch of every call to a file system. The trait
  \<^verbatim>\<open>FileSystem\<close> is a record of operations on a state type; file system objects live in a store and are
  referred to by their position, as the code refers to them by pointer. The root file system of
  \<^verbatim>\<open>memfs.rs\<close> is one instance of the trait.
\<close>

section \<open>The trait\<close>

record 'f fs_ops =
  fs_open :: "string \<Rightarrow> u32 \<Rightarrow> 'f \<Rightarrow> 'f \<times> (vfs_error + usize)"
  fs_read :: "usize \<Rightarrow> bytes \<Rightarrow> 'f \<Rightarrow> 'f \<times> bytes \<times> (vfs_error + usize)"
  fs_write :: "usize \<Rightarrow> bytes \<Rightarrow> 'f \<Rightarrow> 'f \<times> (vfs_error + usize)"
  fs_close :: "usize \<Rightarrow> 'f \<Rightarrow> 'f \<times> (vfs_error + unit)"
  fs_readdir :: "string \<Rightarrow> 'f \<Rightarrow> vfs_error + dir_entry list"
  fs_readdir_into :: "string \<Rightarrow> dir_entry list \<Rightarrow> 'f \<Rightarrow> dir_entry list \<times> (vfs_error + usize)"
  fs_create :: "string \<Rightarrow> 'f \<Rightarrow> 'f \<times> (vfs_error + unit)"
  fs_mkdir :: "string \<Rightarrow> 'f \<Rightarrow> 'f \<times> (vfs_error + unit)"
  fs_remove :: "string \<Rightarrow> 'f \<Rightarrow> 'f \<times> (vfs_error + unit)"
  fs_remove_dir :: "string \<Rightarrow> 'f \<Rightarrow> 'f \<times> (vfs_error + unit)"
  fs_truncate :: "string \<Rightarrow> 'f \<Rightarrow> 'f \<times> (vfs_error + unit)"
  fs_stat :: "string \<Rightarrow> 'f \<Rightarrow> vfs_error + file_stat"
  fs_rename :: "string \<Rightarrow> string \<Rightarrow> 'f \<Rightarrow> 'f \<times> (vfs_error + unit)"
  fs_seek :: "usize \<Rightarrow> u64 \<Rightarrow> u32 \<Rightarrow> 'f \<Rightarrow> 'f \<times> (vfs_error + u64)"
  fs_stat_handle :: "usize \<Rightarrow> 'f \<Rightarrow> vfs_error + file_stat"
  fs_fsync :: "usize \<Rightarrow> 'f \<Rightarrow> 'f \<times> (vfs_error + unit)"
  fs_ftruncate :: "usize \<Rightarrow> u64 \<Rightarrow> 'f \<Rightarrow> 'f \<times> (vfs_error + unit)"

text \<open>The in-memory file system; \<open>fsync\<close> is the trait's default.\<close>

definition memfs_ops :: "memfs fs_ops" where
  "memfs_ops =
     \<lparr>fs_open = mem_open, fs_read = mem_read, fs_write = mem_write, fs_close = mem_close,
      fs_readdir = mem_readdir, fs_readdir_into = mem_readdir_into, fs_create = mem_create,
      fs_mkdir = mem_mkdir, fs_remove = mem_remove, fs_remove_dir = mem_remove_dir,
      fs_truncate = mem_truncate, fs_stat = mem_stat, fs_rename = mem_rename, fs_seek = mem_seek,
      fs_stat_handle = mem_stat_handle, fs_fsync = (\<lambda>h fs. (fs, Inr ())), fs_ftruncate = mem_ftruncate_handle\<rparr>"

section \<open>State\<close>

record vfs_file =
  of_fs :: nat
  of_handle :: usize
  of_refs :: u32

definition open_file_new :: "nat \<Rightarrow> usize \<Rightarrow> vfs_file" where
  "open_file_new k h = \<lparr>of_fs = k, of_handle = h, of_refs = 1\<rparr>"

record 'f vfs =
  root_fs :: "nat option"
  mounts :: "(string \<times> nat) list"
  open_files :: "(u32, vfs_file) btree"
  vfs_next_fd :: u32
  fs_store :: "'f list"

definition vfs_new :: "'f list \<Rightarrow> 'f vfs" where
  "vfs_new store = \<lparr>root_fs = None, mounts = [], open_files = [], vfs_next_fd = 3, fs_store = store\<rparr>"

definition ends_with_slash :: "string \<Rightarrow> bool" where
  "ends_with_slash s \<longleftrightarrow> s \<noteq> [] \<and> last s = slash"

definition vfs_mount :: "string \<Rightarrow> nat \<Rightarrow> 'f vfs \<Rightarrow> 'f vfs \<times> (vfs_error + unit)" where
  "vfs_mount path k v =
     (if path = ''/'' then (v\<lparr>root_fs := Some k\<rparr>, Inr ())
      else if \<not> starts_with path ''/'' \<or> ends_with_slash path \<or> 255 < length path then (v, Inl InvalidPath)
      else if \<exists>m \<in> set (mounts v). fst m = path then (v, Inl AlreadyExists)
      else (v\<lparr>mounts := mounts v @ [(path, k)]\<rparr>, Inr ()))"

section \<open>Path resolution\<close>

definition mount_matches :: "string \<Rightarrow> string \<Rightarrow> bool" where
  "mount_matches normalized p \<longleftrightarrow>
     normalized = p \<or> (starts_with normalized p \<and> length p < length normalized \<and> normalized ! length p = slash)"

fun select_mount :: "string \<Rightarrow> (string \<times> nat) list \<Rightarrow> (string \<times> nat) option \<Rightarrow> (string \<times> nat) option" where
  "select_mount normalized [] sel = sel"
| "select_mount normalized (m # ms) sel =
     select_mount normalized ms
       (if mount_matches normalized (fst m) \<and>
           (case sel of None \<Rightarrow> True | Some cur \<Rightarrow> length (fst cur) < length (fst m))
        then Some m else sel)"

definition resolve_path :: "string \<Rightarrow> string \<Rightarrow> 'f vfs \<Rightarrow> vfs_error + nat \<times> string" where
  "resolve_path path cwd v =
     (case normalize_path path cwd of
        Inl e \<Rightarrow> Inl e
      | Inr normalized \<Rightarrow>
          (case select_mount normalized (mounts v) None of
             Some (p, k) \<Rightarrow> Inr (k, trim_start_slash (drop (length p) normalized))
           | None \<Rightarrow>
               (case root_fs v of
                  None \<Rightarrow> Inl NotFound
                | Some k \<Rightarrow> Inr (k, trim_start_slash normalized))))"

section \<open>Dispatch\<close>

definition store_fs :: "nat \<Rightarrow> 'f \<Rightarrow> 'f vfs \<Rightarrow> 'f vfs" where
  "store_fs k fs v = v\<lparr>fs_store := (fs_store v)[k := fs]\<rparr>"

definition path_call ::
  "(string \<Rightarrow> 'f \<Rightarrow> 'f \<times> (vfs_error + 'r)) \<Rightarrow> string \<Rightarrow> string \<Rightarrow> 'f vfs \<Rightarrow> 'f vfs \<times> (vfs_error + 'r)" where
  "path_call f cwd path v =
     (case resolve_path path cwd v of
        Inl e \<Rightarrow> (v, Inl e)
      | Inr (k, rel) \<Rightarrow> (case f rel (fs_store v ! k) of (fs, r) \<Rightarrow> (store_fs k fs v, r)))"

definition handle_call ::
  "(usize \<Rightarrow> 'f \<Rightarrow> 'f \<times> (vfs_error + 'r)) \<Rightarrow> u32 \<Rightarrow> 'f vfs \<Rightarrow> 'f vfs \<times> (vfs_error + 'r)" where
  "handle_call f fd v =
     (case bt_get (open_files v) fd of
        None \<Rightarrow> (v, Inl InvalidDescriptor)
      | Some f' \<Rightarrow>
          (case f (of_handle f') (fs_store v ! of_fs f') of (fs, r) \<Rightarrow> (store_fs (of_fs f') fs v, r)))"

text \<open>Dropping an open file closes its handle.\<close>

definition drop_open_file :: "'f fs_ops \<Rightarrow> vfs_file \<Rightarrow> 'f vfs \<Rightarrow> 'f vfs" where
  "drop_open_file ops f v = store_fs (of_fs f) (fst (fs_close ops (of_handle f) (fs_store v ! of_fs f))) v"

definition open_at :: "'f fs_ops \<Rightarrow> string \<Rightarrow> string \<Rightarrow> u32 \<Rightarrow> 'f vfs \<Rightarrow> 'f vfs \<times> (vfs_error + u32)" where
  "open_at ops cwd path fl v =
     (case resolve_path path cwd v of
        Inl e \<Rightarrow> (v, Inl e)
      | Inr (k, rel) \<Rightarrow>
          (case fs_open ops rel fl (fs_store v ! k) of
             (fs, Inl e) \<Rightarrow> (store_fs k fs v, Inl e)
           | (fs, Inr h) \<Rightarrow>
               let fd = vfs_next_fd v;
                   v1 = (store_fs k fs v)\<lparr>vfs_next_fd := fd + 1, open_files := bt_put fd (open_file_new k h) (open_files v)\<rparr>
               in (case bt_get (open_files v) fd of None \<Rightarrow> v1 | Some old \<Rightarrow> drop_open_file ops old v1, Inr fd)))"

definition vfs_open :: "'f fs_ops \<Rightarrow> string \<Rightarrow> u32 \<Rightarrow> 'f vfs \<Rightarrow> 'f vfs \<times> (vfs_error + u32)" where
  "vfs_open ops path fl v = open_at ops ''/'' path fl v"

definition vfs_read :: "'f fs_ops \<Rightarrow> u32 \<Rightarrow> bytes \<Rightarrow> 'f vfs \<Rightarrow> 'f vfs \<times> bytes \<times> (vfs_error + usize)" where
  "vfs_read ops fd buf v =
     (case bt_get (open_files v) fd of
        None \<Rightarrow> (v, buf, Inl InvalidDescriptor)
      | Some f \<Rightarrow>
          (case fs_read ops (of_handle f) buf (fs_store v ! of_fs f) of
             (fs, buf', r) \<Rightarrow> (store_fs (of_fs f) fs v, buf', r)))"

definition vfs_write :: "'f fs_ops \<Rightarrow> u32 \<Rightarrow> bytes \<Rightarrow> 'f vfs \<Rightarrow> 'f vfs \<times> (vfs_error + usize)" where
  "vfs_write ops fd buf v = handle_call (\<lambda>h. fs_write ops h buf) fd v"

definition vfs_seek :: "'f fs_ops \<Rightarrow> u32 \<Rightarrow> u64 \<Rightarrow> u32 \<Rightarrow> 'f vfs \<Rightarrow> 'f vfs \<times> (vfs_error + u64)" where
  "vfs_seek ops fd off whence v = handle_call (\<lambda>h. fs_seek ops h off whence) fd v"

definition vfs_fstat :: "'f fs_ops \<Rightarrow> u32 \<Rightarrow> 'f vfs \<Rightarrow> vfs_error + file_stat" where
  "vfs_fstat ops fd v =
     (case bt_get (open_files v) fd of
        None \<Rightarrow> Inl InvalidDescriptor
      | Some f \<Rightarrow> fs_stat_handle ops (of_handle f) (fs_store v ! of_fs f))"

definition u32_sat_inc :: "u32 \<Rightarrow> u32" where
  "u32_sat_inc n = (if n = - 1 then n else n + 1)"

definition vfs_retain :: "u32 \<Rightarrow> 'f vfs \<Rightarrow> 'f vfs \<times> (vfs_error + unit)" where
  "vfs_retain fd v =
     (case bt_get (open_files v) fd of
        None \<Rightarrow> (v, Inl InvalidDescriptor)
      | Some f \<Rightarrow> (v\<lparr>open_files := bt_put fd (f\<lparr>of_refs := u32_sat_inc (of_refs f)\<rparr>) (open_files v)\<rparr>, Inr ()))"

definition vfs_close :: "'f fs_ops \<Rightarrow> u32 \<Rightarrow> 'f vfs \<Rightarrow> 'f vfs \<times> (vfs_error + unit)" where
  "vfs_close ops fd v =
     (case bt_get (open_files v) fd of
        None \<Rightarrow> (v, Inl InvalidDescriptor)
      | Some f \<Rightarrow>
          if 1 < of_refs f
          then (v\<lparr>open_files := bt_put fd (f\<lparr>of_refs := of_refs f - 1\<rparr>) (open_files v)\<rparr>, Inr ())
          else (drop_open_file ops f (v\<lparr>open_files := bt_del fd (open_files v)\<rparr>), Inr ()))"

definition vfs_fsync :: "'f fs_ops \<Rightarrow> u32 \<Rightarrow> 'f vfs \<Rightarrow> 'f vfs \<times> (vfs_error + unit)" where
  "vfs_fsync ops fd v = handle_call (fs_fsync ops) fd v"

definition vfs_ftruncate :: "'f fs_ops \<Rightarrow> u32 \<Rightarrow> u64 \<Rightarrow> 'f vfs \<Rightarrow> 'f vfs \<times> (vfs_error + unit)" where
  "vfs_ftruncate ops fd len v = handle_call (\<lambda>h. fs_ftruncate ops h len) fd v"

definition open_file_count :: "'f vfs \<Rightarrow> usize" where
  "open_file_count v = length (open_files v)"

definition readdir_at :: "'f fs_ops \<Rightarrow> string \<Rightarrow> string \<Rightarrow> 'f vfs \<Rightarrow> vfs_error + dir_entry list" where
  "readdir_at ops cwd path v =
     (case resolve_path path cwd v of Inl e \<Rightarrow> Inl e | Inr (k, rel) \<Rightarrow> fs_readdir ops rel (fs_store v ! k))"

definition readdir_into_at ::
  "'f fs_ops \<Rightarrow> string \<Rightarrow> string \<Rightarrow> dir_entry list \<Rightarrow> 'f vfs \<Rightarrow> dir_entry list \<times> (vfs_error + usize)" where
  "readdir_into_at ops cwd path out v =
     (case resolve_path path cwd v of
        Inl e \<Rightarrow> (out, Inl e)
      | Inr (k, rel) \<Rightarrow> fs_readdir_into ops rel out (fs_store v ! k))"

definition create_at :: "'f fs_ops \<Rightarrow> string \<Rightarrow> string \<Rightarrow> 'f vfs \<Rightarrow> 'f vfs \<times> (vfs_error + unit)" where
  "create_at ops cwd path v = path_call (fs_create ops) cwd path v"

definition mkdir_at :: "'f fs_ops \<Rightarrow> string \<Rightarrow> string \<Rightarrow> 'f vfs \<Rightarrow> 'f vfs \<times> (vfs_error + unit)" where
  "mkdir_at ops cwd path v = path_call (fs_mkdir ops) cwd path v"

definition remove_at :: "'f fs_ops \<Rightarrow> string \<Rightarrow> string \<Rightarrow> 'f vfs \<Rightarrow> 'f vfs \<times> (vfs_error + unit)" where
  "remove_at ops cwd path v = path_call (fs_remove ops) cwd path v"

definition remove_dir_at :: "'f fs_ops \<Rightarrow> string \<Rightarrow> string \<Rightarrow> 'f vfs \<Rightarrow> 'f vfs \<times> (vfs_error + unit)" where
  "remove_dir_at ops cwd path v = path_call (fs_remove_dir ops) cwd path v"

definition rename_at :: "'f fs_ops \<Rightarrow> string \<Rightarrow> string \<Rightarrow> string \<Rightarrow> 'f vfs \<Rightarrow> 'f vfs \<times> (vfs_error + unit)" where
  "rename_at ops cwd old new v =
     (case resolve_path old cwd v of
        Inl e \<Rightarrow> (v, Inl e)
      | Inr (k, old_rel) \<Rightarrow>
          (case resolve_path new cwd v of
             Inl e \<Rightarrow> (v, Inl e)
           | Inr (k', new_rel) \<Rightarrow>
               if k \<noteq> k' then (v, Inl Unsupported)
               else (case fs_rename ops old_rel new_rel (fs_store v ! k) of (fs, r) \<Rightarrow> (store_fs k fs v, r))))"

definition truncate_at :: "'f fs_ops \<Rightarrow> string \<Rightarrow> string \<Rightarrow> 'f vfs \<Rightarrow> 'f vfs \<times> (vfs_error + unit)" where
  "truncate_at ops cwd path v = path_call (fs_truncate ops) cwd path v"

definition stat_at :: "'f fs_ops \<Rightarrow> string \<Rightarrow> string \<Rightarrow> 'f vfs \<Rightarrow> vfs_error + file_stat" where
  "stat_at ops cwd path v =
     (case resolve_path path cwd v of Inl e \<Rightarrow> Inl e | Inr (k, rel) \<Rightarrow> fs_stat ops rel (fs_store v ! k))"

text \<open>Creating the parent directories of an archive entry, errors ignored.\<close>

fun ensure_dirs :: "string \<Rightarrow> string list \<Rightarrow> memfs \<Rightarrow> memfs" where
  "ensure_dirs prefix [] fs = fs"
| "ensure_dirs prefix [part] fs = fs"
| "ensure_dirs prefix (part # p # ps) fs =
     (let prefix' = prefix @ [slash] @ part in ensure_dirs prefix' (p # ps) (fst (mem_mkdir prefix' fs)))"

definition ensure_parent_dirs :: "string \<Rightarrow> memfs \<Rightarrow> memfs" where
  "ensure_parent_dirs path fs = ensure_dirs '''' (split_slash (trim_slash path)) fs"

definition seed_entry :: "string \<times> bytes \<Rightarrow> memfs \<Rightarrow> memfs" where
  "seed_entry entry fs =
     (let fs1 = ensure_parent_dirs (fst entry) fs
      in if starts_with (fst entry) ''/assets/'' then add_static_file (fst entry) (snd entry) fs1
         else add_file (fst entry) (snd entry) fs1)"

section \<open>Resolution picks the longest mount\<close>

lemma select_mount_spec:
  assumes "select_mount n ms sel = r" "case sel of None \<Rightarrow> True | Some m \<Rightarrow> mount_matches n (fst m)"
  shows "case r of
      None \<Rightarrow> sel = None \<and> (\<forall>m \<in> set ms. \<not> mount_matches n (fst m))
    | Some m \<Rightarrow> (m \<in> set ms \<or> sel = Some m) \<and> mount_matches n (fst m) \<and>
        (\<forall>m' \<in> set ms. mount_matches n (fst m') \<longrightarrow> length (fst m') \<le> length (fst m)) \<and>
        (\<forall>c. sel = Some c \<longrightarrow> length (fst c) \<le> length (fst m))"
  using assms
proof (induction ms arbitrary: sel)
  case Nil
  then show ?case by (cases r) auto
next
  case (Cons m ms)
  define sel' where "sel' = (if mount_matches n (fst m) \<and>
      (case sel of None \<Rightarrow> True | Some cur \<Rightarrow> length (fst cur) < length (fst m)) then Some m else sel)"
  have IH: "case r of
      None \<Rightarrow> sel' = None \<and> (\<forall>m \<in> set ms. \<not> mount_matches n (fst m))
    | Some m \<Rightarrow> (m \<in> set ms \<or> sel' = Some m) \<and> mount_matches n (fst m) \<and>
        (\<forall>m' \<in> set ms. mount_matches n (fst m') \<longrightarrow> length (fst m') \<le> length (fst m)) \<and>
        (\<forall>c. sel' = Some c \<longrightarrow> length (fst c) \<le> length (fst m))"
    by (rule Cons.IH) (use Cons.prems in \<open>auto simp: sel'_def split: option.splits\<close>)
  then show ?case
    by (cases sel; cases r; cases m) (auto simp: sel'_def split: if_splits)
qed

lemma mount_matches_rest:
  assumes "mount_matches n p"
  shows "n = p \<or> (\<exists>r. n = p @ slash # r)"
proof (cases "n = p")
  case False
  then have "take (length p) n = p" "length p < length n" "n ! length p = slash"
    using assms by (auto simp: mount_matches_def starts_with_def)
  then have "n = p @ slash # drop (Suc (length p)) n" by (metis append_take_drop_id Cons_nth_drop_Suc)
  then show ?thesis by blast
qed simp



section \<open>Reference counts of open files\<close>

definition closes :: "'f fs_ops \<Rightarrow> u32 \<Rightarrow> nat \<Rightarrow> 'f vfs \<Rightarrow> 'f vfs" where
  "closes ops fd n v = ((\<lambda>v. fst (vfs_close ops fd v)) ^^ n) v"

lemma close_shared:
  assumes "bt_get (open_files v) fd = Some f" "1 < unat (of_refs f)"
  shows "\<exists>f'. bt_get (open_files (fst (vfs_close ops fd v))) fd = Some f' \<and> of_fs f' = of_fs f \<and> of_handle f' = of_handle f \<and>
    unat (of_refs f') = unat (of_refs f) - 1 \<and> fs_store (fst (vfs_close ops fd v)) = fs_store v"
proof -
  have "1 < of_refs f" using assms(2) by (simp add: word_less_nat_alt)
  moreover from this have "unat (of_refs f - 1) = unat (of_refs f) - 1"
    by (metis le_less uint_1 unat_1 unat_sub word_le_nat_alt)
  ultimately show ?thesis using assms(1) by (simp add: vfs_close_def)
qed

lemma closes_shared:
  assumes "bt_get (open_files v) fd = Some f" "n < unat (of_refs f)"
  shows "\<exists>f'. bt_get (open_files (closes ops fd n v)) fd = Some f' \<and> of_fs f' = of_fs f \<and> of_handle f' = of_handle f \<and>
    unat (of_refs f') = unat (of_refs f) - n \<and> fs_store (closes ops fd n v) = fs_store v"
  using assms(2)
proof (induction n)
  case 0
  then show ?case using assms(1) by (simp add: closes_def)
next
  case (Suc n)
  then obtain f' where f': "bt_get (open_files (closes ops fd n v)) fd = Some f'" "of_fs f' = of_fs f"
      "of_handle f' = of_handle f" "unat (of_refs f') = unat (of_refs f) - n" "fs_store (closes ops fd n v) = fs_store v" by auto
  have "1 < unat (of_refs f')" using f'(4) Suc.prems by simp
  then show ?case using close_shared [OF f'(1), of ops] f' by (auto simp: closes_def)
qed


lemma normalize_tmp_a: "normalize_path ''/tmp/a'' ''/'' = Inr ''/tmp/a''"
  by (simp add: normalize_path_def normalize_refines resolve_def starts_with_def render_def PATH_MAX_def)

definition vfs_example :: "memfs vfs" where
  "vfs_example = (vfs_new [memfs_empty])\<lparr>root_fs := Some 0\<rparr>"

lemma resolve_example: "resolve_path ''/tmp/a'' ''/'' vfs_example = Inr (0, ''tmp/a'')"
  by (simp add: resolve_path_def normalize_tmp_a vfs_example_def vfs_new_def trim_start_slash_def)

lemma open_example:
  "open_at memfs_ops ''/'' ''/tmp/a'' 7 vfs_example =
     (vfs_example\<lparr>fs_store := [fst (mem_open ''tmp/a'' 7 memfs_empty)], vfs_next_fd := 4, open_files := [(3, open_file_new 0 1)]\<rparr>, Inr 3)"
  unfolding open_at_def resolve_example
  by (simp add: memfs_ops_def open_tmp_a vfs_example_def vfs_new_def store_fs_def Let_def)


end
