(* ===== verification/Fd_Table.thy ===== *)
theory Fd_Table
  imports Capabilities Pipe Vfs
begin

text \<open>
  The file descriptor table of a process (\<^verbatim>\<open>kernel/src/process/mod.rs\<close>): allocation, duplication,
  inheritance across spawn, and the reference counts that decide when a file of the virtual file
  system is closed and when a pipe end is released. The pipe registry and the VFS are those of their
  own theories.
\<close>

section \<open>Data\<close>

definition FIRST_PROCESS_FD :: u32 where
  "FIRST_PROCESS_FD = 3"

definition MAX_PROCESS_FD :: u32 where
  "MAX_PROCESS_FD = 1024"

datatype fd_target = FdStdin | FdStdout | FdStderr | FdVfs u32 | FdPipe u64 bool

datatype fd_cleanup = CleanupNone | CloseVfs u32 | WakePipe u64

record fd_entry =
  fd_tgt :: fd_target
  fd_cloexec :: bool
  fd_status :: u32

definition fd_entry_of :: "fd_target \<Rightarrow> fd_entry" where
  "fd_entry_of t = \<lparr>fd_tgt = t, fd_cloexec = False, fd_status = 0\<rparr>"

record fd_state =
  fd_table :: "(u32, fd_entry) btree"
  vfs_fd_refs :: "(u32, u32) btree"
  next_fd :: u32

definition reserve_stdio :: "fd_state \<Rightarrow> fd_state" where
  "reserve_stdio s =
     s\<lparr>fd_table := bt_put 2 (fd_entry_of FdStderr) (bt_put 1 (fd_entry_of FdStdout)
         (bt_put 0 (fd_entry_of FdStdin) (fd_table s)))\<rparr>"

definition fd_state_new :: fd_state where
  "fd_state_new = reserve_stdio \<lparr>fd_table = [], vfs_fd_refs = [], next_fd = FIRST_PROCESS_FD\<rparr>"

section \<open>Operations\<close>

definition vfs_ref_inc :: "u32 \<Rightarrow> fd_state \<Rightarrow> fd_state" where
  "vfs_ref_inc v s =
     s\<lparr>vfs_fd_refs := bt_put v ((case bt_get (vfs_fd_refs s) v of None \<Rightarrow> 0 | Some c \<Rightarrow> c) + 1) (vfs_fd_refs s)\<rparr>"

text \<open>The search for a free descriptor; the first argument is the number of rounds left.\<close>

fun allocate_loop :: "nat \<Rightarrow> fd_entry \<Rightarrow> fd_state \<Rightarrow> fd_state \<times> (process_error + u32)" where
  "allocate_loop 0 entry s = (s, Inl FdTableFull)"
| "allocate_loop (Suc n) entry s =
     (let fd = next_fd s;
          s1 = s\<lparr>next_fd := (if MAX_PROCESS_FD \<le> fd + 1 then FIRST_PROCESS_FD else fd + 1)\<rparr>
      in if bt_get (fd_table s1) fd = None
         then (s1\<lparr>fd_table := bt_put fd entry (fd_table s1)\<rparr>, Inr fd)
         else allocate_loop n entry s1)"

definition fd_allocate :: "fd_entry \<Rightarrow> fd_state \<Rightarrow> fd_state \<times> (process_error + u32)" where
  "fd_allocate entry s = allocate_loop (unat MAX_PROCESS_FD - unat FIRST_PROCESS_FD) entry s"

definition fd_open_vfs :: "u32 \<Rightarrow> fd_state \<Rightarrow> fd_state \<times> (process_error + u32)" where
  "fd_open_vfs v s =
     (case fd_allocate (fd_entry_of (FdVfs v)) s of
        (s1, Inl e) \<Rightarrow> (s1, Inl e)
      | (s1, Inr fd) \<Rightarrow> (vfs_ref_inc v s1, Inr fd))"

definition fd_install_pipe :: "u64 \<Rightarrow> bool \<Rightarrow> fd_state \<Rightarrow> fd_state \<times> (process_error + u32)" where
  "fd_install_pipe idn w s = fd_allocate (fd_entry_of (FdPipe idn w)) s"

definition release_target :: "fd_target \<Rightarrow> fd_state \<Rightarrow> pipe_registry \<Rightarrow> fd_state \<times> pipe_registry \<times> fd_cleanup" where
  "release_target t s reg =
     (case t of
        FdVfs v \<Rightarrow>
          (case bt_get (vfs_fd_refs s) v of
             None \<Rightarrow> (s, reg, CleanupNone)
           | Some c \<Rightarrow>
               if sat_dec c = 0 then (s\<lparr>vfs_fd_refs := bt_del v (vfs_fd_refs s)\<rparr>, reg, CloseVfs v)
               else (s\<lparr>vfs_fd_refs := bt_put v (sat_dec c) (vfs_fd_refs s)\<rparr>, reg, CleanupNone))
      | FdPipe idn w \<Rightarrow>
          (case pipe_release idn w reg of (reg', wake) \<Rightarrow> (s, reg', if wake then WakePipe idn else CleanupNone))
      | _ \<Rightarrow> (s, reg, CleanupNone))"

definition retain_target :: "fd_target \<Rightarrow> fd_state \<Rightarrow> pipe_registry \<Rightarrow> fd_state \<times> pipe_registry" where
  "retain_target t s reg =
     (case t of
        FdVfs v \<Rightarrow> (vfs_ref_inc v s, reg)
      | FdPipe idn w \<Rightarrow> (s, pipe_retain idn w reg)
      | _ \<Rightarrow> (s, reg))"

definition fd_drop :: "u32 \<Rightarrow> fd_state \<Rightarrow> pipe_registry \<Rightarrow> fd_state \<times> pipe_registry \<times> (process_error + fd_cleanup)" where
  "fd_drop fd s reg =
     (case bt_get (fd_table s) fd of
        None \<Rightarrow> (s, reg, Inl InvalidFd)
      | Some entry \<Rightarrow>
          (case release_target (fd_tgt entry) (s\<lparr>fd_table := bt_del fd (fd_table s)\<rparr>) reg of
             (s', reg', c) \<Rightarrow> (s', reg', Inr c)))"

text \<open>Emptying a slot that is about to be reused.\<close>

definition displace :: "u32 \<Rightarrow> fd_state \<Rightarrow> pipe_registry \<Rightarrow> fd_state \<times> pipe_registry \<times> fd_cleanup" where
  "displace fd s reg =
     (case bt_get (fd_table s) fd of
        None \<Rightarrow> (s, reg, CleanupNone)
      | Some old \<Rightarrow> release_target (fd_tgt old) (s\<lparr>fd_table := bt_del fd (fd_table s)\<rparr>) reg)"

definition put_fd :: "u32 \<Rightarrow> fd_entry \<Rightarrow> fd_state \<Rightarrow> fd_state" where
  "put_fd fd entry s = s\<lparr>fd_table := bt_put fd entry (fd_table s)\<rparr>"

definition fd_dup ::
  "u32 \<Rightarrow> u32 option \<Rightarrow> fd_state \<Rightarrow> pipe_registry \<Rightarrow>
     fd_state \<times> pipe_registry \<times> (process_error + u32 \<times> fd_cleanup)" where
  "fd_dup oldfd newfd s reg =
     (case bt_get (fd_table s) oldfd of
        None \<Rightarrow> (s, reg, Inl InvalidFd)
      | Some entry \<Rightarrow>
          (case newfd of
             Some nf \<Rightarrow>
               if nf = oldfd then (s, reg, Inr (nf, CleanupNone))
               else
                 (case displace nf s reg of
                    (s1, reg1, c) \<Rightarrow>
                      (case retain_target (fd_tgt entry) (put_fd nf entry s1) reg1 of
                         (s2, reg2) \<Rightarrow> (s2, reg2, Inr (nf, c))))
           | None \<Rightarrow>
               (case fd_allocate entry s of
                  (s1, Inl e) \<Rightarrow> (s1, reg, Inl e)
                | (s1, Inr fd) \<Rightarrow>
                    (case retain_target (fd_tgt entry) s1 reg of
                       (s2, reg2) \<Rightarrow> (s2, reg2, Inr (fd, CleanupNone))))))"

definition get_fd :: "u32 \<Rightarrow> fd_state \<Rightarrow> fd_entry option" where
  "get_fd fd s = bt_get (fd_table s) fd"

definition snapshot_fds :: "fd_state \<Rightarrow> (u32 \<times> fd_entry) list" where
  "snapshot_fds s = filter (\<lambda>(fd, e). \<not> fd_cloexec e) (fd_table s)"

fun inherit_loop ::
  "(u32 \<times> fd_entry) list \<Rightarrow> fd_state \<Rightarrow> pipe_registry \<Rightarrow> u32 list \<Rightarrow> fd_state \<times> pipe_registry \<times> u32 list" where
  "inherit_loop [] s reg acc = (s, reg, acc)"
| "inherit_loop ((fd, e) # es) s reg acc =
     (case retain_target (fd_tgt e) (put_fd fd e s) reg of
        (s1, reg1) \<Rightarrow>
          inherit_loop es s1 reg1
            (case fd_tgt e of FdVfs v \<Rightarrow> if v \<in> set acc then acc else acc @ [v] | _ \<Rightarrow> acc))"

definition inherit_fds :: "(u32 \<times> fd_entry) list \<Rightarrow> fd_state \<Rightarrow> pipe_registry \<Rightarrow> fd_state \<times> pipe_registry \<times> u32 list" where
  "inherit_fds es s reg = inherit_loop es (s\<lparr>fd_table := [], vfs_fd_refs := []\<rparr>) reg []"

definition place_vfs_fd :: "u32 \<Rightarrow> u32 \<Rightarrow> fd_state \<Rightarrow> pipe_registry \<Rightarrow> fd_state \<times> pipe_registry \<times> fd_cleanup" where
  "place_vfs_fd fd v s reg =
     (case displace fd s reg of
        (s1, reg1, c) \<Rightarrow> (vfs_ref_inc v (put_fd fd (fd_entry_of (FdVfs v)) s1), reg1, c))"

definition fd_set_cloexec :: "u32 \<Rightarrow> bool \<Rightarrow> fd_state \<Rightarrow> fd_state \<times> (process_error + unit)" where
  "fd_set_cloexec fd b s =
     (case bt_get (fd_table s) fd of
        None \<Rightarrow> (s, Inl InvalidFd) | Some e \<Rightarrow> (put_fd fd (e\<lparr>fd_cloexec := b\<rparr>) s, Inr ()))"

definition fd_set_status :: "u32 \<Rightarrow> u32 \<Rightarrow> fd_state \<Rightarrow> fd_state \<times> (process_error + unit)" where
  "fd_set_status fd st s =
     (case bt_get (fd_table s) fd of
        None \<Rightarrow> (s, Inl InvalidFd) | Some e \<Rightarrow> (put_fd fd (e\<lparr>fd_status := st\<rparr>) s, Inr ()))"

definition fd_count :: "fd_state \<Rightarrow> usize" where
  "fd_count s = length (fd_table s)"

text \<open>Teardown: every pipe end is released and every distinct file closed once.\<close>

definition release_pipe_entry :: "u32 \<times> fd_entry \<Rightarrow> pipe_registry \<Rightarrow> pipe_registry" where
  "release_pipe_entry fe reg = (case fd_tgt (snd fe) of FdPipe idn w \<Rightarrow> fst (pipe_release idn w reg) | _ \<Rightarrow> reg)"

definition cleanup_fds ::
  "'f fs_ops \<Rightarrow> fd_state \<Rightarrow> pipe_registry \<Rightarrow> 'f vfs option \<Rightarrow> fd_state \<times> pipe_registry \<times> 'f vfs option \<times> usize" where
  "cleanup_fds ops s reg ov =
     (s\<lparr>fd_table := [], vfs_fd_refs := []\<rparr>,
      fold release_pipe_entry (fd_table s) reg,
      map_option (\<lambda>v. fold (\<lambda>(fd, _) v. fst (vfs_close ops fd v)) (vfs_fd_refs s) v) ov,
      if ov = None then 0 else length (vfs_fd_refs s))"

section \<open>Allocation\<close>

definition fd_range :: "nat set" where
  "fd_range = {3..<1024}"

definition fd_at :: "nat \<Rightarrow> nat \<Rightarrow> nat" where
  "fd_at start k = 3 + (start - 3 + k) mod 1021"

lemma next_fd_step:
  assumes "fd_at start k = unat fd" "3 \<le> start" "start < 1024"
  shows "unat (if MAX_PROCESS_FD \<le> fd + 1 then FIRST_PROCESS_FD else fd + 1) = fd_at start (Suc k)"
proof -
  have "fd_at start k < 1024" unfolding fd_at_def using mod_less_divisor [of 1021 "start - 3 + k"] by simp
  then have lt: "unat fd < 1024" using assms(1) by simp
  then have s: "unat (fd + 1) = unat fd + 1" by (simp add: unat_word_ariths)
  have "fd_at start (Suc k) = (if unat fd + 1 = 1024 then 3 else unat fd + 1)"
    unfolding assms(1) [symmetric] fd_at_def by (simp add: mod_Suc)
  then show ?thesis using lt s by (auto simp: MAX_PROCESS_FD_def FIRST_PROCESS_FD_def word_le_nat_alt)
qed

lemma allocate_loop_spec:
  assumes "fd_at start k = unat (next_fd s)" "3 \<le> start" "start < 1024"
    and "\<forall>j < k. bt_get (fd_table s) (of_nat (fd_at start j)) \<noteq> None"
    and "allocate_loop n entry s = (s', r)"
  shows "case r of
      Inl e \<Rightarrow> e = FdTableFull \<and> fd_table s' = fd_table s \<and> (\<forall>j < k + n. bt_get (fd_table s) (of_nat (fd_at start j)) \<noteq> None)
    | Inr fd \<Rightarrow> unat fd \<in> fd_range \<and> bt_get (fd_table s) fd = None \<and> fd_table s' = bt_put fd entry (fd_table s)"
  using assms
proof (induction n arbitrary: k s)
  case 0
  then show ?case by auto
next
  case (Suc n)
  define s1 where "s1 = s\<lparr>next_fd := (if MAX_PROCESS_FD \<le> next_fd s + 1 then FIRST_PROCESS_FD else next_fd s + 1)\<rparr>"
  have in_range: "unat (next_fd s) \<in> fd_range"
    unfolding Suc.prems(1) [symmetric] fd_at_def fd_range_def using mod_less_divisor [of 1021 "start - 3 + k"] by simp
  show ?case
  proof (cases "bt_get (fd_table s) (next_fd s) = None")
    case True
    then show ?thesis using Suc.prems(5) in_range by (auto simp: Let_def)
  next
    case False
    have run: "allocate_loop n entry s1 = (s', r)" using Suc.prems(5) False by (simp add: Let_def s1_def)
    have at: "fd_at start (Suc k) = unat (next_fd s1)"
      using next_fd_step [OF Suc.prems(1-3)] by (simp add: s1_def)
    have used: "\<forall>j < Suc k. bt_get (fd_table s1) (of_nat (fd_at start j)) \<noteq> None"
      using Suc.prems(4) False Suc.prems(1) by (auto simp: s1_def less_Suc_eq)
    show ?thesis using Suc.IH [OF at Suc.prems(2,3) used run] by (simp add: s1_def split: sum.splits)
  qed
qed

lemma fd_at_covers:
  assumes "fd \<in> fd_range" "3 \<le> start" "start < 1024"
  shows "\<exists>j < 1021. fd_at start j = fd"
proof -
  let ?j = "(fd + 1021 - start) mod 1021"
  have "(start - 3 + ?j) mod 1021 = (start - 3 + (fd + 1021 - start)) mod 1021" by (simp add: mod_add_right_eq)
  also have "\<dots> = (fd - 3 + 1021) mod 1021" using assms by (simp add: fd_range_def)
  also have "\<dots> = (fd - 3) mod 1021" by (rule mod_add_self2)
  also have "\<dots> = fd - 3" using assms(1) by (intro mod_less) (auto simp: fd_range_def)
  finally have "fd_at start ?j = fd" using assms(1) by (simp add: fd_at_def fd_range_def)
  then show ?thesis using mod_less_divisor [of 1021] by (metis zero_less_numeral)
qed

text \<open>
  C26. Descriptor allocation is complete: with the search position in range, it fails exactly when all
  of the descriptors 3 to 1023 are in use, leaving the table unchanged; otherwise it installs the
  entry at a descriptor of that range that was free and touches no other.
\<close>
theorem fd_allocate_complete:
  assumes "3 \<le> next_fd s" "next_fd s < 1024" "fd_allocate entry s = (s', r)"
  shows "case r of
      Inl e \<Rightarrow> e = FdTableFull \<and> fd_table s' = fd_table s \<and> (\<forall>fd \<in> {3..<1024}. bt_get (fd_table s) fd \<noteq> None)
    | Inr fd \<Rightarrow> 3 \<le> fd \<and> fd < 1024 \<and> bt_get (fd_table s) fd = None \<and> fd_table s' = bt_put fd entry (fd_table s)"
proof -
  have start: "3 \<le> unat (next_fd s)" "unat (next_fd s) < 1024" using assms(1,2) by (simp_all add: word_le_nat_alt word_less_nat_alt)
  have at: "fd_at (unat (next_fd s)) 0 = unat (next_fd s)" using start by (simp add: fd_at_def)
  have "allocate_loop 1021 entry s = (s', r)" using assms(3) by (simp add: fd_allocate_def MAX_PROCESS_FD_def FIRST_PROCESS_FD_def)
  note spec = allocate_loop_spec [OF at start _ this]
  show ?thesis
  proof (cases r)
    case (Inl e)
    have "bt_get (fd_table s) fd \<noteq> None" if "fd \<in> {3..<1024}" for fd
    proof -
      have "unat fd \<in> fd_range" using that by (simp add: fd_range_def word_le_nat_alt word_less_nat_alt)
      then obtain j where j: "j < 1021" "fd_at (unat (next_fd s)) j = unat fd" using fd_at_covers [OF _ start] by blast
      have "fd = of_nat (fd_at (unat (next_fd s)) j)" using j(2) by simp
      moreover have "\<forall>j < 1021. bt_get (fd_table s) (of_nat (fd_at (unat (next_fd s)) j)) \<noteq> None" using spec Inl by simp
      ultimately show ?thesis using j(1) by blast
    qed
    then show ?thesis using spec Inl by simp
  next
    case (Inr fd)
    then show ?thesis using spec by (simp add: fd_range_def word_le_nat_alt word_less_nat_alt)
  qed
qed

lemma fd_allocate_first:
  "fd_allocate entry s =
     (let fd = next_fd s;
          s1 = s\<lparr>next_fd := (if MAX_PROCESS_FD \<le> fd + 1 then FIRST_PROCESS_FD else fd + 1)\<rparr>
      in if bt_get (fd_table s1) fd = None
         then (s1\<lparr>fd_table := bt_put fd entry (fd_table s1)\<rparr>, Inr fd)
         else allocate_loop 1020 entry s1)"
proof -
  have "fd_allocate entry s = allocate_loop (Suc 1020) entry s"
    by (simp add: fd_allocate_def MAX_PROCESS_FD_def FIRST_PROCESS_FD_def)
  then show ?thesis by (simp only: allocate_loop.simps)
qed

theorem fd_allocate_complete_witness:
  "\<exists>s'. fd_allocate (fd_entry_of (FdVfs 9)) fd_state_new = (s', Inr 3) \<and> bt_get (fd_table fd_state_new) 3 = None"
proof -
  have n: "3 \<le> next_fd fd_state_new" "next_fd fd_state_new < 1024"
    by (simp_all add: fd_state_new_def reserve_stdio_def FIRST_PROCESS_FD_def)
  have a: "fd_allocate (fd_entry_of (FdVfs 9)) fd_state_new =
      (fst (fd_allocate (fd_entry_of (FdVfs 9)) fd_state_new), Inr 3)"
    unfolding fd_allocate_first
    by (simp add: MAX_PROCESS_FD_def FIRST_PROCESS_FD_def fd_state_new_def reserve_stdio_def Let_def)
  show ?thesis using fd_allocate_complete [OF n a] a by auto
qed

section \<open>Reference counts\<close>

definition target_count :: "fd_target \<Rightarrow> fd_state \<Rightarrow> nat" where
  "target_count t s = bt_sum (\<lambda>e. if fd_tgt e = t then 1 else 0) (fd_table s)"

definition vfs_refs :: "u32 \<Rightarrow> fd_state \<Rightarrow> nat" where
  "vfs_refs v s = (case bt_get (vfs_fd_refs s) v of None \<Rightarrow> 0 | Some c \<Rightarrow> unat c)"

text \<open>The slots of a table are fewer than a 32-bit counter can count.\<close>

definition small_table :: "fd_state \<Rightarrow> bool" where
  "small_table s \<longleftrightarrow> length (fd_table s) < 2 ^ 32 - 1"

definition fd_refs_ok :: "fd_state \<Rightarrow> bool" where
  "fd_refs_ok s \<longleftrightarrow> bt_ok (fd_table s) \<and> bt_ok (vfs_fd_refs s) \<and>
     (\<forall>v. vfs_refs v s = target_count (FdVfs v) s \<and> bt_get (vfs_fd_refs s) v \<noteq> Some 0)"

lemma count_le_length: "bt_sum (\<lambda>e. if P e then 1 else 0) m \<le> length m"
proof (induction m)
  case (Cons a m)
  then show ?case by (cases a) auto
qed simp

lemma target_count_bound: "small_table s \<Longrightarrow> target_count t s < 2 ^ 32 - 1"
  using count_le_length [of "\<lambda>e. fd_tgt e = t" "fd_table s"] by (simp add: small_table_def target_count_def)

lemma target_count_put:
  "bt_ok (fd_table s) \<Longrightarrow> bt_get (fd_table s) fd = None \<Longrightarrow>
     target_count t (put_fd fd e s) = target_count t s + (if fd_tgt e = t then 1 else 0)"
  using bt_sum_put [of "fd_table s" "\<lambda>e. if fd_tgt e = t then 1 else 0" fd e] by (simp add: target_count_def put_fd_def)

lemma target_count_del:
  "bt_ok (fd_table s) \<Longrightarrow> bt_get (fd_table s) fd = Some e \<Longrightarrow>
     target_count t (s\<lparr>fd_table := bt_del fd (fd_table s)\<rparr>) = target_count t s - (if fd_tgt e = t then 1 else 0)"
  using bt_sum_del [of "fd_table s" "\<lambda>e. if fd_tgt e = t then 1 else 0" fd] by (simp add: target_count_def)

lemma target_count_pos: "bt_get (fd_table s) fd = Some e \<Longrightarrow> 0 < target_count (fd_tgt e) s"
  using bt_sum_mono_le [of "fd_table s" fd e "\<lambda>x. if fd_tgt x = fd_tgt e then 1 else 0"] by (simp add: target_count_def)

lemma vfs_refs_inc:
  "vfs_refs v s < 2 ^ 32 - 1 \<Longrightarrow> vfs_refs u (vfs_ref_inc v s) = vfs_refs u s + (if u = v then 1 else 0)"
  by (auto simp: vfs_refs_def vfs_ref_inc_def unat_word_ariths split: option.splits)

lemma vfs_ref_inc_table [simp]: "fd_table (vfs_ref_inc v s) = fd_table s"
  by (simp add: vfs_ref_inc_def)

lemma target_count_table: "fd_table s' = fd_table s \<Longrightarrow> target_count t s' = target_count t s"
  by (simp add: target_count_def)

lemma vfs_refs_fd_table [simp]: "vfs_refs v (s\<lparr>fd_table := m\<rparr>) = vfs_refs v s" "vfs_refs v (put_fd fd e s) = vfs_refs v s"
  by (simp_all add: vfs_refs_def put_fd_def)

text \<open>Adding a counted entry.\<close>

lemma put_retain_ok:
  assumes "fd_refs_ok s" "small_table s" "bt_get (fd_table s) fd = None"
    and "retain_target (fd_tgt e) (put_fd fd e s) reg = (s', reg')"
  shows "fd_refs_ok s' \<and> fd_table s' = bt_put fd e (fd_table s)"
proof -
  have ok: "bt_ok (fd_table s)" "bt_ok (vfs_fd_refs s)" using assms(1) by (auto simp: fd_refs_ok_def)
  show ?thesis
  proof (cases "fd_tgt e")
    case (FdVfs v)
    then have s': "s' = vfs_ref_inc v (put_fd fd e s)" using assms(4) by (simp add: retain_target_def)
    have lt: "vfs_refs v s < 2 ^ 32 - 1"
      using assms(1) target_count_bound [OF assms(2)] by (simp add: fd_refs_ok_def)
    have "vfs_refs u s' = target_count (FdVfs u) s'" for u
      using vfs_refs_inc [of v "put_fd fd e s" u] lt target_count_put [OF ok(1) assms(3), of "FdVfs u" e] FdVfs assms(1)
      unfolding s' by (simp add: fd_refs_ok_def target_count_table [of "vfs_ref_inc v (put_fd fd e s)" "put_fd fd e s"])
    moreover have "bt_get (vfs_fd_refs s') u \<noteq> Some 0" for u
    proof
      assume z: "bt_get (vfs_fd_refs s') u = Some 0"
      then have "vfs_refs u s' = 0" by (simp add: vfs_refs_def)
      then have "u \<noteq> v" using vfs_refs_inc [of v "put_fd fd e s" u] lt unfolding s' by auto
      then show False using z assms(1) unfolding s' by (simp add: vfs_ref_inc_def put_fd_def fd_refs_ok_def)
    qed
    ultimately show ?thesis using ok unfolding fd_refs_ok_def s' by (simp add: put_fd_def vfs_ref_inc_def)
  qed (use assms target_count_put [OF ok(1) assms(3)] in
      \<open>auto simp: retain_target_def fd_refs_ok_def put_fd_def vfs_refs_def\<close>)
qed

text \<open>Removing an entry and releasing its target.\<close>

lemma release_ok:
  assumes "fd_refs_ok s" "bt_get (fd_table s) fd = Some e"
    and "release_target (fd_tgt e) (s\<lparr>fd_table := bt_del fd (fd_table s)\<rparr>) reg = (s', reg', c)"
  shows "fd_refs_ok s' \<and> fd_table s' = bt_del fd (fd_table s) \<and>
    (\<forall>v. c = CloseVfs v \<longleftrightarrow> fd_tgt e = FdVfs v \<and> target_count (FdVfs v) s = 1)"
proof -
  have ok: "bt_ok (fd_table s)" "bt_ok (vfs_fd_refs s)" using assms(1) by (auto simp: fd_refs_ok_def)
  note del = target_count_del [OF ok(1) assms(2)]
  show ?thesis
  proof (cases "fd_tgt e")
    case (FdVfs v)
    have "0 < vfs_refs v s" using target_count_pos [OF assms(2)] assms(1) FdVfs by (simp add: fd_refs_ok_def)
    then obtain n where n: "bt_get (vfs_fd_refs s) v = Some n" "0 < unat n" by (auto simp: vfs_refs_def split: option.splits)
    have cnt: "unat n = target_count (FdVfs v) s" using assms(1) n(1) by (auto simp: fd_refs_ok_def vfs_refs_def dest: spec [of _ v])
    have dec: "unat (sat_dec n) = unat n - 1" using n(2) by (auto simp: sat_dec_def unat_minus_one)
    show ?thesis
    proof (cases "sat_dec n = 0")
      case True
      then have one: "target_count (FdVfs v) s = 1" using dec n(2) cnt by (metis One_nat_def Suc_pred unat_0)
      have r: "s' = s\<lparr>fd_table := bt_del fd (fd_table s), vfs_fd_refs := bt_del v (vfs_fd_refs s)\<rparr>" "c = CloseVfs v"
        using assms(3) FdVfs n(1) True by (auto simp: release_target_def)
      have "vfs_refs u s' = target_count (FdVfs u) s'" for u
        using del [of "FdVfs u"] assms(1) one FdVfs r(1) by (auto simp: fd_refs_ok_def vfs_refs_def target_count_def)
      then show ?thesis using ok r one FdVfs assms(1) by (auto simp: fd_refs_ok_def)
    next
      case False
      then have many: "target_count (FdVfs v) s \<noteq> 1" using dec cnt n(2) by (metis One_nat_def diff_Suc_1 unat_eq_zero)
      have r: "s' = s\<lparr>fd_table := bt_del fd (fd_table s), vfs_fd_refs := bt_put v (sat_dec n) (vfs_fd_refs s)\<rparr>" "c = CleanupNone"
        using assms(3) FdVfs n(1) False by (auto simp: release_target_def)
      have "vfs_refs u s' = target_count (FdVfs u) s'" for u
        using del [of "FdVfs u"] assms(1) dec cnt FdVfs r(1) by (auto simp: fd_refs_ok_def vfs_refs_def target_count_def)
      then show ?thesis using ok r many FdVfs assms(1) False by (auto simp: fd_refs_ok_def)
    qed
  qed (use assms ok del in \<open>auto simp: release_target_def fd_refs_ok_def vfs_refs_def target_count_def
      split: prod.splits if_splits\<close>)
qed

lemma bt_del_length: "length (bt_del k m) \<le> length m"
  by (simp add: bt_del_def)

lemma displace_ok:
  assumes "fd_refs_ok s" "displace fd s reg = (s', reg', c)"
  shows "fd_refs_ok s' \<and> bt_get (fd_table s') fd = None \<and> length (fd_table s') \<le> length (fd_table s)"
proof (cases "bt_get (fd_table s) fd")
  case None
  then show ?thesis using assms by (simp add: displace_def)
next
  case (Some e)
  then have "release_target (fd_tgt e) (s\<lparr>fd_table := bt_del fd (fd_table s)\<rparr>) reg = (s', reg', c)"
    using assms(2) by (simp add: displace_def)
  from release_ok [OF assms(1) Some this] have "fd_refs_ok s'" "fd_table s' = bt_del fd (fd_table s)" by blast+
  then show ?thesis by (simp add: bt_del_length)
qed

lemma allocate_loop_table:
  "allocate_loop n e s = (s', r) \<Longrightarrow>
     vfs_fd_refs s' = vfs_fd_refs s \<and>
     (case r of Inl _ \<Rightarrow> fd_table s' = fd_table s
      | Inr fd \<Rightarrow> bt_get (fd_table s) fd = None \<and> fd_table s' = bt_put fd e (fd_table s))"
proof (induction n arbitrary: s)
  case (Suc n)
  define s1 where "s1 = s\<lparr>next_fd := (if MAX_PROCESS_FD \<le> next_fd s + 1 then FIRST_PROCESS_FD else next_fd s + 1)\<rparr>"
  show ?case
  proof (cases "bt_get (fd_table s) (next_fd s) = None")
    case True
    then show ?thesis using Suc.prems by (auto simp: Let_def)
  next
    case False
    then obtain y where "bt_get (fd_table s) (next_fd s) = Some y" by blast
    then have "allocate_loop n e s1 = (s', r)" using Suc.prems by (simp add: Let_def s1_def)
    from Suc.IH [OF this] show ?thesis by (simp add: s1_def split: sum.splits)
  qed
qed auto

lemma allocate_retain_ok:
  assumes "fd_refs_ok s" "small_table s" "fd_allocate e s = (s1, Inr fd)" "retain_target (fd_tgt e) s1 reg = (s', reg')"
  shows "fd_refs_ok s' \<and> fd_table s' = bt_put fd e (fd_table s)"
proof -
  note a = allocate_loop_table [OF assms(3) [unfolded fd_allocate_def]]
  let ?s = "s\<lparr>next_fd := next_fd s1\<rparr>"
  have "s1 = put_fd fd e ?s" using a by (simp add: put_fd_def)
  moreover have "fd_refs_ok ?s" "small_table ?s" using assms(1,2)
    by (auto simp: fd_refs_ok_def small_table_def vfs_refs_def target_count_def)
  ultimately show ?thesis using put_retain_ok [of ?s fd e reg s' reg'] a assms(4) by simp
qed

lemma fd_allocate_failed: "fd_refs_ok s \<Longrightarrow> fd_allocate e s = (s1, Inl x) \<Longrightarrow> fd_refs_ok s1"
  using allocate_loop_table [of _ e s s1 "Inl x"] by (auto simp: fd_allocate_def fd_refs_ok_def vfs_refs_def target_count_def)

lemma fd_allocate_plain_ok:
  assumes "fd_refs_ok s" "fd_allocate e s = (s1, Inr fd)" "\<And>v. fd_tgt e \<noteq> FdVfs v"
  shows "fd_refs_ok s1"
proof -
  note a = allocate_loop_table [OF assms(2) [unfolded fd_allocate_def]]
  have "target_count (FdVfs v) s1 = target_count (FdVfs v) s" for v
    using target_count_put [of s fd "FdVfs v" e] a assms(1,3) by (simp add: target_count_def put_fd_def fd_refs_ok_def)
  then show ?thesis using a assms(1) by (auto simp: fd_refs_ok_def vfs_refs_def)
qed

lemma inherit_loop_ok:
  "fd_refs_ok s \<Longrightarrow> length (fd_table s) + length es < 2 ^ 32 - 1 \<Longrightarrow> distinct (map fst es) \<Longrightarrow>
     (\<forall>fe \<in> set es. bt_get (fd_table s) (fst fe) = None) \<Longrightarrow> inherit_loop es s reg acc = (s', reg', vs) \<Longrightarrow> fd_refs_ok s'"
proof (induction es s reg acc rule: inherit_loop.induct)
  case (2 fd e es s reg acc)
  obtain s1 reg1 where r: "retain_target (fd_tgt e) (put_fd fd e s) reg = (s1, reg1)" by fastforce
  have ok: "fd_refs_ok s1 \<and> fd_table s1 = bt_put fd e (fd_table s)"
    by (rule put_retain_ok [OF _ _ _ r]) (use 2 in \<open>auto simp: small_table_def\<close>)
  have len: "length (bt_put k x m) \<le> Suc (length m)" for k :: u32 and x :: fd_entry and m
    by (induction k x m rule: bt_put.induct) auto
  show ?case
  proof (rule "2.IH" [OF r [symmetric]])
    show "inherit_loop es s1 reg1 (case fd_tgt e of FdVfs v \<Rightarrow> if v \<in> set acc then acc else acc @ [v] | _ \<Rightarrow> acc) = (s', reg', vs)"
      using "2.prems"(5) r by simp
    show "length (fd_table s1) + length es < 2 ^ 32 - 1" using ok len [of fd e "fd_table s"] "2.prems"(2) by simp
    show "\<forall>fe \<in> set es. bt_get (fd_table s1) (fst fe) = None" using ok "2.prems"(3,4) by force
  qed (use ok "2.prems"(3) in auto)
qed simp

inductive fd_reach :: "fd_state \<Rightarrow> bool" where
  reach_new: "fd_reach fd_state_new"
| reach_open: "fd_reach s \<Longrightarrow> small_table s \<Longrightarrow> fd_reach (fst (fd_open_vfs v s))"
| reach_pipe: "fd_reach s \<Longrightarrow> fd_reach (fst (fd_install_pipe idn w s))"
| reach_drop: "fd_reach s \<Longrightarrow> fd_reach (fst (fd_drop fd s reg))"
| reach_dup: "fd_reach s \<Longrightarrow> small_table s \<Longrightarrow> fd_reach (fst (fd_dup oldfd newfd s reg))"
| reach_place: "fd_reach s \<Longrightarrow> small_table s \<Longrightarrow> fd_reach (fst (place_vfs_fd fd v s reg))"
| reach_inherit: "fd_reach s \<Longrightarrow> fd_reach p \<Longrightarrow> small_table p \<Longrightarrow> fd_reach (fst (inherit_fds (snapshot_fds p) s reg))"
| reach_cloexec: "fd_reach s \<Longrightarrow> fd_reach (fst (fd_set_cloexec fd b s))"
| reach_status: "fd_reach s \<Longrightarrow> fd_reach (fst (fd_set_status fd st s))"

lemma small_mono: "small_table s \<Longrightarrow> length (fd_table s') \<le> length (fd_table s) \<Longrightarrow> small_table s'"
  by (simp add: small_table_def)

lemma fd_tgt_entry_of [simp]: "fd_tgt (fd_entry_of t) = t"
  by (simp add: fd_entry_of_def)

lemma fd_open_ok:
  assumes "fd_refs_ok s" "small_table s"
  shows "fd_refs_ok (fst (fd_open_vfs v s))"
proof -
  obtain s1 r where a: "fd_allocate (fd_entry_of (FdVfs v)) s = (s1, r)" by fastforce
  show ?thesis
  proof (cases r)
    case (Inl e)
    then show ?thesis using fd_allocate_failed [OF assms(1)] a by (simp add: fd_open_vfs_def)
  next
    case (Inr fd)
    have "retain_target (fd_tgt (fd_entry_of (FdVfs v))) s1 reg = (vfs_ref_inc v s1, reg)" for reg
      by (simp add: retain_target_def)
    from allocate_retain_ok [OF assms a [unfolded Inr] this] show ?thesis using a Inr by (simp add: fd_open_vfs_def)
  qed
qed

lemma fd_pipe_ok:
  assumes "fd_refs_ok s"
  shows "fd_refs_ok (fst (fd_install_pipe idn w s))"
proof -
  obtain s1 r where a: "fd_allocate (fd_entry_of (FdPipe idn w)) s = (s1, r)" by fastforce
  show ?thesis using fd_allocate_plain_ok [OF assms] fd_allocate_failed [OF assms] a
    by (cases r) (simp_all add: fd_install_pipe_def)
qed

lemma fd_drop_ok:
  assumes "fd_refs_ok s"
  shows "fd_refs_ok (fst (fd_drop fd s reg))"
proof (cases "bt_get (fd_table s) fd")
  case (Some e)
  obtain s1 reg1 c where r: "release_target (fd_tgt e) (s\<lparr>fd_table := bt_del fd (fd_table s)\<rparr>) reg = (s1, reg1, c)"
    by (metis prod_cases3)
  then show ?thesis using release_ok [OF assms Some r] Some by (simp add: fd_drop_def)
qed (use assms in \<open>simp add: fd_drop_def\<close>)

lemma fd_dup_ok:
  assumes "fd_refs_ok s" "small_table s"
  shows "fd_refs_ok (fst (fd_dup oldfd newfd s reg))"
proof (cases "bt_get (fd_table s) oldfd")
  case None
  then show ?thesis using assms(1) by (simp add: fd_dup_def)
next
  case (Some e)
  show ?thesis
  proof (cases newfd)
    case None
    obtain s1 r where a: "fd_allocate e s = (s1, r)" by fastforce
    show ?thesis using Some None a allocate_retain_ok [OF assms, of e s1] fd_allocate_failed [OF assms(1), of e s1]
      by (cases r) (auto simp: fd_dup_def split: prod.splits)
  next
    case nf: (Some nf)
    obtain s1 reg1 c where d: "displace nf s reg = (s1, reg1, c)" by (metis prod_cases3)
    have "fd_refs_ok s1" "small_table s1" "bt_get (fd_table s1) nf = None"
      using displace_ok [OF assms(1) d] small_mono [OF assms(2)] by auto
    note put = put_retain_ok [OF this]
    show ?thesis using Some nf d put assms(1) by (auto simp: fd_dup_def split: prod.splits)
  qed
qed

lemma place_ok:
  assumes "fd_refs_ok s" "small_table s"
  shows "fd_refs_ok (fst (place_vfs_fd fd v s reg))"
proof -
  obtain s1 reg1 c where d: "displace fd s reg = (s1, reg1, c)" by (metis prod_cases3)
  have "fd_refs_ok s1" "small_table s1" "bt_get (fd_table s1) fd = None"
    using displace_ok [OF assms(1) d] small_mono [OF assms(2)] by auto
  note put = put_retain_ok [OF this, of "fd_entry_of (FdVfs v)"]
  show ?thesis using d put by (simp add: place_vfs_fd_def retain_target_def fd_entry_of_def)
qed

lemma set_entry_ok:
  assumes "fd_refs_ok s" "bt_get (fd_table s) fd = Some e" "fd_tgt e' = fd_tgt e"
  shows "fd_refs_ok (put_fd fd e' s)"
  using assms bt_sum_put [of "fd_table s" "\<lambda>e. if fd_tgt e = _ then 1 else 0" fd e']
  by (simp add: fd_refs_ok_def put_fd_def vfs_refs_def target_count_def)

lemma fd_reach_ok: "fd_reach s \<Longrightarrow> fd_refs_ok s"
proof (induction rule: fd_reach.induct)
  case reach_new
  then show ?case by (simp add: fd_refs_ok_def fd_state_new_def reserve_stdio_def vfs_refs_def target_count_def
        fd_entry_of_def bt_ok_Cons)
next
  case (reach_inherit s p reg)
  have snap: "distinct (map fst (snapshot_fds p))" "length (snapshot_fds p) \<le> length (fd_table p)"
    using reach_inherit.IH(2) unfolding snapshot_fds_def fd_refs_ok_def bt_ok_def
    by (auto intro: distinct_map_filter simp: strict_sorted_iff)
  have "fd_refs_ok (s\<lparr>fd_table := [], vfs_fd_refs := []\<rparr>)" by (simp add: fd_refs_ok_def vfs_refs_def target_count_def)
  then show ?case using inherit_loop_ok [of "s\<lparr>fd_table := [], vfs_fd_refs := []\<rparr>" "snapshot_fds p" reg "[]"] snap
      reach_inherit.hyps(3) by (auto simp: inherit_fds_def small_table_def) (metis prod.collapse)
qed (auto simp: fd_open_ok fd_pipe_ok fd_drop_ok fd_dup_ok place_ok fd_set_cloexec_def fd_set_status_def
    intro!: set_entry_ok split: option.splits)

section \<open>Closing and duplicating\<close>

lemma target_count_zero: "target_count t s = 0 \<longleftrightarrow> (\<forall>fe \<in> set (fd_table s). fd_tgt (snd fe) \<noteq> t)"
proof -
  have "bt_sum (\<lambda>e. if fd_tgt e = t then 1 else 0) m = 0 \<longleftrightarrow> (\<forall>fe \<in> set m. fd_tgt (snd fe) \<noteq> t)" for m :: "(u32, fd_entry) btree"
    by (induction m) auto
  then show ?thesis by (simp add: target_count_def)
qed

lemma target_count_zero_get:
  assumes "bt_ok (fd_table s)"
  shows "target_count t s = 0 \<longleftrightarrow> (\<forall>fd e. get_fd fd s = Some e \<longrightarrow> fd_tgt e \<noteq> t)"
proof -
  have "(k, e) \<in> set (fd_table s) \<longleftrightarrow> get_fd k s = Some e" for k e
    unfolding get_fd_def using bt_set_get [OF assms] bt_get_set by metis
  then show ?thesis unfolding target_count_zero by force
qed


definition opened_once :: fd_state where
  "opened_once = fst (fd_open_vfs 9 fd_state_new)"

lemma opened_once_eq:
  "opened_once = vfs_ref_inc 9 (put_fd 3 (fd_entry_of (FdVfs 9)) (fd_state_new\<lparr>next_fd := 4\<rparr>))"
  by (simp add: opened_once_def fd_open_vfs_def fd_allocate_first MAX_PROCESS_FD_def FIRST_PROCESS_FD_def
      fd_state_new_def reserve_stdio_def Let_def put_fd_def)

lemma opened_once_reach: "fd_reach opened_once"
  unfolding opened_once_def
  by (rule reach_open [OF reach_new]) (simp add: small_table_def fd_state_new_def reserve_stdio_def)


text \<open>
  C34. Duplicating a descriptor does not always yield the lowest free one: there is a descriptor table
  the operations can produce in which descriptor 3 is free and \<open>dup\<close> returns 4, because the search
  starts after the descriptor handed out last.
\<close>
theorem fd_dup_not_lowest:
  "\<exists>s reg. fd_reach s \<and> get_fd 3 s = None \<and> snd (snd (fd_dup 0 None s reg)) = Inr (4, CleanupNone)"
proof -
  let ?r = "\<lparr>pipes = [], next_pipe_id = 1\<rparr>"
  let ?s = "fst (fd_drop 3 opened_once ?r)"
  have s: "?s = fd_state_new\<lparr>next_fd := 4\<rparr>"
    by (simp add: opened_once_eq fd_drop_def vfs_ref_inc_def put_fd_def fd_state_new_def reserve_stdio_def
        release_target_def sat_dec_def bt_del_def)
  have "fd_reach ?s" by (rule reach_drop [OF opened_once_reach])
  moreover have "get_fd 3 ?s = None" unfolding s by (simp add: get_fd_def fd_state_new_def reserve_stdio_def)
  moreover have "snd (snd (fd_dup 0 None ?s ?r)) = Inr (4, CleanupNone)"
    unfolding s by (simp add: fd_dup_def fd_allocate_first MAX_PROCESS_FD_def FIRST_PROCESS_FD_def fd_state_new_def
        reserve_stdio_def Let_def retain_target_def)
  ultimately show ?thesis by blast
qed

end
