(* ===== verification/Process_Memory.thy ===== *)
theory Process_Memory
  imports Process_Vm Fd_Table
begin

text \<open>
  The memory system calls of a process (\<^verbatim>\<open>kernel/src/syscall/mod.rs\<close>), contents written through the
  kernel's physical alias, thread-local storage and the mapping of memory handles.
\<close>

unbundle bit_operations_syntax

section \<open>Bytes of physical memory\<close>

definition word_of :: "usize \<Rightarrow> usize" where
  "word_of a = a - a mod 8"

definition get_byte :: "phys_mem \<Rightarrow> usize \<Rightarrow> u8" where
  "get_byte m a = ucast (drop_bit (8 * (a mod 8)) (m (word_of a)))"

definition put_byte :: "usize \<Rightarrow> u8 \<Rightarrow> phys_mem \<Rightarrow> phys_mem" where
  "put_byte a b m =
     m(word_of a := (m (word_of a) AND NOT (push_bit (8 * (a mod 8)) 0xFF)) OR push_bit (8 * (a mod 8)) (ucast b))"

fun put_bytes :: "usize \<Rightarrow> bytes \<Rightarrow> phys_mem \<Rightarrow> phys_mem" where
  "put_bytes a [] m = m"
| "put_bytes a (b # bs) m = put_bytes (a + 1) bs (put_byte a b m)"

section \<open>Filling mapped memory\<close>

text \<open>The loop copies up to the end of the current page at a time.\<close>

function copy_pages :: "usize \<Rightarrow> bytes \<Rightarrow> address_space \<Rightarrow> machine \<Rightarrow> machine \<times> (process_error + unit)" where
  "copy_pages addr data sp st =
     (if data = [] then (st, Inr ())
      else
        let chunk = min (USER_PAGE_SIZE - addr mod USER_PAGE_SIZE) (length data)
        in case translate_user_page sp addr st of
             Inr (Some phys) \<Rightarrow>
               copy_pages (addr + chunk) (drop chunk data) sp (st\<lparr>mem := put_bytes phys (take chunk data) (mem st)\<rparr>)
           | _ \<Rightarrow> (st, Inl InvalidMemoryRange))"
  by pat_completeness auto
termination
  by (relation "measure (\<lambda>(addr, data, sp, st). length data)") (auto simp: USER_PAGE_SIZE_def)

declare copy_pages.simps [simp del]

definition write_mapped_region :: "usize \<Rightarrow> bytes \<Rightarrow> vm_process \<Rightarrow> vm_world \<Rightarrow> vm_world \<times> (process_error + unit)" where
  "write_mapped_region vaddr data p w =
     (case vp_space p of
        None \<Rightarrow> (w, Inl NoAddressSpace)
      | Some sp \<Rightarrow> (case copy_pages vaddr data sp (vw_machine w) of (st', r) \<Rightarrow> (w\<lparr>vw_machine := st'\<rparr>, r)))"

section \<open>Thread-local storage\<close>

definition is_power_of_two :: "usize \<Rightarrow> bool" where
  "is_power_of_two n \<longleftrightarrow> n \<noteq> 0 \<and> n AND (n - 1) = 0"

text \<open>The image at the bottom of the mapping, the thread pointer above it pointing to itself.\<close>

definition allocate_tls_instance ::
  "vm_process \<Rightarrow> vm_world \<Rightarrow> vm_process \<times> vm_world \<times> (process_error + usize \<times> usize \<times> usize)" where
  "allocate_tls_instance p w =
     (if tls_mem_size p = 0 then (p, w, Inr (0, 0, 0))
      else
        case checked_add (tls_mem_size p) (tls_align p - 1) of
          None \<Rightarrow> (p, w, Inl InvalidMemoryRange)
        | Some v \<Rightarrow>
            let tls_size = align_down v (tls_align p)
            in case Option.bind (checked_add tls_size 8) (\<lambda>v. checked_add v (USER_PAGE_SIZE - 1)) of
                 None \<Rightarrow> (p, w, Inl InvalidMemoryRange)
               | Some v \<Rightarrow>
                   let mapped_length = align_down v USER_PAGE_SIZE
                   in case map_anonymous 0 mapped_length True False False True p w of
                        (p1, w1, Inl e) \<Rightarrow> (p1, w1, Inl e)
                      | (p1, w1, Inr base) \<Rightarrow>
                          (case vp_space p1 of
                             None \<Rightarrow> (p1, w1, Inl NoAddressSpace)
                           | Some sp \<Rightarrow>
                               (case copy_pages base (tls_image p1) sp (vw_machine w1) of
                                  (st2, Inl e) \<Rightarrow> (p1, w1\<lparr>vw_machine := st2\<rparr>, Inl e)
                                | (st2, Inr _) \<Rightarrow>
                                    let thread_pointer = base + tls_size
                                    in case translate_user_page sp thread_pointer st2 of
                                         Inr (Some tp) \<Rightarrow>
                                           (p1, w1\<lparr>vw_machine := st2\<lparr>mem := put_bytes tp (to_le_bytes 8 (of_nat thread_pointer :: u64)) (mem st2)\<rparr>\<rparr>,
                                            Inr (base, mapped_length, thread_pointer))
                                       | _ \<Rightarrow> (p1, w1\<lparr>vw_machine := st2\<rparr>, Inl InvalidMemoryRange))))"

definition install_tls_template ::
  "bytes \<Rightarrow> usize \<Rightarrow> usize \<Rightarrow> vm_process \<Rightarrow> vm_world \<Rightarrow> vm_process \<times> vm_world \<times> (process_error + unit)" where
  "install_tls_template img mem_size align p w =
     (if mem_size < length img \<or> mem_size = 0 \<or> \<not> is_power_of_two align then (p, w, Inl InvalidMemoryRange)
      else
        case allocate_tls_instance (p\<lparr>tls_image := img, tls_mem_size := mem_size, tls_align := max align 1\<rparr>) w of
          (p1, w1, Inl e) \<Rightarrow> (p1, w1, Inl e)
        | (p1, w1, Inr (base, len, tp)) \<Rightarrow>
            (p1\<lparr>vp_fs_base := of_nat tp, tls_allocation := Some (base, len)\<rparr>, w1, Inr ()))"

definition set_thread_pointer :: "u64 \<Rightarrow> vm_process \<Rightarrow> vm_process \<times> (process_error + unit)" where
  "set_thread_pointer base p =
     (if USER_ADDRESS_END \<le> base then (p, Inl InvalidMemoryRange) else (p\<lparr>vp_fs_base := base\<rparr>, Inr ()))"

section \<open>Mapping a memory handle\<close>

text \<open>
  The copy of a private memory object goes through the active address space, which is the caller's.
\<close>

definition handle_map ::
  "u32 \<Rightarrow> usize \<Rightarrow> usize \<Rightarrow> vm_process \<Rightarrow> vm_world \<Rightarrow> vm_process \<times> vm_world \<times> (handle_error + usize)" where
  "handle_map h addr len p w =
     (case require h RIGHT_MAP (handles (vp_caps p)) of
        Inl e \<Rightarrow> (p, w, Inl e)
      | Inr ent \<Rightarrow>
          (case object ent of
             SharedFrames sid \<Rightarrow>
               (case map_shared_vm sid addr (rights ent AND RIGHT_WRITE \<noteq> 0) p w of
                  (p1, w1, Inl _) \<Rightarrow> (p1, w1, Inl MapFailed)
                | (p1, w1, Inr a) \<Rightarrow> (p1, w1, Inr a))
           | Memory data \<Rightarrow>
               (case map_anonymous addr (max len 1) True False False True p w of
                  (p1, w1, Inl _) \<Rightarrow> (p1, w1, Inl MapFailed)
                | (p1, w1, Inr a) \<Rightarrow>
                    (case vp_space p1 of
                       None \<Rightarrow> (p1, w1, Inr a)
                     | Some sp \<Rightarrow>
                         (case copy_pages a (take (min len (length data)) data) sp (vw_machine w1) of
                            (st2, _) \<Rightarrow> (p1, w1\<lparr>vw_machine := st2\<rparr>, Inr a))))
           | _ \<Rightarrow> (p, w, Inl WrongType)))"

section \<open>System calls\<close>

definition EFAULT :: int where "EFAULT = -14"
definition ENOTEMPTY :: int where "ENOTEMPTY = -39"
definition EFBIG :: int where "EFBIG = -27"
definition EACCES :: int where "EACCES = -13"
definition EEXIST :: int where "EEXIST = -17"
definition ENOTDIR :: int where "ENOTDIR = -20"
definition EISDIR :: int where "EISDIR = -21"
definition EIO :: int where "EIO = -5"
definition ENFILE :: int where "ENFILE = -23"
definition EOPNOTSUPP :: int where "EOPNOTSUPP = -95"
definition ECHILD :: int where "ECHILD = -10"
definition EAGAIN :: int where "EAGAIN = -11"

fun process_error_to_errno :: "process_error \<Rightarrow> int" where
  "process_error_to_errno NoCurrentProcess = EINVAL"
| "process_error_to_errno NoSuchProcess = ENOENT"
| "process_error_to_errno NotChild = ECHILD"
| "process_error_to_errno NotRunnable = EAGAIN"
| "process_error_to_errno SchedulerUnavailable = EAGAIN"
| "process_error_to_errno ProcessAlreadyExists = EEXIST"
| "process_error_to_errno AddressInUse = EEXIST"
| "process_error_to_errno OutOfMemory = ENOMEM"
| "process_error_to_errno InvalidFd = EBADF"
| "process_error_to_errno FdTableFull = ENFILE"
| "process_error_to_errno _ = EINVAL"

fun vfs_error_to_errno :: "vfs_error \<Rightarrow> int" where
  "vfs_error_to_errno NotFound = ENOENT"
| "vfs_error_to_errno PermissionDenied = EACCES"
| "vfs_error_to_errno InvalidDescriptor = EBADF"
| "vfs_error_to_errno AlreadyExists = EEXIST"
| "vfs_error_to_errno NotADirectory = ENOTDIR"
| "vfs_error_to_errno IsADirectory = EISDIR"
| "vfs_error_to_errno DirectoryNotEmpty = ENOTEMPTY"
| "vfs_error_to_errno FileTooBig = EFBIG"
| "vfs_error_to_errno InvalidPath = EINVAL"
| "vfs_error_to_errno Unsupported = EOPNOTSUPP"
| "vfs_error_to_errno IoError = EIO"

definition PROT_READ :: u32 where "PROT_READ = push_bit 0 1"
definition PROT_WRITE :: u32 where "PROT_WRITE = push_bit 1 1"
definition PROT_EXEC :: u32 where "PROT_EXEC = push_bit 2 1"
definition MAP_SHARED :: u32 where "MAP_SHARED = push_bit 0 1"
definition MAP_PRIVATE :: u32 where "MAP_PRIVATE = push_bit 1 1"
definition MAP_ANONYMOUS :: u32 where "MAP_ANONYMOUS = push_bit 5 1"
definition MAP_GUARD :: u32 where "MAP_GUARD = push_bit 6 1"

text \<open>Only known bits, and never writable and executable at once.\<close>

definition bad_prot :: "u32 \<Rightarrow> bool" where
  "bad_prot prot \<longleftrightarrow> prot AND NOT (PROT_READ OR PROT_WRITE OR PROT_EXEC) \<noteq> 0 \<or>
     prot AND (PROT_WRITE OR PROT_EXEC) = PROT_WRITE OR PROT_EXEC"

text \<open>The calling process with its memory, its descriptors and the file systems.\<close>

record 'f mm_state =
  mm_proc :: vm_process
  mm_world :: vm_world
  mm_fds :: fd_state
  mm_vfs :: "'f vfs"

definition with_vm :: "(vm_process \<Rightarrow> vm_world \<Rightarrow> vm_process \<times> vm_world \<times> 'r) \<Rightarrow> 'f mm_state \<Rightarrow> 'f mm_state \<times> 'r" where
  "with_vm f s = (case f (mm_proc s) (mm_world s) of (p, w, r) \<Rightarrow> (s\<lparr>mm_proc := p, mm_world := w\<rparr>, r))"

definition process_vfs_fd :: "u32 \<Rightarrow> fd_state \<Rightarrow> int + u32" where
  "process_vfs_fd fd s =
     (case get_fd fd s of
        Some e \<Rightarrow> (case fd_tgt e of FdVfs vfd \<Rightarrow> Inr vfd | _ \<Rightarrow> Inl EBADF)
      | None \<Rightarrow> Inl EBADF)"

text \<open>
  The copy loop, with a bounce buffer of one page; a read that claims more bytes than the buffer has
  panics at the slice.
\<close>

function populate_loop ::
  "'f fs_ops \<Rightarrow> u32 \<Rightarrow> usize \<Rightarrow> usize \<Rightarrow> usize \<Rightarrow> bytes \<Rightarrow> 'f mm_state \<Rightarrow> ('f mm_state \<times> (int + unit)) outcome" where
  "populate_loop ops fd base copy_len pos buf s =
     (if copy_len \<le> pos then Ret (s, Inr ())
      else
        let want = min (copy_len - pos) 4096
        in case vfs_read ops fd (take want buf) (mm_vfs s) of
             (v, part, Inl e) \<Rightarrow> Ret (s\<lparr>mm_vfs := v\<rparr>, Inl (vfs_error_to_errno e))
           | (v, part, Inr rd) \<Rightarrow>
               let s1 = s\<lparr>mm_vfs := v\<rparr>; buf' = part @ drop want buf
               in if rd = 0 then Ret (s1, Inr ())
                  else if length buf' < rd then Panic
                  else
                    case write_mapped_region (base + pos) (take rd buf') (mm_proc s1) (mm_world s1) of
                      (w, Inl e) \<Rightarrow> Ret (s1\<lparr>mm_world := w\<rparr>, Inl (process_error_to_errno e))
                    | (w, Inr _) \<Rightarrow> populate_loop ops fd base copy_len (pos + rd) buf' (s1\<lparr>mm_world := w\<rparr>))"
  by pat_completeness auto
termination
  by (relation "measure (\<lambda>(ops, fd, base, copy_len, pos, buf, s). copy_len - pos)") auto

declare populate_loop.simps [simp del]

definition populate_file_mapping ::
  "'f fs_ops \<Rightarrow> u32 \<Rightarrow> usize \<Rightarrow> usize \<Rightarrow> usize \<Rightarrow> 'f mm_state \<Rightarrow> ('f mm_state \<times> (int + unit)) outcome" where
  "populate_file_mapping ops fd offset base copy_len s =
     (if copy_len = 0 then Ret (s, Inr ())
      else
        case vfs_seek ops fd 0 1 (mm_vfs s) of
          (v, Inl e) \<Rightarrow> Ret (s\<lparr>mm_vfs := v\<rparr>, Inl (vfs_error_to_errno e))
        | (v, Inr saved) \<Rightarrow>
            (case vfs_seek ops fd (of_nat offset) 0 v of
               (v, Inl e) \<Rightarrow> Ret (s\<lparr>mm_vfs := v\<rparr>, Inl (vfs_error_to_errno e))
             | (v, Inr _) \<Rightarrow>
                 (case populate_loop ops fd base copy_len 0 (replicate 4096 0) (s\<lparr>mm_vfs := v\<rparr>) of
                    Panic \<Rightarrow> Panic
                  | Ret (s1, r) \<Rightarrow> Ret (s1\<lparr>mm_vfs := fst (vfs_seek ops fd saved 0 (mm_vfs s1))\<rparr>, r))))"

definition sys_mmap ::
  "'f fs_ops \<Rightarrow> usize \<Rightarrow> usize \<Rightarrow> u32 \<Rightarrow> u32 \<Rightarrow> int \<Rightarrow> usize \<Rightarrow> 'f mm_state \<Rightarrow> ('f mm_state \<times> int) outcome" where
  "sys_mmap ops addr len prot fl fd offset s =
     (if len = 0 \<or> bad_prot prot \<or> (addr \<noteq> 0 \<and> addr mod 4096 \<noteq> 0) then Ret (s, EINVAL)
      else if fl AND MAP_ANONYMOUS \<noteq> 0 then
        if fl AND NOT (MAP_PRIVATE OR MAP_ANONYMOUS OR MAP_GUARD) \<noteq> 0 \<or> fl AND MAP_PRIVATE = 0 then Ret (s, EINVAL)
        else
          case with_vm (map_anonymous addr len (prot AND PROT_WRITE \<noteq> 0) (prot AND PROT_EXEC \<noteq> 0) (fl AND MAP_GUARD \<noteq> 0) (prot \<noteq> 0)) s of
            (s1, Inl e) \<Rightarrow> Ret (s1, process_error_to_errno e)
          | (s1, Inr a) \<Rightarrow> Ret (s1, int a)
      else if fl AND MAP_SHARED \<noteq> 0 then Ret (s, EOPNOTSUPP)
      else if fl AND NOT MAP_PRIVATE \<noteq> 0 \<or> fl AND MAP_PRIVATE = 0 \<or> prot AND PROT_READ = 0 \<or> offset mod 4096 \<noteq> 0 then Ret (s, EINVAL)
      else if fd < 0 then Ret (s, EBADF)
      else
        case process_vfs_fd (of_int fd) (mm_fds s) of
          Inl e \<Rightarrow> Ret (s, e)
        | Inr vfd \<Rightarrow>
            (case vfs_fstat ops vfd (mm_vfs s) of
               Inl e \<Rightarrow> Ret (s, vfs_error_to_errno e)
             | Inr stt \<Rightarrow>
                 if st_type stt \<noteq> File then Ret (s, EACCES)
                 else
                   case with_vm (map_anonymous addr len (prot AND PROT_WRITE \<noteq> 0) (prot AND PROT_EXEC \<noteq> 0) False True) s of
                     (s1, Inl e) \<Rightarrow> Ret (s1, process_error_to_errno e)
                   | (s1, Inr base) \<Rightarrow>
                       (case populate_file_mapping ops vfd offset base (min (st_size stt - offset) len) s1 of
                          Panic \<Rightarrow> Panic
                        | Ret (s2, Inr _) \<Rightarrow> Ret (s2, int base)
                        | Ret (s2, Inl e) \<Rightarrow>
                            (case unmap_range base len (mm_proc s2) (mm_world s2) of
                               Panic \<Rightarrow> Panic
                             | Ret (p, w, _) \<Rightarrow> Ret (s2\<lparr>mm_proc := p, mm_world := w\<rparr>, e)))))"

definition sys_munmap :: "usize \<Rightarrow> usize \<Rightarrow> 'f mm_state \<Rightarrow> ('f mm_state \<times> int) outcome" where
  "sys_munmap addr len s =
     (case unmap_range addr len (mm_proc s) (mm_world s) of
        Panic \<Rightarrow> Panic
      | Ret (p, w, r) \<Rightarrow>
          Ret (s\<lparr>mm_proc := p, mm_world := w\<rparr>, case r of Inl e \<Rightarrow> process_error_to_errno e | Inr _ \<Rightarrow> 0))"

definition sys_mprotect :: "usize \<Rightarrow> usize \<Rightarrow> u32 \<Rightarrow> 'f mm_state \<Rightarrow> 'f mm_state \<times> int" where
  "sys_mprotect addr len prot s =
     (if bad_prot prot then (s, EINVAL)
      else
        case protect_range addr len (prot AND PROT_WRITE \<noteq> 0) (prot AND PROT_EXEC \<noteq> 0) (prot \<noteq> 0) (mm_proc s) (mm_world s) of
          (w, r) \<Rightarrow> (s\<lparr>mm_world := w\<rparr>, case r of Inl e \<Rightarrow> process_error_to_errno e | Inr _ \<Rightarrow> 0))"

definition sys_shared_vm_map :: "u64 \<Rightarrow> usize \<Rightarrow> u32 \<Rightarrow> 'f mm_state \<Rightarrow> 'f mm_state \<times> int" where
  "sys_shared_vm_map sid addr prot s =
     (if prot \<noteq> 1 \<and> prot \<noteq> 3 then (s, EINVAL)
      else
        case with_vm (map_shared_vm sid addr (prot AND 2 \<noteq> 0)) s of
          (s1, Inl e) \<Rightarrow> (s1, process_error_to_errno e)
        | (s1, Inr a) \<Rightarrow> (s1, int a))"

section \<open>Contents\<close>

lemma byte_of_word: "x mod 8 = y mod 8 \<Longrightarrow> word_of x = word_of y \<Longrightarrow> x = y"
  by (metis le_add_diff_inverse2 mod_less_eq_dividend word_of_def)

lemma bit_ff: "bit (0xFF :: u64) q \<longleftrightarrow> q < 8"
proof -
  have ff: "(0xFF :: u64) = mask 8" by (simp add: mask_eq_exp_minus_1)
  show ?thesis unfolding ff bit_mask_iff possible_bit_word by auto
qed

lemma bit_get_byte: "k < 8 \<Longrightarrow> bit (get_byte m x) k \<longleftrightarrow> bit (m (word_of x)) (8 * (x mod 8) + k)"
  unfolding get_byte_def bit_unsigned_iff bit_drop_bit_eq by simp

lemma bit_u8: "bit (b :: u8) k \<Longrightarrow> k < 8"
  using bit_imp_le_length [of b k] by simp

lemma bit_put_byte:
  "n < 64 \<Longrightarrow> bit (put_byte a b m (word_of a)) n \<longleftrightarrow>
     (bit (m (word_of a)) n \<and> \<not> (8 * (a mod 8) \<le> n \<and> n - 8 * (a mod 8) < 8)) \<or>
     (8 * (a mod 8) \<le> n \<and> bit b (n - 8 * (a mod 8)))"
  unfolding put_byte_def fun_upd_same bit_or_iff bit_and_iff bit_not_iff bit_push_bit_iff bit_unsigned_iff bit_ff possible_bit_word
  by (auto dest: bit_u8)

lemma get_put_byte: "get_byte (put_byte a b m) x = (if x = a then b else get_byte m x)"
proof (cases "word_of x = word_of a")
  case True
  define i j where "i = a mod 8" and "j = x mod 8"
  have ij: "i < 8" "j < 8" "j = i \<longleftrightarrow> x = a" using byte_of_word True by (auto simp: i_def j_def)
  show ?thesis
  proof (rule bit_word_eqI)
    fix k assume "k < LENGTH(8)"
    then have k: "k < 8" by simp
    have "bit (get_byte (put_byte a b m) x) k \<longleftrightarrow>
        (bit (m (word_of a)) (8 * j + k) \<and> \<not> (8 * i \<le> 8 * j + k \<and> 8 * j + k - 8 * i < 8)) \<or> (8 * i \<le> 8 * j + k \<and> bit b (8 * j + k - 8 * i))"
      unfolding bit_get_byte [OF k] True using bit_put_byte [of "8 * j + k" a b m] k ij(2) by (simp add: i_def j_def)
    moreover consider "j = i" | "j < i" | "i < j" by linarith
    then have "(bit (m (word_of a)) (8 * j + k) \<and> \<not> (8 * i \<le> 8 * j + k \<and> 8 * j + k - 8 * i < 8)) \<or> (8 * i \<le> 8 * j + k \<and> bit b (8 * j + k - 8 * i))
        \<longleftrightarrow> (if x = a then bit b k else bit (m (word_of a)) (8 * j + k))"
      by cases (use ij k in \<open>auto dest: bit_u8\<close>)
    ultimately show "bit (get_byte (put_byte a b m) x) k = bit (if x = a then b else get_byte m x) k"
      using bit_get_byte [OF k, of m x] True by (simp add: j_def)
  qed
next
  case False
  then show ?thesis by (auto simp: get_byte_def put_byte_def)
qed

lemma word_of_eq: "word_of x = 8 * (x div 8)"
  by (simp add: word_of_def minus_mod_eq_mult_div)

lemma get_put_bytes: "get_byte (put_bytes a bs m) x = (if a \<le> x \<and> x < a + length bs then bs ! (x - a) else get_byte m x)"
proof (induction bs arbitrary: a m)
  case (Cons b bs)
  have "x - a = Suc (x - (a + 1))" if "a + 1 \<le> x" using that by simp
  then show ?case unfolding put_bytes.simps Cons.IH by (auto simp: get_put_byte)
qed auto

lemma put_bytes_word: "(\<And>x. a \<le> x \<Longrightarrow> x < a + length bs \<Longrightarrow> word_of x \<noteq> y) \<Longrightarrow> put_bytes a bs m y = m y"
proof (induction bs arbitrary: a m)
  case (Cons b bs)
  have "word_of a \<noteq> y" using Cons.prems [of a] by simp
  then have "put_byte a b m y = m y" by (simp add: put_byte_def)
  moreover have "put_bytes (a + 1) bs (put_byte a b m) y = put_byte a b m y" by (rule Cons.IH) (use Cons.prems in auto)
  ultimately show ?case by simp
qed simp

lemma page_of_index:
  "p4_index (v - v mod 4096) = p4_index v" "p3_index (v - v mod 4096) = p3_index v"
  "p2_index (v - v mod 4096) = p2_index v" "p1_index (v - v mod 4096) = p1_index v" "page_offset (v - v mod 4096) = 0"
proof -
  define q where "q = v div 4096"
  have q: "v - v mod 4096 = 4096 * q" by (simp add: q_def minus_mod_eq_mult_div)
  have d: "v div 2 ^ (12 + k) = q div 2 ^ k" "(4096 * q) div 2 ^ (12 + k) = q div 2 ^ k" for k
    by (simp_all add: q_def power_add div_mult2_eq)
  show "p4_index (v - v mod 4096) = p4_index v" "p3_index (v - v mod 4096) = p3_index v"
    "p2_index (v - v mod 4096) = p2_index v" "p1_index (v - v mod 4096) = p1_index v"
    using d(1) [of 27] d(2) [of 27] d(1) [of 18] d(2) [of 18] d(1) [of 9] d(2) [of 9] d(1) [of 0] d(2) [of 0]
    unfolding q p4_index_def p3_index_def p2_index_def p1_index_def by simp_all
  show "page_offset (v - v mod 4096) = 0" unfolding q page_offset_def by simp
qed

text \<open>The physical address of a byte of user memory.\<close>

definition phys_at :: "address_space \<Rightarrow> machine \<Rightarrow> usize \<Rightarrow> usize option" where
  "phys_at sp st v = map_option (\<lambda>(f, _). f + v mod 4096) (space_view sp st (v - v mod 4096))"

lemma translate_phys:
  assumes "space_ok F sp st" "v < USER_SPACE_END"
  shows "translate_user_page sp v st = Inr (phys_at sp st v)"
proof -
  let ?v = "v - v mod 4096"
  have u: "user_page ?v" using assms(2) by (auto simp: user_page_def PAGE_SIZE_def minus_mod_eq_mult_div)
  have "user_page_mapping_from_root (root_frame sp) v (mem st) =
      map_sum id (map_option (\<lambda>(a, fl). (a + v mod 4096, fl))) (user_page_mapping_from_root (root_frame sp) ?v (mem st))"
    using assms(2) u unfolding user_page_mapping_from_root_def page_of_index
    by (auto simp: Let_def page_offset_def user_page_def)
  also have "\<dots> = map_sum id (map_option (\<lambda>(a, fl). (a + v mod 4096, fl))) (Inr (space_view sp st ?v))"
    using space_view_mapping [OF assms(1) u] by (simp add: user_page_mapping_def)
  finally show ?thesis by (simp add: translate_user_page_def user_page_mapping_def phys_at_def option.map_comp comp_def case_prod_unfold)
qed

lemma space_data_write:
  assumes ok: "space_ok F sp st" and same: "\<And>t i. t \<in> set (page_table_frames sp) \<Longrightarrow> i < 512 \<Longrightarrow> m' (slot t i) = mem st (slot t i)"
  shows "space_ok F sp (st\<lparr>mem := m'\<rparr>) \<and> space_view sp (st\<lparr>mem := m'\<rparr>) = space_view sp st"
proof -
  note t = space_okD [OF ok]
  have tab: "tables_ok m' (root_frame sp) (set (page_table_frames sp))" using tables_ok_cong [OF t(2)] same by blast
  have "leaf m' (root_frame sp) v = leaf (mem st) (root_frame sp) v" if v: "user_page v" for v
  proof (rule leaf_cong [OF t(2) v])
    have p: "user_path (page_path v)" using page_path_user [OF v] by (simp add: user_slot_def)
    show "table_at m' (root_frame sp) (page_path v) = table_at (mem st) (root_frame sp) (page_path v)"
      by (rule table_at_cong [OF t(2) _ p]) (rule same)
    show "m' (slot u (p1_index v)) = mem st (slot u (p1_index v))" if "table_at (mem st) (root_frame sp) (page_path v) = Some u" for u
      using same tables_okD(1) [OF t(2) p that] p1_index_small by blast
  qed
  then have view: "space_view sp (st\<lparr>mem := m'\<rparr>) = space_view sp st" by (auto simp: space_view_def fun_eq_iff)
  have "tab_ok sp (st\<lparr>mem := m'\<rparr>)" using t(1) tab by (simp add: tab_ok_def)
  then show ?thesis using ok view unfolding space_ok_def by simp
qed

text \<open>A write inside a frame that is no page table.\<close>

lemma frame_write:
  assumes ok: "space_ok F sp st" and f: "frame_addr_ok f" "f \<notin> set (page_table_frames sp)"
    and r: "f \<le> a" "a + length bs \<le> f + 4096"
  shows "space_ok F sp (st\<lparr>mem := put_bytes a bs (mem st)\<rparr>) \<and> space_view sp (st\<lparr>mem := put_bytes a bs (mem st)\<rparr>) = space_view sp st"
proof (rule space_data_write [OF ok])
  fix t and i :: nat assume t: "t \<in> set (page_table_frames sp)" "i < 512"
  have "frame_addr_ok t" using space_okD(2) [OF ok] t(1) by (simp add: tables_ok_def)
  then have o: "\<not> (f \<le> slot t i \<and> slot t i < f + PAGE_SIZE)" using slot_other_page [of t f i] f t by (auto simp: frame_addr_ok_def)
  show "put_bytes a bs (mem st) (slot t i) = mem st (slot t i)"
  proof (rule put_bytes_word)
    fix x assume x: "a \<le> x" "x < a + length bs"
    obtain k where k: "f = 8 * k" using f(1) by (auto simp: frame_addr_ok_def PAGE_SIZE_def elim!: dvdE) 
    have w: "word_of x = 8 * (x div 8)" by (simp add: word_of_def minus_mod_eq_mult_div)
    have "8 * k \<le> x" "x < 8 * (k + 512)" using x r k by simp_all
    then have "k \<le> x div 8" "x div 8 < k + 512" by (simp_all add: less_eq_div_iff_mult_less_eq div_less_iff_less_mult mult.commute)
    then have "f \<le> word_of x" "word_of x < f + PAGE_SIZE" unfolding w k by (simp_all add: PAGE_SIZE_def)
    then show "word_of x \<noteq> slot t i" using o by auto
  qed
qed

lemma phys_at_cong: "space_view sp st' = space_view sp st \<Longrightarrow> phys_at sp st' = phys_at sp st"
  by (simp add: phys_at_def fun_eq_iff)

lemma page_add: "j < USER_PAGE_SIZE - a mod USER_PAGE_SIZE \<Longrightarrow> (a + j) mod 4096 = a mod 4096 + j \<and> a + j - (a + j) mod 4096 = a - a mod 4096"
proof -
  assume j: "j < USER_PAGE_SIZE - a mod USER_PAGE_SIZE"
  have "(a + j) mod 4096 = (a mod 4096 + j) mod 4096" by presburger
  then have "(a + j) mod 4096 = a mod 4096 + j" using j by (simp add: USER_PAGE_SIZE_def)
  then show ?thesis by simp
qed

definition copied :: "address_space \<Rightarrow> machine \<Rightarrow> usize \<Rightarrow> bytes \<Rightarrow> phys_mem \<Rightarrow> bool" where
  "copied sp st addr data m' \<longleftrightarrow>
     (\<forall>i x. i < length data \<longrightarrow> phys_at sp st (addr + i) = Some x \<longrightarrow> get_byte m' x = data ! i) \<and>
     (\<forall>x. (\<forall>i < length data. phys_at sp st (addr + i) \<noteq> Some x) \<longrightarrow> get_byte m' x = get_byte (mem st) x)"

lemma copy_pages_spec:
  "space_ok F sp st \<Longrightarrow> addr + length data \<le> USER_SPACE_END \<Longrightarrow>
     \<forall>i < length data. phys_at sp st (addr + i) \<noteq> None \<Longrightarrow> inj_on (phys_at sp st) {addr..<addr + length data} \<Longrightarrow>
     \<exists>m'. copy_pages addr data sp st = (st\<lparr>mem := m'\<rparr>, Inr ()) \<and> space_ok F sp (st\<lparr>mem := m'\<rparr>) \<and>
       space_view sp (st\<lparr>mem := m'\<rparr>) = space_view sp st \<and> copied sp st addr data m'"
proof (induction "length data" arbitrary: addr data st rule: less_induct)
  case less
  show ?case
  proof (cases "data = []")
    case True
    then show ?thesis using less.prems(1) by (intro exI [of _ "mem st"]) (simp add: copy_pages.simps copied_def)
  next
    case ne: False
    define c where "c = min (USER_PAGE_SIZE - addr mod USER_PAGE_SIZE) (length data)"
    have c: "0 < c" "c \<le> length data" "c \<le> USER_PAGE_SIZE - addr mod USER_PAGE_SIZE" using ne by (auto simp: c_def USER_PAGE_SIZE_def)
    obtain ph where ph: "phys_at sp st addr = Some ph" using less.prems(3) ne by (metis add.right_neutral length_greater_0_conv not_None_eq)
    obtain f fl where f: "space_view sp st (addr - addr mod 4096) = Some (f, fl)" "ph = f + addr mod 4096"
      using ph by (auto simp: phys_at_def)
    have near: "phys_at sp st (addr + j) = Some (ph + j)" if "j < c" for j
      using page_add [of j addr] c(3) that f by (simp add: phys_at_def)
    define st1 where "st1 = st\<lparr>mem := put_bytes ph (take c data) (mem st)\<rparr>"
    have ok1: "space_ok F sp st1 \<and> space_view sp st1 = space_view sp st"
      unfolding st1_def by (rule frame_write [OF less.prems(1) space_frame_ok [OF less.prems(1) f(1)]])
        (use space_view_not_free [OF less.prems(1) f(1)] f(2) c in \<open>auto simp: USER_PAGE_SIZE_def\<close>)
    have pa: "phys_at sp st1 = phys_at sp st" using ok1 phys_at_cong by blast
    have tr: "translate_user_page sp addr st = Inr (Some ph)" using translate_phys [OF less.prems(1), of addr] less.prems(2) ph c by simp
    have step: "copy_pages addr data sp st = copy_pages (addr + c) (drop c data) sp st1"
      using ne tr by (subst copy_pages.simps) (simp add: c_def [symmetric] st1_def Let_def)
    obtain m' where m': "copy_pages (addr + c) (drop c data) sp st1 = (st1\<lparr>mem := m'\<rparr>, Inr ())" "space_ok F sp (st1\<lparr>mem := m'\<rparr>)"
      "space_view sp (st1\<lparr>mem := m'\<rparr>) = space_view sp st1" "copied sp st1 (addr + c) (drop c data) m'"
    proof -
      have "\<forall>i < length (drop c data). phys_at sp st1 (addr + c + i) \<noteq> None" using less.prems(3) pa by (simp add: add.assoc)
      moreover have "inj_on (phys_at sp st1) {addr + c..<addr + c + length (drop c data)}"
        unfolding pa by (rule inj_on_subset [OF less.prems(4)]) (use c in auto)
      moreover have "length (drop c data) < length data" "addr + c + length (drop c data) \<le> USER_SPACE_END" using c less.prems(2) by auto
      ultimately show ?thesis using less.hyps [of "drop c data" st1 "addr + c"] ok1 that by blast
    qed
    have b1: "get_byte (mem st1) x = (if ph \<le> x \<and> x < ph + c then data ! (x - ph) else get_byte (mem st) x)" for x
      using c(2) by (auto simp: st1_def get_put_bytes)
    have "copied sp st addr data m'"
      unfolding copied_def
    proof (intro conjI allI impI)
      fix i x assume i: "i < length data" "phys_at sp st (addr + i) = Some x"
      show "get_byte m' x = data ! i"
      proof (cases "i < c")
        case True
        then have x: "x = ph + i" using near i(2) by simp
        have "phys_at sp st1 (addr + c + j) \<noteq> Some x" if "j < length (drop c data)" for j
        proof
          assume "phys_at sp st1 (addr + c + j) = Some x"
          then have "phys_at sp st (addr + i) = phys_at sp st (addr + c + j)" using i(2) pa by simp
          then have "addr + i = addr + c + j" by (rule inj_onD [OF less.prems(4)]) (use i(1) that in auto)
          then show False using True by simp
        qed
        then have "get_byte m' x = get_byte (mem st1) x" using m'(4) by (simp add: copied_def)
        then show ?thesis using b1 x True by simp
      next
        case False
        then have "i - c < length (drop c data)" "phys_at sp st1 (addr + c + (i - c)) = Some x" using i pa by auto
        then have "get_byte m' x = drop c data ! (i - c)" using m'(4) unfolding copied_def by blast
        then show ?thesis using False c(2) by simp
      qed
    next
      fix x assume x: "\<forall>i < length data. phys_at sp st (addr + i) \<noteq> Some x"
      have out: "\<not> (ph \<le> x \<and> x < ph + c)"
      proof
        assume r: "ph \<le> x \<and> x < ph + c"
        then have lt: "x - ph < c" "ph + (x - ph) = x" by linarith+
        from near [OF lt(1)] have "phys_at sp st (addr + (x - ph)) = Some x" unfolding lt(2) .
        moreover have "x - ph < length data" using lt(1) c(2) by linarith
        ultimately show False using x by blast
      qed
      have "\<forall>j < length (drop c data). phys_at sp st1 (addr + c + j) \<noteq> Some x" using x pa by (auto simp: add.assoc)
      then have "get_byte m' x = get_byte (mem st1) x" using m'(4) unfolding copied_def by blast
      then show "get_byte m' x = get_byte (mem st) x" unfolding b1 [of x] if_not_P [OF out] .
    qed
    then show ?thesis using step m' ok1 by (intro exI [of _ m']) (simp add: st1_def)
  qed
qed

section \<open>Enough memory is enough\<close>

lemma free_set_finite: "frames_ok st \<Longrightarrow> finite (free_set st)"
  by (auto simp: frames_ok_def free_set_def intro: frames.avail_finite)

lemma alloc_available:
  assumes "frames_ok st" "0 < card (free_set st)"
  obtains pm pm' f where "m_pmm st = Some pm" "alloc_frame pm = (pm', Some f)"
    "\<And>m. card (free_set (st\<lparr>m_pmm := Some pm', mem := m\<rparr>)) = card (free_set st) - 1"
proof -
  obtain pm where pm: "m_pmm st = Some pm" "pmm_ok pm" using assms(1) by (auto simp: frames_ok_def)
  have "free_addrs pm \<noteq> {}" using assms(2) pm(1) by (auto simp: free_set_def)
  then obtain pm' f where al: "alloc_frame pm = (pm', Some f)" using frames.alloc_succeeds [OF pm(2)] by blast
  have "card (free_set (st\<lparr>m_pmm := Some pm', mem := m\<rparr>)) = card (free_set st) - 1" for m
    using alloc_machine [OF assms(1) pm(1) al, of m] free_set_finite [OF assms(1)] by simp
  then show ?thesis using that pm(1) al by blast
qed

lemma ensure_next_table_total:
  assumes ok: "tab_ok sp st" and q: "user_slot q i" "length q < 3" "table_at (mem st) (root_frame sp) q = Some t"
    and free: "0 < card (free_set st)"
  shows "\<exists>sp' st' t'. ensure_next_table (slot t i) sp st = (sp', st', Inr t') \<and> card (free_set st) - 1 \<le> card (free_set st')"
proof (cases "mem st (slot t i) = 0")
  case False
  have "\<not> pf_contains (pte_flags (mem st (slot t i))) PF_HUGE"
    using next_table_ok(2) [OF _ q False] ok unfolding tab_ok_def by blast
  then show ?thesis using False by (simp add: ensure_next_table_def Let_def)
next
  case True
  have "frames_ok st" using ok by (simp add: tab_ok_def)
  then obtain pm pm' f where al: "m_pmm st = Some pm" "alloc_frame pm = (pm', Some f)"
    "\<And>m. card (free_set (st\<lparr>m_pmm := Some pm', mem := m\<rparr>)) = card (free_set st) - 1" using alloc_available free by blast
  then show ?thesis using True by (simp add: ensure_next_table_def Let_def)
qed

lemma map_user_frame_total:
  assumes ok: "tab_ok sp st" and v: "user_page v" "v \<noteq> 0" "leaf (mem st) (root_frame sp) v = None"
    and ph: "frame_addr_ok ph" and free: "3 \<le> card (free_set st)"
  shows "\<exists>sp' st'. map_user_frame v ph fl sp st = (sp', st', Inr ()) \<and> card (free_set st) - 3 \<le> card (free_set st')"
proof -
  have u: "user_slot [] (p4_index v)" "user_slot [p4_index v] (p3_index v)" "user_slot [p4_index v, p3_index v] (p2_index v)"
    using page_path_user [OF v(1)] by (auto simp: user_slot_def user_path_def page_path_def p3_index_def p2_index_def)
  obtain sp1 st1 p3 where e1: "ensure_next_table (slot (root_frame sp) (p4_index v)) sp st = (sp1, st1, Inr p3)"
    "card (free_set st) - 1 \<le> card (free_set st1)" using ensure_next_table_total [OF ok u(1)] free by fastforce
  have g1: "grown sp st sp1 st1" "table_at (mem st1) (root_frame sp1) [p4_index v] = Some p3"
    using ensure_next_table_spec [OF ok u(1) _ _ e1(1)] by simp_all
  have ok1: "tab_ok sp1 st1" using g1(1) by (simp add: grown_def)
  obtain sp2 st2 p2 where e2: "ensure_next_table (slot p3 (p3_index v)) sp1 st1 = (sp2, st2, Inr p2)"
    "card (free_set st1) - 1 \<le> card (free_set st2)" using ensure_next_table_total [OF ok1 u(2) _ g1(2)] free e1(2) by fastforce
  have g2: "grown sp1 st1 sp2 st2" "table_at (mem st2) (root_frame sp2) [p4_index v, p3_index v] = Some p2"
    using ensure_next_table_spec [OF ok1 u(2) _ g1(2) e2(1)] by simp_all
  have ok2: "tab_ok sp2 st2" using g2(1) by (simp add: grown_def)
  obtain sp3 st3 p1 where e3: "ensure_next_table (slot p2 (p2_index v)) sp2 st2 = (sp3, st3, Inr p1)"
    "card (free_set st2) - 1 \<le> card (free_set st3)" using ensure_next_table_total [OF ok2 u(3) _ g2(2)] free e1(2) e2(2) by fastforce
  have g: "grown sp st sp3 st3" "table_at (mem st3) (root_frame sp) (page_path v) = Some p1"
    using walk_tables [OF ok v(1) e1(1) e2(1) e3(1)] by auto
  have "leaf (mem st3) (root_frame sp) v = None" using g(1) v(1,3) by (simp add: grown_def)
  then have z: "mem st3 (slot p1 (p1_index v)) = 0" using g(2) by (simp add: leaf_def Let_def split: if_splits)
  have nb: "\<not> bad_user_page v" "ph mod PAGE_SIZE = 0" using v(1,2) ph by (auto simp: user_page_not_bad frame_addr_ok_def dvd_eq_mod_eq_0)
  have "map_user_frame v ph fl sp st = (sp3, st3\<lparr>mem := (mem st3)(slot p1 (p1_index v) := pte_make ph (fl OR PF_PRESENT OR PF_USER))\<rparr>, Inr ())"
    using nb e1(1) e2(1) e3(1) z by (simp add: map_user_frame_def Let_def)
  then show ?thesis using e1(2) e2(2) e3(2) by simp
qed

lemma map_user_page_total:
  assumes ok: "space_ok F sp st" and v: "\<not> bad_user_page v" "space_view sp st v = None" and free: "4 \<le> card (free_set st)"
  shows "\<exists>sp' st' f. map_user_page v fl sp st = (sp', st', Inr f) \<and> card (free_set st) - 4 \<le> card (free_set st')"
proof -
  have u: "user_page v" "v \<noteq> 0" using v(1) by (simp_all add: user_page_not_bad)
  obtain pm pm' f where al: "m_pmm st = Some pm" "alloc_frame pm = (pm', Some f)"
    "\<And>m. card (free_set (st\<lparr>m_pmm := Some pm', mem := m\<rparr>)) = card (free_set st) - 1"
    using alloc_available [OF space_okD(3) [OF ok]] free by (metis less_le_trans zero_less_numeral)
  define st0 where "st0 = st\<lparr>m_pmm := Some pm', mem := zero_page f (mem st)\<rparr>"
  note s0 = space_ok_alloc [OF ok al(1,2) st0_def]
  have "leaf (mem st0) (root_frame sp) v = None" using s0 v(2) u(1) by (auto simp: space_view_def fun_eq_iff split: if_splits)
  moreover have "3 \<le> card (free_set st0)" using al(3) free by (simp add: st0_def)
  ultimately obtain sp' st' where "map_user_frame v f (fl OR PF_PRESENT OR PF_USER) sp st0 = (sp', st', Inr ())"
    "card (free_set st0) - 3 \<le> card (free_set st')"
    using map_user_frame_total [OF space_okD(1) u, of F sp st0 f] s0 by blast
  then show ?thesis using v(1) al by (auto simp: map_user_page_def st0_def)
qed

lemma map_pages_total:
  "space_ok F sp st \<Longrightarrow> flags_ok fl \<Longrightarrow> \<forall>p \<in> set ps. \<not> bad_user_page p \<and> space_view sp st p = None \<Longrightarrow> distinct ps \<Longrightarrow>
     4 * length ps \<le> card (free_set st) \<Longrightarrow> snd (map_pages ps fl mapped (sp, st))"
proof (induction ps arbitrary: mapped sp st)
  case (Cons p ps)
  obtain sp1 st1 f where m: "map_user_page p fl sp st = (sp1, st1, Inr f)" "card (free_set st) - 4 \<le> card (free_set st1)"
    using map_user_page_total [OF Cons.prems(1), of p fl] Cons.prems(3,5) by auto
  note s = map_user_page_spec [OF Cons.prems(1,2) m(1), simplified]
  have "snd (map_pages ps fl (mapped @ [p]) (sp1, st1))"
    by (rule Cons.IH) (use s Cons.prems m(2) in auto)
  then show ?case using m(1) by simp
qed simp

section \<open>Anonymous memory\<close>

definition anon_lo :: "usize \<Rightarrow> vm_process \<Rightarrow> usize" where
  "anon_lo requested p = (if requested = 0 then next_mmap_addr p else requested)"

definition anon_hi :: "usize \<Rightarrow> usize \<Rightarrow> bool \<Rightarrow> vm_process \<Rightarrow> usize" where
  "anon_hi requested len guarded p = anon_lo requested p + (page_up len + (if guarded then 2 * USER_PAGE_SIZE else 0))"

definition anon_valid :: "usize \<Rightarrow> usize \<Rightarrow> bool \<Rightarrow> vm_process \<Rightarrow> bool" where
  "anon_valid requested len guarded p \<longleftrightarrow> \<not> cp_is_kernel (vp_caps p) \<and> 0 < len \<and>
     map_range (anon_lo requested p) (anon_hi requested len guarded p)"

lemma map_anonymous_chosen:
  assumes valid: "anon_valid requested len guarded p" and sp: "vp_space p = Some sp"
  shows "map_anonymous requested len writable executable guarded accessible p w =
    map_chosen requested (anon_lo requested p) (anon_hi requested len guarded p) (page_up len) writable executable guarded accessible sp p w"
proof -
  have m: "USER_MMAP_BASE \<le> anon_lo requested p" "anon_hi requested len guarded p \<le> USER_MMAP_END"
    "anon_lo requested p mod USER_PAGE_SIZE = 0" using valid by (auto simp: anon_valid_def map_range_def)
  have big: "USER_MMAP_END + 2 * USER_PAGE_SIZE \<le> usize_max" by (simp add: USER_MMAP_END_def USER_PAGE_SIZE_def usize_max_def usize_modulus_def)
  have l: "page_up len \<le> USER_MMAP_END" using m(2) by (simp add: anon_hi_def)
  have b: "len + (USER_PAGE_SIZE - 1) \<le> usize_max" "page_up len + 2 * USER_PAGE_SIZE \<le> usize_max"
    using page_up(3) [of len] l big by (auto simp: USER_PAGE_SIZE_def)
  have c: "checked_add len (USER_PAGE_SIZE - 1) = Some (len + (USER_PAGE_SIZE - 1))"
    "(if guarded then checked_add (page_up len) (2 * USER_PAGE_SIZE) else Some (page_up len)) =
       Some (page_up len + (if guarded then 2 * USER_PAGE_SIZE else 0))"
    "checked_add (anon_lo requested p) (page_up len + (if guarded then 2 * USER_PAGE_SIZE else 0)) = Some (anon_hi requested len guarded p)"
    using b m(2) big by (auto simp: checked_add_def anon_hi_def)
  have r: "\<not> (requested \<noteq> 0 \<and> requested mod USER_PAGE_SIZE \<noteq> 0)" using m(3) unfolding anon_lo_def by (cases "requested = 0") simp_all
  show ?thesis using valid m(1,2) sp
    unfolding map_anonymous_def Let_def c(1) option.case page_up_def [symmetric] c(2) anon_lo_def [symmetric] c(3) if_not_P [OF r]
    by (simp add: anon_valid_def)
qed

lemma map_anonymous_outcome:
  assumes inv: "vm_inv R p w" and sp: "vp_space p = Some sp"
    and run: "map_anonymous requested len writable executable guarded accessible p w = (p', w', res)"
  shows "\<exists>sp'. space_ok (shared_frames (vw_globals w)) sp' (vw_machine w') \<and> vp_space p' = Some sp' \<and> w' = w\<lparr>vw_machine := vw_machine w'\<rparr> \<and>
    (case res of
      Inl e \<Rightarrow> p' = p\<lparr>vp_space := Some sp'\<rparr> \<and> space_view sp' (vw_machine w') = space_view sp (vw_machine w)
    | Inr a \<Rightarrow> map_range (anon_lo requested p) (anon_hi requested len guarded p) \<and> 0 < page_up len \<and>
        anon_effect requested (anon_lo requested p) (anon_hi requested len guarded p) (page_up len) writable executable guarded accessible
          sp p w sp' p' w' (Inr a))"
proof -
  have at: "vm_at R sp p w" and al: "next_mmap_addr p mod USER_PAGE_SIZE = 0" using inv sp by (auto simp: vm_inv_def)
  note I = vm_atD [OF at]
  from run sp al show ?thesis
  proof (cases rule: map_anonymous_cases)
    case invalid
    then show ?thesis using sp I(2) by (intro exI [of _ sp]) (simp add: same_space)
  next
    case (chosen lo hi)
    have e: "lo = anon_lo requested p" "hi = anon_hi requested len guarded p" using chosen(4,5) by (simp_all add: anon_lo_def anon_hi_def)
    have n: "0 < page_up len" using chosen(2,3,5) by (cases guarded) auto
    show ?thesis using map_chosen_spec [OF I(2) chosen(1,2,3) sp chosen(6)] sp chosen(1) n unfolding e anon_effect_def
      by (cases res) auto
  qed
qed

lemma map_anonymous_complete:
  assumes inv: "vm_inv R p w" and sp: "vp_space p = Some sp"
    and run: "map_anonymous requested len writable executable guarded accessible p w = (p', w', res)"
    and v: "anon_valid requested len guarded p"
    and free: "\<forall>v \<in> pages (anon_lo requested p) (anon_hi requested len guarded p). space_view sp (vw_machine w) v = None"
    and enough: "4 * card (pages (anon_lo requested p) (anon_hi requested len guarded p)) \<le> card (free_set (vw_machine w))"
  shows "\<not> isl res"
proof -
  let ?lo = "anon_lo requested p" and ?hi = "anon_hi requested len guarded p"
  have at: "vm_at R sp p w" using inv sp by (auto simp: vm_inv_def)
  note I = vm_atD [OF at]
  have r: "map_range ?lo ?hi" using v by (simp add: anon_valid_def)
  have pl: "set (page_list ?lo ?hi) = pages ?lo ?hi" "distinct (page_list ?lo ?hi)" using page_list_set r by (auto simp: map_range_def)
  have nb: "\<forall>p \<in> pages ?lo ?hi. \<not> bad_user_page p" using pages_not_bad r by (auto simp: map_range_def)
  have len: "length (page_list ?lo ?hi) = card (pages ?lo ?hi)" using pl distinct_card by metis
  have "snd (map_pages (page_list ?lo ?hi) (prot_flags writable executable) [] (sp, vw_machine w))"
    by (rule map_pages_total [OF I(2) prot_flags_ok _ pl(2)]) (use pl(1) nb free enough len in auto)
  moreover have "0 < page_up len" using v page_up(2) by (simp add: anon_valid_def)
  then have "?lo < ?hi" "guarded \<Longrightarrow> ?lo + 2 * USER_PAGE_SIZE < ?hi" by (auto simp: anon_hi_def)
  ultimately show ?thesis
    using map_chosen_spec [OF I(2) r _ _ sp run [unfolded map_anonymous_chosen [OF v sp]]] free
    unfolding anon_effect_def by (cases res) auto
qed

text \<open>
  C36. Anonymous mappings are exact and all or nothing. Every call that fails leaves each translation of
  the process as it was. A call that succeeds maps exactly the pages of the chosen range, which were
  all unmapped, each to a frame that was free and that reads as zero, with the requested access; the
  guard pages and an inaccessible mapping are not present. And a call with a valid range of unmapped
  pages succeeds whenever four free frames per page are left.
\<close>
theorem map_anonymous_exact:
  assumes "vm_inv R p w" "vp_space p = Some sp"
    and "map_anonymous requested len writable executable guarded accessible p w = (p', w', res)"
  shows "(case res of
      Inl e \<Rightarrow> same_view p w p' w'
    | Inr a \<Rightarrow> \<exists>sp'. vp_space p' = Some sp' \<and> a = anon_lo requested p + (if guarded then USER_PAGE_SIZE else 0) \<and>
        mapped_fresh (anon_lo requested p) (anon_hi requested len guarded p)
          (anon_flags writable executable guarded accessible (anon_lo requested p) (anon_hi requested len guarded p))
          sp (vw_machine w) sp' (vw_machine w')) \<and>
    (anon_valid requested len guarded p \<and> (\<forall>v \<in> pages (anon_lo requested p) (anon_hi requested len guarded p). space_view sp (vw_machine w) v = None) \<and>
     4 * card (pages (anon_lo requested p) (anon_hi requested len guarded p)) \<le> card (free_set (vw_machine w)) \<longrightarrow> \<not> isl res)"
proof (intro conjI impI)
  show "case res of
      Inl e \<Rightarrow> same_view p w p' w'
    | Inr a \<Rightarrow> \<exists>sp'. vp_space p' = Some sp' \<and> a = anon_lo requested p + (if guarded then USER_PAGE_SIZE else 0) \<and>
        mapped_fresh (anon_lo requested p) (anon_hi requested len guarded p)
          (anon_flags writable executable guarded accessible (anon_lo requested p) (anon_hi requested len guarded p))
          sp (vw_machine w) sp' (vw_machine w')"
    using map_anonymous_outcome [OF assms] assms(2) by (cases res) (auto simp: anon_effect_def same_view_def)
qed (use map_anonymous_complete [OF assms] in blast)

section \<open>Thread-local storage\<close>

text \<open>A byte of user memory.\<close>

definition user_byte :: "address_space \<Rightarrow> machine \<Rightarrow> usize \<Rightarrow> u8 option" where
  "user_byte sp st v = (case translate_user_page sp v st of Inr (Some ph) \<Rightarrow> Some (get_byte (mem st) ph) | _ \<Rightarrow> None)"

lemma frame_offset_unique:
  assumes "frame_addr_ok f" "frame_addr_ok g" "f + a = g + b" "a < 4096" "b < 4096"
  shows "f = g \<and> a = b"
proof -
  obtain k l where "f = 4096 * k" "g = 4096 * l" using assms(1,2) by (auto simp: frame_addr_ok_def PAGE_SIZE_def elim!: dvdE)
  then have "(f + a) mod 4096 = a" "(g + b) mod 4096 = b" using assms(4,5) by simp_all
  then have "a = b" using assms(3) by metis
  then show ?thesis using assms(3) by simp
qed

lemma owned_bytes_unique:
  assumes ok: "space_ok F sp st" and v: "phys_at sp st v = Some x" "phys_at sp st u = Some x"
    and own: "\<And>f fl. space_view sp st (v - v mod 4096) = Some (f, fl) \<Longrightarrow> f \<in> set (user_frames sp)"
  shows "v = u"
proof -
  obtain f fl where f: "space_view sp st (v - v mod 4096) = Some (f, fl)" "x = f + v mod 4096" using v(1) by (auto simp: phys_at_def)
  obtain g gl where g: "space_view sp st (u - u mod 4096) = Some (g, gl)" "x = g + u mod 4096" using v(2) by (auto simp: phys_at_def)
  have "f + v mod 4096 = g + u mod 4096" using f(2) g(2) by (rule subst)
  from frame_offset_unique [OF space_frame_ok [OF ok f(1)] space_frame_ok [OF ok g(1)] this]
  have eq: "f = g" "v mod 4096 = u mod 4096" by simp_all
  have "v - v mod 4096 = u - u mod 4096" by (rule space_ok_inj [OF ok f(1) g(1) [folded eq(1)] own [OF f(1)]])
  then show ?thesis by (metis eq(2) le_add_diff_inverse2 mod_less_eq_dividend)
qed

text \<open>The bytes of a fresh mapping: all there, all zero, none shared.\<close>

lemma fresh_bytes:
  assumes ok0: "space_ok F sp st" and ok: "space_ok F sp' st'" and m: "mapped_fresh lo hi fl sp st sp' st'" and r: "map_range lo hi"
    and v: "lo \<le> v" "v < hi"
  shows "phys_at sp' st' v \<noteq> None" "phys_at sp' st' v = Some x \<Longrightarrow> phys_at sp' st' u = Some x \<Longrightarrow> v = u"
    "phys_at sp' st' v = Some x \<Longrightarrow> get_byte (mem st') x = 0" "v < USER_SPACE_END"
    "\<exists>f. space_view sp' st' (v - v mod 4096) = Some (f, fl (v - v mod 4096)) \<and> f \<in> free_set st"
proof -
  obtain a b where ab: "lo = a * 4096" "hi = b * 4096" using r by (auto simp: map_range_def USER_PAGE_SIZE_def elim!: dvdE simp flip: dvd_eq_mod_eq_0)
  have pg: "v - v mod 4096 \<in> pages lo hi"
  proof -
    have q: "v - v mod 4096 = v div 4096 * 4096" by (simp add: minus_mod_eq_div_mult)
    have "a \<le> v div 4096" "v div 4096 < b" using v ab by (auto simp: less_eq_div_iff_mult_less_eq div_less_iff_less_mult)
    then show ?thesis unfolding q by (simp add: pages_def ab USER_PAGE_SIZE_def)
  qed
  obtain fr where fr: "space_view sp' st' = (\<lambda>v. if v \<in> pages lo hi then Some (fr v, fl v) else space_view sp st v)"
    "\<forall>v \<in> pages lo hi. fr v \<in> free_set st \<and> (\<forall>i < 512. mem st' (slot (fr v) i) = 0)" using m by (auto simp: mapped_fresh_def)
  let ?f = "fr (v - v mod 4096)"
  have view: "space_view sp' st' (v - v mod 4096) = Some (?f, fl (v - v mod 4096))" using fr(1) pg by simp
  then show "phys_at sp' st' v \<noteq> None" by (simp add: phys_at_def)
  have "?f \<in> free_set st" using fr(2) pg by blast
  then show "\<exists>f. space_view sp' st' (v - v mod 4096) = Some (f, fl (v - v mod 4096)) \<and> f \<in> free_set st" using view by blast
  have "F \<inter> free_set st = {}" using ok0 by (auto simp: space_ok_def)
  then have "?f \<in> set (user_frames sp')" using space_ok_view [OF ok view] \<open>?f \<in> free_set st\<close> by blast
  then show "v = u" if "phys_at sp' st' v = Some x" "phys_at sp' st' u = Some x"
    using owned_bytes_unique [OF ok that] view by simp
  show "v < USER_SPACE_END" using v(2) r by (simp add: map_range_def USER_MMAP_END_def USER_SPACE_END_def)
  show "get_byte (mem st') x = 0" if "phys_at sp' st' v = Some x"
  proof -
    have x: "x = ?f + v mod 4096" using that view by (simp add: phys_at_def)
    obtain k where k: "?f = 8 * k" using space_frame_ok [OF ok view] by (auto simp: frame_addr_ok_def PAGE_SIZE_def elim!: dvdE)
    have "(8 * k + v mod 4096) div 8 = k + (v mod 4096) div 8" by simp
    then have "word_of x = slot ?f ((v mod 4096) div 8)"
      unfolding x k word_of_eq slot_def by simp
    moreover have "(v mod 4096) div 8 < 512" by (simp add: div_less_iff_less_mult)
    ultimately show ?thesis using fr(2) pg by (simp add: get_byte_def)
  qed
qed

lemma length_to_le [simp]: "length (to_le_bytes n w) = n"
  by (simp add: to_le_bytes_def)

lemma page_up_idem: "page_up (page_up n) = page_up n"
  using page_up(1) [of n] by (auto simp: page_up_def [of "page_up n"] align_down_def USER_PAGE_SIZE_def elim!: dvdE)

text \<open>The steps of a successful installation.\<close>

definition tls_done ::
  "usize set \<Rightarrow> address_space \<Rightarrow> machine \<Rightarrow> bytes \<Rightarrow> usize \<Rightarrow> usize \<Rightarrow> address_space \<Rightarrow> machine \<Rightarrow> usize \<Rightarrow> usize \<Rightarrow> usize \<Rightarrow>
     machine \<Rightarrow> phys_mem \<Rightarrow> usize \<Rightarrow> bool" where
  "tls_done F sp st img ms al sp1 st' base len tp st1 m2 tph \<longleftrightarrow> space_ok F sp st \<and> space_ok F sp1 st1 \<and> map_range base (base + len) \<and>
     (\<exists>fl. mapped_fresh base (base + len) fl sp st sp1 st1) \<and>
     tp = base + align_down (ms + (al - 1)) al \<and> tp + 8 \<le> base + len \<and> base + length img \<le> tp \<and>
     copied sp1 st1 base img m2 \<and> phys_at sp1 st1 tp = Some tph \<and>
     space_ok F sp1 (st1\<lparr>mem := m2\<rparr>) \<and> space_view sp1 (st1\<lparr>mem := m2\<rparr>) = space_view sp1 st1 \<and>
     st' = st1\<lparr>mem := put_bytes tph (to_le_bytes 8 (of_nat tp :: u64)) m2\<rparr>"

lemma allocate_tls_run:
  assumes inv: "vm_inv R p w" and ms: "tls_mem_size p \<noteq> 0" and img: "length (tls_image p) \<le> tls_mem_size p" and al: "0 < tls_align p"
    and ts_def: "ts = align_down (tls_mem_size p + (tls_align p - 1)) (tls_align p)"
    and ml_def: "ml = align_down (ts + 8 + (USER_PAGE_SIZE - 1)) USER_PAGE_SIZE"
    and ca: "checked_add (tls_mem_size p) (tls_align p - 1) = Some (tls_mem_size p + (tls_align p - 1))"
      "Option.bind (checked_add ts 8) (\<lambda>v. checked_add v (USER_PAGE_SIZE - 1)) = Some (ts + 8 + (USER_PAGE_SIZE - 1))"
    and ma: "map_anonymous 0 ml True False False True p w = (p1, w1, r)"
  shows "(\<forall>e. r = Inl e \<longrightarrow> allocate_tls_instance p w = (p1, w1, Inl e)) \<and>
    (\<forall>b. r = Inr b \<longrightarrow> (\<exists>sp sp1 w' m2 tph. vp_space p = Some sp \<and> vp_space p1 = Some sp1 \<and>
      allocate_tls_instance p w = (p1, w', Inr (b, ml, b + ts)) \<and>
      tls_done (shared_frames (vw_globals w)) sp (vw_machine w) (tls_image p) (tls_mem_size p) (tls_align p) sp1 (vw_machine w') b ml (b + ts) (vw_machine w1) m2 tph))"
proof (intro conjI allI impI)
  let ?F = "shared_frames (vw_globals w)"
  obtain sp where sp: "vp_space p = Some sp" and at: "vm_at R sp p w" using inv by (auto simp: vm_inv_def)
  have ml: "ml = page_up (ts + 8)" by (simp add: ml_def page_up_def)
  have step: "allocate_tls_instance p w =
    (case map_anonymous 0 ml True False False True p w of
       (p1, w1, Inl e) \<Rightarrow> (p1, w1, Inl e)
     | (p1, w1, Inr base) \<Rightarrow>
         (case vp_space p1 of
            None \<Rightarrow> (p1, w1, Inl NoAddressSpace)
          | Some sp \<Rightarrow>
              (case copy_pages base (tls_image p1) sp (vw_machine w1) of
                 (st2, Inl e) \<Rightarrow> (p1, w1\<lparr>vw_machine := st2\<rparr>, Inl e)
               | (st2, Inr _) \<Rightarrow>
                   (case translate_user_page sp (base + ts) st2 of
                      Inr (Some tp) \<Rightarrow>
                        (p1, w1\<lparr>vw_machine := st2\<lparr>mem := put_bytes tp (to_le_bytes 8 (of_nat (base + ts) :: u64)) (mem st2)\<rparr>\<rparr>,
                         Inr (base, ml, base + ts))
                    | _ \<Rightarrow> (p1, w1\<lparr>vw_machine := st2\<rparr>, Inl InvalidMemoryRange)))))"
    unfolding allocate_tls_instance_def Let_def if_not_P [OF ms] ca(1) option.case ts_def [symmetric] ca(2) ml_def [symmetric] ..
  show "allocate_tls_instance p w = (p1, w1, Inl e)" if "r = Inl e" for e using that unfolding step ma by simp
  fix b assume r: "r = Inr b"
  note o = map_anonymous_outcome [OF inv sp ma, unfolded r]
  obtain sp1 where s1: "space_ok ?F sp1 (vw_machine w1)" "vp_space p1 = Some sp1" "map_range (anon_lo 0 p) (anon_hi 0 ml False p)"
    "b = anon_lo 0 p" "tls_image p1 = tls_image p"
    "mapped_fresh (anon_lo 0 p) (anon_hi 0 ml False p) (anon_flags True False False True (anon_lo 0 p) (anon_hi 0 ml False p)) sp (vw_machine w) sp1 (vw_machine w1)"
    using o by (auto simp: anon_effect_def)
  have pu: "page_up ml = ml" unfolding ml by (rule page_up_idem)
  have hi: "anon_hi 0 ml False p = b + ml" using s1(4) pu by (simp add: anon_hi_def)
  have ts: "ts + 8 \<le> ml" "length (tls_image p) \<le> ts"
    using page_up(3) [of "ts + 8"] ml align_down_gt [OF al, of "tls_mem_size p + (tls_align p - 1)"] img by (auto simp: ts_def)
  note rng = s1(3) [unfolded hi, folded s1(4)] and fresh = s1(6) [unfolded hi, folded s1(4)]
  note fb = fresh_bytes [OF vm_atD(2) [OF at] s1(1) fresh rng]
  have "\<exists>m'. copy_pages b (tls_image p) sp1 (vw_machine w1) = ((vw_machine w1)\<lparr>mem := m'\<rparr>, Inr ()) \<and>
      space_ok ?F sp1 ((vw_machine w1)\<lparr>mem := m'\<rparr>) \<and>
       space_view sp1 ((vw_machine w1)\<lparr>mem := m'\<rparr>) = space_view sp1 (vw_machine w1) \<and> copied sp1 (vw_machine w1) b (tls_image p) m'"
  proof (rule copy_pages_spec [OF s1(1)])
    show "b + length (tls_image p) \<le> USER_SPACE_END"
      using ts rng by (simp add: map_range_def USER_MMAP_END_def USER_SPACE_END_def)
    show "\<forall>i < length (tls_image p). phys_at sp1 (vw_machine w1) (b + i) \<noteq> None" using fb(1) ts by simp
    show "inj_on (phys_at sp1 (vw_machine w1)) {b..<b + length (tls_image p)}"
    proof (rule inj_onI)
      fix x y assume xy: "x \<in> {b..<b + length (tls_image p)}" "y \<in> {b..<b + length (tls_image p)}"
        "phys_at sp1 (vw_machine w1) x = phys_at sp1 (vw_machine w1) y"
      then have "b \<le> x" "x < b + ml" using ts by auto
      then show "x = y" using fb(1,2) [of x] xy(3) by force
    qed
  qed
  then obtain m2 where cp: "copy_pages b (tls_image p) sp1 (vw_machine w1) = ((vw_machine w1)\<lparr>mem := m2\<rparr>, Inr ())"
    "space_ok ?F sp1 ((vw_machine w1)\<lparr>mem := m2\<rparr>)" "space_view sp1 ((vw_machine w1)\<lparr>mem := m2\<rparr>) = space_view sp1 (vw_machine w1)"
    "copied sp1 (vw_machine w1) b (tls_image p) m2" by blast
  have tpr: "b \<le> b + ts" "b + ts < b + ml" using ts by simp_all
  obtain tph where tph: "phys_at sp1 (vw_machine w1) (b + ts) = Some tph" using fb(1) [OF tpr] by blast
  have tr: "translate_user_page sp1 (b + ts) ((vw_machine w1)\<lparr>mem := m2\<rparr>) = Inr (Some tph)"
    using translate_phys [OF cp(2) fb(4) [OF tpr]] phys_at_cong [OF cp(3)] tph by simp
  define w' where "w' = w1\<lparr>vw_machine := (vw_machine w1)\<lparr>mem := put_bytes tph (to_le_bytes 8 (of_nat (b + ts) :: u64)) m2\<rparr>\<rparr>"
  have res: "allocate_tls_instance p w = (p1, w', Inr (b, ml, b + ts))"
    unfolding step ma r using s1(2,5) cp(1) tr by (simp add: w'_def)
  have "tls_done ?F sp (vw_machine w) (tls_image p) (tls_mem_size p) (tls_align p) sp1 (vw_machine w') b ml (b + ts) (vw_machine w1) m2 tph"
    using vm_atD(2) [OF at] s1(1) cp rng fresh ts tph unfolding tls_done_def by (auto simp: ts_def w'_def)
  then show "\<exists>sp sp1 w' m2 tph. vp_space p = Some sp \<and> vp_space p1 = Some sp1 \<and>
      allocate_tls_instance p w = (p1, w', Inr (b, ml, b + ts)) \<and>
      tls_done ?F sp (vw_machine w) (tls_image p) (tls_mem_size p) (tls_align p) sp1 (vw_machine w') b ml (b + ts) (vw_machine w1) m2 tph"
    using sp s1(2) res by blast
qed

lemma allocate_tls_success:
  assumes inv: "vm_inv R p w" and run: "allocate_tls_instance p w = (p', w', Inr (base, len, tp))" and ms: "tls_mem_size p \<noteq> 0"
    and img: "length (tls_image p) \<le> tls_mem_size p" and al: "0 < tls_align p"
  shows "\<exists>sp sp1 st1 m2 tph. vp_space p = Some sp \<and> vp_space p' = Some sp1 \<and>
    tls_done (shared_frames (vw_globals w)) sp (vw_machine w) (tls_image p) (tls_mem_size p) (tls_align p) sp1 (vw_machine w') base len tp st1 m2 tph"
proof -
  define ts where "ts = align_down (tls_mem_size p + (tls_align p - 1)) (tls_align p)"
  define ml where "ml = align_down (ts + 8 + (USER_PAGE_SIZE - 1)) USER_PAGE_SIZE"
  obtain p1 w1 r where ma: "map_anonymous 0 ml True False False True p w = (p1, w1, r)" by (metis prod_cases3)
  have ca: "checked_add (tls_mem_size p) (tls_align p - 1) = Some (tls_mem_size p + (tls_align p - 1))"
    "Option.bind (checked_add ts 8) (\<lambda>v. checked_add v (USER_PAGE_SIZE - 1)) = Some (ts + 8 + (USER_PAGE_SIZE - 1))"
    using run ms unfolding allocate_tls_instance_def ts_def
    by (auto simp: checked_add_def Let_def split: if_splits option.splits)
  note R = allocate_tls_run [OF inv ms img al ts_def ml_def ca ma]
  obtain b where r: "r = Inr b" using run R by (cases r) auto
  obtain sp sp1 m2 tph where "vp_space p = Some sp" "vp_space p' = Some sp1"
    "tls_done (shared_frames (vw_globals w)) sp (vw_machine w) (tls_image p) (tls_mem_size p) (tls_align p) sp1 (vw_machine w') base len tp (vw_machine w1) m2 tph"
    using R run unfolding r by auto
  then show ?thesis by blast
qed

lemma vm_inv_tls: "vm_inv R (p\<lparr>tls_image := i, tls_mem_size := m, tls_align := a\<rparr>) w \<longleftrightarrow> vm_inv R p w"
  by (simp add: vm_inv_def vm_at_def page_refs_def)

lemma install_tls_success:
  assumes inv: "vm_inv R p w" and run: "install_tls_template img ms al p w = (p', w', Inr ())"
  obtains sp sp1 base len tp st1 m2 tph where "vp_space p = Some sp" "vp_space p' = Some sp1" "vp_fs_base p' = of_nat tp"
    "tls_done (shared_frames (vw_globals w)) sp (vw_machine w) img ms al sp1 (vw_machine w') base len tp st1 m2 tph"
proof -
  let ?p = "p\<lparr>tls_image := img, tls_mem_size := ms, tls_align := max al 1\<rparr>"
  obtain p1 base len tp where al: "allocate_tls_instance ?p w = (p1, w', Inr (base, len, tp))"
    and p': "vp_space p' = vp_space p1" "vp_fs_base p' = of_nat tp" and pre: "ms \<noteq> 0" "length img \<le> ms" "0 < al"
    using run unfolding install_tls_template_def by (auto simp: is_power_of_two_def split: if_splits prod.splits sum.splits)
  have "max al 1 = al" using pre(3) by simp
  then show ?thesis using allocate_tls_success [OF _ al, of R] inv pre p' that by (auto simp: vm_inv_tls)
qed

text \<open>
  C37. Thread-local storage is laid out as the ABI says. After a template is installed with an alignment of
  at least eight, the bytes below the thread pointer are the image followed by zeros up to the thread
  pointer, and the eight bytes at the thread pointer hold the thread pointer itself.
\<close>
theorem tls_layout:
  assumes "vm_inv R p w" "install_tls_template img ms al p w = (p', w', Inr ())" "8 dvd al"
  shows "\<exists>sp' base tp. vp_space p' = Some sp' \<and> unat (vp_fs_base p') = tp \<and> tp = base + align_down (ms + (al - 1)) al \<and>
    (\<forall>i < length img. user_byte sp' (vw_machine w') (base + i) = Some (img ! i)) \<and>
    (\<forall>i. length img \<le> i \<and> base + i < tp \<longrightarrow> user_byte sp' (vw_machine w') (base + i) = Some 0) \<and>
    (\<forall>i < 8. user_byte sp' (vw_machine w') (tp + i) = Some (to_le_bytes 8 (of_nat tp :: u64) ! i))"
proof -
  let ?F = "shared_frames (vw_globals w)"
  obtain sp sp1 base len tp st1 m2 tph where p': "vp_space p' = Some sp1" "vp_fs_base p' = of_nat tp"
    and dn: "tls_done ?F sp (vw_machine w) img ms al sp1 (vw_machine w') base len tp st1 m2 tph"
    using install_tls_success [OF assms(1,2)] .
  from dn obtain fl where s: "space_ok ?F sp (vw_machine w)"
    "space_ok ?F sp1 st1" "map_range base (base + len)" "mapped_fresh base (base + len) fl sp (vw_machine w) sp1 st1"
    and tp: "tp = base + align_down (ms + (al - 1)) al" "tp + 8 \<le> base + len" "base + length img \<le> tp"
    and cp: "copied sp1 st1 base img m2" and tph: "phys_at sp1 st1 tp = Some tph"
    and ok2: "space_ok ?F sp1 (st1\<lparr>mem := m2\<rparr>)" and v2: "space_view sp1 (st1\<lparr>mem := m2\<rparr>) = space_view sp1 st1"
    and w': "vw_machine w' = st1\<lparr>mem := put_bytes tph (to_le_bytes 8 (of_nat tp :: u64)) m2\<rparr>"
    unfolding tls_done_def by blast
  note fb = fresh_bytes [OF s(1,2,4,3)]
  have "8 dvd base" using s(3) by (auto simp: map_range_def USER_PAGE_SIZE_def elim!: dvdE simp flip: dvd_eq_mod_eq_0)
  moreover have "8 dvd align_down (ms + (al - 1)) al" using assms(3) align_down_dvd dvd_trans by blast
  ultimately have "8 dvd tp mod 4096" unfolding tp(1) by (simp add: dvd_mod)
  then have tpo: "tp mod 4096 + 8 \<le> 4096" by (auto elim!: dvdE)
  have tr: "base \<le> tp" "tp < base + len" using tp(2,3) by auto
  obtain f fl' where f: "space_view sp1 st1 (tp - tp mod 4096) = Some (f, fl')" "tph = f + tp mod 4096" using tph by (auto simp: phys_at_def)
  have ok': "space_ok ?F sp1 (vw_machine w') \<and> space_view sp1 (vw_machine w') = space_view sp1 (st1\<lparr>mem := m2\<rparr>)"
    using frame_write [OF ok2 space_frame_ok [OF s(2) f(1)], of tph "to_le_bytes 8 (of_nat tp :: u64)"]
      space_view_not_free [OF s(2) f(1)] f(2) tpo unfolding w' by simp
  then have pa: "phys_at sp1 (vw_machine w') = phys_at sp1 st1" using phys_at_cong v2 by metis
  have near: "phys_at sp1 st1 (tp + j) = Some (tph + j)" if "j < 8" for j
    using page_add [of j tp] tpo that f by (simp add: phys_at_def USER_PAGE_SIZE_def)
  have byte: "user_byte sp1 (vw_machine w') v = map_option (get_byte (mem (vw_machine w'))) (phys_at sp1 st1 v)" if "v < base + len" for v
    using translate_phys [OF conjunct1 [OF ok'], of v] that s(3) pa
    by (simp add: user_byte_def map_range_def USER_MMAP_END_def USER_SPACE_END_def split: option.splits)
  have low: "get_byte (mem (vw_machine w')) x = get_byte m2 x" if "phys_at sp1 st1 v = Some x" "base \<le> v" "v < tp" for v x
  proof -
    have "\<not> (tph \<le> x \<and> x < tph + 8)"
    proof
      assume "tph \<le> x \<and> x < tph + 8"
      then have j: "x - tph < 8" "tph + (x - tph) = x" by auto
      have "phys_at sp1 st1 (tp + (x - tph)) = Some x" using near [OF j(1)] j(2) by simp
      from fb(2) [OF that(2) _ that(1) this] show False using that(3) tr by simp
    qed
    then show ?thesis by (auto simp: w' get_put_bytes)
  qed
  have "user_byte sp1 (vw_machine w') (base + i) = Some (img ! i)" if "i < length img" for i
    using that byte [of "base + i"] low [of "base + i"] fb(1) [of "base + i"] cp tp tr by (auto simp: copied_def)
  moreover have "user_byte sp1 (vw_machine w') (base + i) = Some 0" if i: "length img \<le> i" "base + i < tp" for i
  proof -
    obtain x where x: "phys_at sp1 st1 (base + i) = Some x" using fb(1) [of "base + i"] i tr by auto
    have "phys_at sp1 st1 (base + j) \<noteq> Some x" if "j < length img" for j using fb(2) [of "base + i" x "base + j"] x i tr that by auto
    then have "get_byte m2 x = get_byte (mem st1) x" using cp by (simp add: copied_def)
    then show ?thesis using byte [of "base + i"] low [OF x] fb(3) [of "base + i" x] x i tr by simp
  qed
  moreover have "user_byte sp1 (vw_machine w') (tp + i) = Some (to_le_bytes 8 (of_nat tp :: u64) ! i)" if "i < 8" for i
    using byte [of "tp + i"] near [OF that] that tp(2) by (simp add: w' get_put_bytes)
  moreover have "unat (vp_fs_base p') = tp"
    using tr(2) s(3) p'(2) by (simp add: map_range_def USER_MMAP_END_def unat_of_nat)
  ultimately show ?thesis using p'(1) tp(1) by blast
qed

text \<open>
  C38. With a smaller alignment the thread pointer can lie in the last seven bytes of a page. The eight bytes
  are then written to consecutive physical addresses from the frame of that page, so the last of them
  fall into the physical frame that follows it, which need not belong to the process.
\<close>
theorem tls_pointer_straddles:
  assumes "vm_inv R p w" "install_tls_template img ms al p w = (p', w', Inr ())" "4088 < unat (vp_fs_base p') mod 4096"
  shows "\<exists>f ph. f \<in> free_set (vw_machine w) \<and> ph = f + unat (vp_fs_base p') mod 4096 \<and>
    (\<forall>i < 8. get_byte (mem (vw_machine w')) (ph + i) = to_le_bytes 8 (vp_fs_base p') ! i) \<and> f + 4096 \<le> ph + 7"
proof -
  let ?F = "shared_frames (vw_globals w)"
  obtain sp sp1 base len tp st1 m2 tph where p': "vp_space p' = Some sp1" "vp_fs_base p' = of_nat tp"
    and dn: "tls_done ?F sp (vw_machine w) img ms al sp1 (vw_machine w') base len tp st1 m2 tph"
    using install_tls_success [OF assms(1,2)] .
  from dn obtain fl where s: "space_ok ?F sp (vw_machine w)"
    "space_ok ?F sp1 st1" "map_range base (base + len)" "mapped_fresh base (base + len) fl sp (vw_machine w) sp1 st1"
    and tp: "tp + 8 \<le> base + len" "base + length img \<le> tp" and tph: "phys_at sp1 st1 tp = Some tph"
    and w': "vw_machine w' = st1\<lparr>mem := put_bytes tph (to_le_bytes 8 (of_nat tp :: u64)) m2\<rparr>"
    unfolding tls_done_def by blast
  have tr: "base \<le> tp" "tp < base + len" using tp by auto
  obtain f where f: "space_view sp1 st1 (tp - tp mod 4096) = Some (f, fl (tp - tp mod 4096))" "f \<in> free_set (vw_machine w)"
    using fresh_bytes(5) [OF s(1,2,4,3) tr] by blast
  have "tp < 2 ^ 64" using tr(2) s(3) by (simp add: map_range_def USER_MMAP_END_def)
  then have u: "unat (vp_fs_base p') = tp" using p'(2) by (simp add: unat_of_nat)
  have "tph = f + tp mod 4096" using tph f(1) by (simp add: phys_at_def)
  moreover have "get_byte (mem (vw_machine w')) (tph + i) = to_le_bytes 8 (vp_fs_base p') ! i" if "i < 8" for i
    using that by (simp add: w' get_put_bytes p'(2))
  ultimately show ?thesis using f(2) assms(3) unfolding u by auto
qed

section \<open>A small process\<close>

lemma vm_inv_new:
  assumes st: "frames_ok st" and new: "space_new st = (st0, Inr sp0)" and p: "vp_space p = Some sp0" "next_mmap_addr p = USER_MMAP_BASE"
    "shared_pages (vp_caps p) = []" and w: "vw_machine w = st0" "shared_objects (vw_globals w) = []"
  shows "vm_inv (\<lambda>_. 0) p w" "guard_regions p = [] \<Longrightarrow> guards_inv p w" "refs_bound w" "space_view sp0 st0 = (\<lambda>_. None)"
proof -
  have F: "shared_frames (vw_globals w) = {}" using w(2) by (simp add: shared_frames_def frames_of_def)
  have n: "space_ok {} sp0 st0" "space_view sp0 st0 = (\<lambda>_. None)" using space_new_spec [OF st _ _ new, of "{}"] by auto
  then show "space_view sp0 st0 = (\<lambda>_. None)" by simp
  have "frames_inv (globals_at w)" using space_okD(3) [OF n(1)] w
    by (auto simp: frames_inv_def globals_at_def objects_ok_def frames_ok_def)
  then have "registry_inv (\<lambda>i. 0 + page_refs p i) (globals_at w)" using w(2) p(3) by (intro registry_invI) (auto simp: page_refs_def)
  then have "vm_at (\<lambda>_. 0) sp0 p w" using n p(3) w(1) F by (simp add: vm_at_def shares_ok_def)
  then show "vm_inv (\<lambda>_. 0) p w" using p(1,2) by (simp add: vm_inv_def USER_MMAP_BASE_def USER_PAGE_SIZE_def)
  show "guards_inv p w" if "guard_regions p = []" using that p(1) by (simp add: guards_inv_def guards_ok_def guards_private_def)
  show "refs_bound w" using w(2) by (simp add: refs_bound_def)
qed

definition vm_pool :: pmm where
  "vm_pool = \<lparr>bitmap = [0, 0], total_frames = 16, usable_frames = 16, free_frames = 16, base_addr = 0x100000\<rparr>"

definition vm_machine :: machine where
  "vm_machine = \<lparr>mem = (\<lambda>_. 0), m_pmm = Some vm_pool, kernel_root = 0x1000, cr3 = 0x1000\<rparr>"

lemma vm_pool_free: "pmm_free vm_pool = {..<16}"
proof -
  have "bitmap_clear [0, 0] i" if "i < 16" for i
  proof -
    have "i div 8 = 0 \<or> i div 8 = 1" using that by auto
    then show ?thesis by (auto simp: bitmap_clear_def)
  qed
  then show ?thesis by (auto simp: pmm_free_def vm_pool_def)
qed

lemma vm_machine_ok: "frames_ok vm_machine" "card (free_set vm_machine) = 16"
proof -
  have "pmm_ok vm_pool" using vm_pool_free by (simp add: pmm_ok_def vm_pool_def PAGE_SIZE_def usize_modulus_def)
  then show "frames_ok vm_machine"
    by (auto simp: frames_ok_def vm_machine_def pool_set_def pool_addrs_def frame_of_def vm_pool_def PAGE_SIZE_def)
  show "card (free_set vm_machine) = 16"
    using vm_pool_free card_image [OF inj_on_subset [OF inj_frame_of subset_UNIV], of vm_pool "{..<16}"]
    by (simp add: free_set_def vm_machine_def free_addrs_def)
qed

definition vm_example_space :: address_space where
  "vm_example_space = \<lparr>root_frame = 0x100000, user_frames = [], page_table_frames = [0x100000]\<rparr>"

definition vm_example_world :: vm_world where
  "vm_example_world = \<lparr>vw_machine = fst (space_new vm_machine),
     vw_globals = \<lparr>display_owner = 0, input_owner = 0, shared_objects = [], next_shared_vm_id = 1, g_pmm = None\<rparr>\<rparr>"

definition vm_example :: vm_process where
  "vm_example = \<lparr>vp_caps = new_process 1 False, vp_space = Some vm_example_space, next_mmap_addr = USER_MMAP_BASE, guard_regions = [],
     tls_image = [], tls_mem_size = 0, tls_align = 1, tls_allocation = None, vp_fs_base = 0\<rparr>"

lemma vm_example_new: "space_new vm_machine = (vw_machine vm_example_world, Inr vm_example_space)"
proof -
  have "alloc_frame vm_pool =
      (\<lparr>bitmap = [1, 0], total_frames = 16, usable_frames = 16, free_frames = 15, base_addr = 0x100000\<rparr>, Some 0x100000)"
    by (simp add: vm_pool_def alloc_frame_def upt_conv_Cons frame_addr_def wrap_add_def wrap_mul_def wrap_sub_def pmm_eval Let_def)
  moreover have "kernel_root vm_machine \<noteq> UNINITIALIZED_ROOT" by (simp add: vm_machine_def UNINITIALIZED_ROOT_def usize_max_def)
  moreover have "m_pmm vm_machine = Some vm_pool" by (simp add: vm_machine_def)
  ultimately show ?thesis by (simp add: vm_example_world_def vm_example_space_def space_new_def sync_kernel_half_into_def)
qed

lemma vm_example_ok:
  "vm_inv (\<lambda>_. 0) vm_example vm_example_world" "guards_inv vm_example vm_example_world" "refs_bound vm_example_world"
  "space_view vm_example_space (vw_machine vm_example_world) = (\<lambda>_. None)" "card (free_set (vw_machine vm_example_world)) = 15"
proof -
  note n = vm_inv_new [OF vm_machine_ok(1) vm_example_new, of vm_example vm_example_world]
  show "vm_inv (\<lambda>_. 0) vm_example vm_example_world" "guards_inv vm_example vm_example_world" "refs_bound vm_example_world"
    "space_view vm_example_space (vw_machine vm_example_world) = (\<lambda>_. None)"
    using n by (simp_all add: vm_example_def vm_example_world_def new_process_def)
  have "root_frame vm_example_space \<in> free_set vm_machine"
    using vm_machine_ok(1) vm_pool_free by (auto simp: free_set_def vm_machine_def free_addrs_def frame_of_def vm_example_space_def vm_pool_def image_def intro!: bexI [of _ 0])
  then show "card (free_set (vw_machine vm_example_world)) = 15"
    using space_new_spec [OF vm_machine_ok(1) _ _ vm_example_new, of "{}"] vm_machine_ok(2) by simp
qed

text \<open>Three pages are mapped: an area with its two guard pages.\<close>

lemma vm_example_pages: "n \<le> 3 \<Longrightarrow> card (pages USER_MMAP_BASE (USER_MMAP_BASE + n * USER_PAGE_SIZE)) = n"
proof -
  assume "n \<le> 3"
  have m: "USER_MMAP_BASE mod USER_PAGE_SIZE = 0" by (simp add: USER_MMAP_BASE_def USER_PAGE_SIZE_def)
  then have "set (page_list USER_MMAP_BASE (USER_MMAP_BASE + n * USER_PAGE_SIZE)) = pages USER_MMAP_BASE (USER_MMAP_BASE + n * USER_PAGE_SIZE)"
    "distinct (page_list USER_MMAP_BASE (USER_MMAP_BASE + n * USER_PAGE_SIZE))" using page_list_set by auto
  moreover have "length (page_list USER_MMAP_BASE (USER_MMAP_BASE + n * USER_PAGE_SIZE)) = n"
    by (simp add: page_list_def div_ceil_def USER_PAGE_SIZE_def)
  ultimately show ?thesis using distinct_card by metis
qed

lemma vm_example_maps:
  assumes "map_anonymous 0 (k * USER_PAGE_SIZE) writable executable guarded accessible p vm_example_world = (p', w', res)"
    "0 < k" "k + (if guarded then 2 else 0) \<le> 3" and p: "p = vm_example\<lparr>tls_image := i, tls_mem_size := m, tls_align := a\<rparr>"
  shows "\<not> isl res"
proof -
  let ?n = "k + (if guarded then 2 else 0)"
  have inv: "vm_inv (\<lambda>_. 0) p vm_example_world" using vm_example_ok(1) by (simp add: p vm_inv_tls)
  have pu: "page_up (k * USER_PAGE_SIZE) = k * USER_PAGE_SIZE" by (simp add: page_up_def align_down_def USER_PAGE_SIZE_def)
  have lo: "anon_lo 0 p = USER_MMAP_BASE" by (simp add: anon_lo_def vm_example_def p)
  have hi: "anon_hi 0 (k * USER_PAGE_SIZE) guarded p = USER_MMAP_BASE + ?n * USER_PAGE_SIZE"
    by (simp add: anon_hi_def lo pu add_mult_distrib)
  have v: "anon_valid 0 (k * USER_PAGE_SIZE) guarded p"
    using assms(2,3) unfolding anon_valid_def hi lo map_range_def
    by (auto simp: p vm_example_def new_process_def USER_MMAP_BASE_def USER_MMAP_END_def USER_PAGE_SIZE_def split: if_splits)
  have sp: "vp_space p = Some vm_example_space" by (simp add: vm_example_def p)
  have "4 * card (pages (anon_lo 0 p) (anon_hi 0 (k * USER_PAGE_SIZE) guarded p)) \<le> card (free_set (vw_machine vm_example_world))"
    unfolding lo hi vm_example_pages [OF assms(3)] vm_example_ok(5) using assms(3) by (auto split: if_splits)
  then show ?thesis
    by (intro map_anonymous_complete [OF inv sp assms(1) v]) (simp_all add: vm_example_ok(4))
qed

theorem map_anonymous_exact_witness:
  "\<exists>p' w' a sp'. map_anonymous 0 USER_PAGE_SIZE True False True True vm_example vm_example_world = (p', w', Inr a) \<and>
     vp_space p' = Some sp' \<and> a = USER_MMAP_BASE + USER_PAGE_SIZE \<and>
     space_view sp' (vw_machine w') USER_MMAP_BASE \<noteq> None"
proof -
  obtain p' w' res where m: "map_anonymous 0 USER_PAGE_SIZE True False True True vm_example vm_example_world = (p', w', res)" by (metis prod_cases3)
  have "\<not> isl res" using vm_example_maps [where k = 1 and p = vm_example and i = "[]" and m = 0 and a = 1] m by (simp add: vm_example_def)
  then obtain a where a: "res = Inr a" by (cases res) auto
  have lo: "anon_lo 0 vm_example = USER_MMAP_BASE" by (simp add: anon_lo_def vm_example_def)
  have sp: "vp_space vm_example = Some vm_example_space" by (simp add: vm_example_def)
  have "USER_MMAP_BASE \<in> pages USER_MMAP_BASE (anon_hi 0 USER_PAGE_SIZE True vm_example)"
    using page_up(2) [of USER_PAGE_SIZE] by (simp add: pages_def anon_hi_def lo USER_MMAP_BASE_def USER_PAGE_SIZE_def)
  then show ?thesis using map_anonymous_exact [OF vm_example_ok(1) sp m] m unfolding a lo
    by (auto simp: mapped_fresh_def)
qed

text \<open>A template of one page plus a few bytes can be installed in the small process.\<close>

lemma vm_example_tls:
  assumes al: "is_power_of_two al" "0 < al" "length img \<le> ms" "ms \<noteq> 0" and ts: "align_down (ms + (al - 1)) al = ts" "ts + 8 \<le> 8192" "ms + al \<le> 8192"
  obtains p' w' where "install_tls_template img ms al vm_example vm_example_world = (p', w', Inr ())" "vp_fs_base p' = of_nat (USER_MMAP_BASE + ts)"
proof -
  let ?p = "vm_example\<lparr>tls_image := img, tls_mem_size := ms, tls_align := max al 1\<rparr>"
  have mx: "max al 1 = al" using al(2) by simp
  define ml where "ml = align_down (ts + 8 + (USER_PAGE_SIZE - 1)) USER_PAGE_SIZE"
  obtain p1 w1 r where ma: "map_anonymous 0 ml True False False True ?p vm_example_world = (p1, w1, r)" by (metis prod_cases3)
  have inv: "vm_inv (\<lambda>_. 0) ?p vm_example_world" using vm_example_ok(1) by (simp add: vm_inv_tls)
  obtain k where k: "ml = k * USER_PAGE_SIZE" "0 < k" "k \<le> 2"
  proof -
    have "ml = page_up (ts + 8)" by (simp add: ml_def page_up_def)
    moreover have "page_up (ts + 8) \<le> page_up 8192"
      using ts(2) by (simp add: page_up_def align_down_def minus_mod_eq_mult_div div_le_mono USER_PAGE_SIZE_def del: div_mult_self2)
    ultimately have "4096 dvd ml" "0 < ml" "ml \<le> 8192"
      using page_up [of "ts + 8"] by (auto simp: page_up_def [of 8192] align_down_def USER_PAGE_SIZE_def)
    then show ?thesis using that [of "ml div 4096"] by (auto simp: USER_PAGE_SIZE_def elim!: dvdE)
  qed
  have "\<not> isl r" using vm_example_maps [of k True False False True ?p p1 w1 r] k ma by simp
  then obtain b where r: "r = Inr b" by (cases r) auto
  have ca: "checked_add (tls_mem_size ?p) (tls_align ?p - 1) = Some (tls_mem_size ?p + (tls_align ?p - 1))"
    "Option.bind (checked_add ts 8) (\<lambda>v. checked_add v (USER_PAGE_SIZE - 1)) = Some (ts + 8 + (USER_PAGE_SIZE - 1))"
    using ts(2,3) al(2) by (auto simp: mx checked_add_def usize_max_def USER_PAGE_SIZE_def)
  obtain w' where al': "allocate_tls_instance ?p vm_example_world = (p1, w', Inr (b, ml, b + ts))"
    using allocate_tls_run [OF inv _ _ _ _ ml_def ca ma] r al ts(1) by (auto simp: mx)
  have "b = USER_MMAP_BASE"
    using map_anonymous_outcome [OF inv _ ma] r by (auto simp: anon_effect_def anon_lo_def vm_example_def)
  then show ?thesis using al' al that unfolding install_tls_template_def by auto
qed

theorem tls_layout_witness:
  "\<exists>p' w' sp'. install_tls_template [7, 9] 20 16 vm_example vm_example_world = (p', w', Inr ()) \<and> vp_space p' = Some sp' \<and>
     vp_fs_base p' = of_nat (USER_MMAP_BASE + 32) \<and> user_byte sp' (vw_machine w') (USER_MMAP_BASE + 1) = Some 9 \<and>
     user_byte sp' (vw_machine w') (USER_MMAP_BASE + 31) = Some 0"
proof -
  have e: "align_down (20 + (16 - 1)) 16 = 32" by (simp add: align_down_def)
  obtain p' w' where i: "install_tls_template [7, 9] 20 16 vm_example vm_example_world = (p', w', Inr ())"
    "vp_fs_base p' = of_nat (USER_MMAP_BASE + 32)"
    by (rule vm_example_tls [of 16 "[7, 9]" 20 32]) (simp_all add: align_down_def is_power_of_two_def)
  obtain sp' base tp where t: "vp_space p' = Some sp'" "unat (vp_fs_base p') = tp" "tp = base + 32"
    "\<forall>i < length [7, 9 :: u8]. user_byte sp' (vw_machine w') (base + i) = Some ([7, 9] ! i)"
    "\<forall>i. length [7, 9 :: u8] \<le> i \<and> base + i < tp \<longrightarrow> user_byte sp' (vw_machine w') (base + i) = Some 0"
    using tls_layout [OF vm_example_ok(1) i(1)] unfolding e by auto
  have "base = USER_MMAP_BASE" using t(2,3) unfolding i(2) by (simp add: USER_MMAP_BASE_def unat_of_nat)
  then show ?thesis using i t(1,3) t(4) [rule_format, of 1] t(5) [rule_format, of 31] by auto
qed

theorem tls_pointer_straddles_witness:
  "\<exists>p' w' f. install_tls_template [] 4092 4 vm_example vm_example_world = (p', w', Inr ()) \<and> f \<in> free_set (vw_machine vm_example_world) \<and>
     get_byte (mem (vw_machine w')) (f + 4096) = to_le_bytes 8 (vp_fs_base p') ! 4"
proof -
  have e: "align_down (4092 + (4 - 1)) 4 = 4092" by (simp add: align_down_def)
  obtain p' w' where i: "install_tls_template [] 4092 4 vm_example vm_example_world = (p', w', Inr ())"
    "vp_fs_base p' = of_nat (USER_MMAP_BASE + 4092)"
    by (rule vm_example_tls [of 4 "[]" 4092 4092]) (simp_all add: align_down_def is_power_of_two_def)
  have m: "unat (vp_fs_base p') mod 4096 = 4092" unfolding i(2) by (simp add: USER_MMAP_BASE_def unat_of_nat)
  obtain f where "f \<in> free_set (vw_machine vm_example_world)"
    "\<forall>i < 8. get_byte (mem (vw_machine w')) (f + 4092 + i) = to_le_bytes 8 (vp_fs_base p') ! i"
    using tls_pointer_straddles [OF vm_example_ok(1) i(1)] unfolding m by auto
  moreover have "f + 4092 + 4 = f + 4096" by simp
  ultimately show ?thesis using i(1) by (metis numeral_less_iff semiring_norm(75,76,78))
qed

end
