(* ===== verification/Memory_Calls.thy ===== *)
theory Memory_Calls
  imports Process_Memory
begin

text \<open>
  What the memory system calls of a process keep, whatever sequence of them it issues: no mapping of a free
  frame or of a page table, guard pages that stay absent, no page that is writable and executable.
\<close>

unbundle bit_operations_syntax

section \<open>Sequences of memory calls\<close>

definition vm_view :: "vm_process \<Rightarrow> vm_world \<Rightarrow> usize \<Rightarrow> (usize \<times> u64) option" where
  "vm_view p w = (case vp_space p of None \<Rightarrow> \<lambda>_. None | Some sp \<Rightarrow> space_view sp (vw_machine w))"

definition wx_free :: "(usize \<Rightarrow> (usize \<times> u64) option) \<Rightarrow> bool" where
  "wx_free V \<longleftrightarrow> (\<forall>v f fl. V v = Some (f, fl) \<longrightarrow> \<not> (bit fl 1 \<and> \<not> bit fl 63))"

definition mem_inv :: "(u64 \<Rightarrow> nat) \<Rightarrow> vm_process \<Rightarrow> vm_world \<Rightarrow> bool" where
  "mem_inv R p w \<longleftrightarrow> vm_inv R p w \<and> guards_inv p w \<and> wx_free (vm_view p w)"

definition few_refs :: "(u64 \<Rightarrow> nat) \<Rightarrow> bool" where
  "few_refs R \<longleftrightarrow> (\<forall>i. R i < 2 ^ 62)"

lemma bt_sum_length: "(\<And>v. f v \<le> 1) \<Longrightarrow> bt_sum f m \<le> length m"
proof (induction m)
  case (Cons x m)
  obtain k v where x: "x = (k, v)" by (cases x)
  have "bt_sum f m \<le> length m" using Cons by blast
  then show ?case using Cons.prems [of v] by (simp add: x)
qed simp

text \<open>A process records at most one shared page per page of the user half, so no counter can wrap.\<close>

lemma refs_bound_inv:
  assumes inv: "vm_inv R p w" and few: "few_refs R"
  shows "refs_bound w"
  unfolding refs_bound_def
proof (intro allI impI)
  fix i obj assume get: "bt_get (shared_objects (vw_globals w)) i = Some obj"
  obtain sp where at: "vm_at R sp p w" using inv by (auto simp: vm_inv_def)
  note I = vm_atD [OF at]
  let ?pg = "shared_pages (vp_caps p)"
  have ok: "bt_ok ?pg" "\<And>v. bt_get ?pg v \<noteq> None \<Longrightarrow> space_view sp (vw_machine w) v \<noteq> None"
    using I(3) by (simp_all add: shares_ok_def) blast
  have "bt_keys ?pg \<subseteq> (\<lambda>k. k * 4096) ` {..<2 ^ 35}"
  proof
    fix v assume "v \<in> bt_keys ?pg"
    then have "user_page v" using ok(2) [of v] by (auto simp: space_view_def bt_get_None_iff split: if_splits)
    then have "v = v div 4096 * 4096" "v div 4096 < 2 ^ 35" by (auto simp: user_page_def PAGE_SIZE_def USER_SPACE_END_def)
    then show "v \<in> (\<lambda>k. k * 4096) ` {..<2 ^ 35}" by blast
  qed
  then have "card (bt_keys ?pg) \<le> card ((\<lambda>k. k * 4096) ` {..<(2 :: nat) ^ 35})" by (intro card_mono finite_imageI finite_lessThan)
  also have "\<dots> \<le> 2 ^ 35" using card_image_le [of "{..<(2 :: nat) ^ 35}" "\<lambda>k. k * 4096"] by simp
  also have "card (bt_keys ?pg) = length ?pg"
    using ok(1) strict_sorted_iff [of "map fst ?pg"] distinct_card [of "map fst ?pg"] by (simp add: bt_keys_def bt_ok_def)
  finally have "length ?pg \<le> 2 ^ 35" .
  moreover have "page_refs p i \<le> length ?pg" unfolding page_refs_def by (rule bt_sum_length) (simp add: one_if_def)
  moreover have "so_refs obj = R i + page_refs p i" using registry_invD(3) [OF I(1)] get by simp
  moreover have "length (so_frames obj) \<le> 2 ^ 40" using frames_few [OF I(1) get] space_okD(3) [OF I(2)] by blast
  moreover have "R i < 2 ^ 62" using few by (simp add: few_refs_def)
  ultimately show "so_refs obj + length (so_frames obj) < usize_modulus" by (simp add: usize_modulus_def)
qed

lemma bit_flags:
  "bit PF_WRITABLE n \<longleftrightarrow> n = 1" "bit PF_NO_EXECUTE n \<longleftrightarrow> n = 63" "bit PF_USER n \<longleftrightarrow> n = 2" "bit PF_PRESENT n \<longleftrightarrow> n = 0"
proof -
  have e: "PF_WRITABLE = push_bit 1 1" "PF_NO_EXECUTE = push_bit 63 1" "PF_USER = push_bit 2 1" "PF_PRESENT = push_bit 0 1"
    by (simp_all add: PF_WRITABLE_def PF_NO_EXECUTE_def PF_USER_def PF_PRESENT_def push_bit_eq_mult)
  show "bit PF_WRITABLE n \<longleftrightarrow> n = 1" "bit PF_NO_EXECUTE n \<longleftrightarrow> n = 63" "bit PF_USER n \<longleftrightarrow> n = 2" "bit PF_PRESENT n \<longleftrightarrow> n = 0"
    unfolding e bit_push_bit_iff bit_1_iff possible_bit_word by auto
qed

lemma prot_flags_bits:
  "bit (prot_flags wr ex) 1 \<longleftrightarrow> wr" "bit (prot_flags wr ex) 63 \<longleftrightarrow> \<not> ex"
  "bit (access_flags fl present) 1 \<longleftrightarrow> bit fl 1" "bit (access_flags fl present) 63 \<longleftrightarrow> bit fl 63"
  by (auto simp: prot_flags_def access_flags_def bit_or_iff bit_flags)

lemma anon_flags_bits:
  "bit (anon_flags wr ex guarded accessible lo hi v) 1 \<Longrightarrow> wr" "\<not> bit (anon_flags wr ex guarded accessible lo hi v) 63 \<Longrightarrow> ex"
  by (auto simp: anon_flags_def prot_flags_def bit_or_iff bit_flags split: if_splits)

lemma wx_freeD: "wx_free V \<Longrightarrow> V v = Some (f, fl) \<Longrightarrow> bit fl 1 \<Longrightarrow> bit fl 63"
  by (auto simp: wx_free_def)

lemma vm_view_eq [simp]: "vp_space p = Some sp \<Longrightarrow> vm_view p w = space_view sp (vw_machine w)"
  by (simp add: vm_view_def)

lemma mapped_freshE:
  assumes "mapped_fresh lo hi fl sp st sp' st'"
  obtains fr where "space_view sp' st' = (\<lambda>v. if v \<in> pages lo hi then Some (fr v, fl v) else space_view sp st v)"
  using assms unfolding mapped_fresh_def by (elim conjE exE) (rule that)

lemma mapped_fresh_None: "mapped_fresh lo hi fl sp st sp' st' \<Longrightarrow> v \<in> pages lo hi \<Longrightarrow> space_view sp st v = None"
  unfolding mapped_fresh_def by blast

lemma mapped_fresh_same: "mapped_fresh lo hi fl sp st sp' st' \<Longrightarrow> space_view sp st v \<noteq> None \<Longrightarrow> space_view sp' st' v = space_view sp st v"
  by (auto simp: mapped_fresh_def)

lemma mapped_fresh_wx:
  assumes "mapped_fresh lo hi (anon_flags wr ex guarded accessible lo' hi') sp st sp' st'" "wx_free (space_view sp st)" "\<not> (wr \<and> ex)"
  shows "wx_free (space_view sp' st')"
  unfolding wx_free_def
proof (intro allI impI)
  fix v f fl assume v: "space_view sp' st' v = Some (f, fl)"
  obtain fr where "space_view sp' st' v = (if v \<in> pages lo hi then Some (fr v, anon_flags wr ex guarded accessible lo' hi' v) else space_view sp st v)"
    using assms(1) by (rule mapped_freshE) auto
  then have "fl = anon_flags wr ex guarded accessible lo' hi' v \<or> space_view sp st v = Some (f, fl)" using v by (auto split: if_splits)
  then show "\<not> (bit fl 1 \<and> \<not> bit fl 63)"
    using assms(2,3) anon_flags_bits [of wr ex guarded accessible lo' hi' v] unfolding wx_free_def by blast
qed

lemma mapped_fresh_region:
  assumes m: "mapped_fresh lo hi (anon_flags wr ex guarded accessible lo hi) sp st sp' st'" and r: "map_range lo hi" and g: guarded
    and n: "0 < n" "hi = lo + USER_PAGE_SIZE + n + USER_PAGE_SIZE"
  shows "region_ok (space_view sp' st') (lo + USER_PAGE_SIZE) n"
proof -
  define q where "q = hi - USER_PAGE_SIZE"
  have h: "hi = q + USER_PAGE_SIZE" "lo \<le> q" using n by (simp_all add: q_def)
  have m0: "lo mod USER_PAGE_SIZE = 0" "hi mod USER_PAGE_SIZE = 0" using r by (simp_all add: map_range_def)
  then have "q mod USER_PAGE_SIZE = 0" unfolding h(1) by (simp add: mod_add_self2)
  then have mem': "q \<in> pages lo hi" using h by (simp add: pages_def USER_PAGE_SIZE_def)
  have "lo < hi" using n by simp
  then have mem: "lo \<in> pages lo hi" using m0(1) by (simp add: pages_def)
  have "anon_flags wr ex guarded accessible lo hi lo = GUARD_FLAGS" "anon_flags wr ex guarded accessible lo hi q = GUARD_FLAGS"
    using g by (simp_all add: anon_flags_def GUARD_FLAGS_def q_def)
  moreover obtain fr where "space_view sp' st' = (\<lambda>v. if v \<in> pages lo hi then Some (fr v, anon_flags wr ex guarded accessible lo hi v) else space_view sp st v)"
    using m by (rule mapped_freshE)
  moreover have "guard_span (lo + USER_PAGE_SIZE) n = pages lo hi" "lo + USER_PAGE_SIZE + n = q" using n by (simp_all add: guard_span_def q_def)
  ultimately show ?thesis using mem mem' r n unfolding region_ok_def by simp
qed

lemma map_anonymous_mem:
  assumes inv: "mem_inv R p w" and run: "map_anonymous requested len wr ex guarded accessible p w = (p', w', res)" and wx: "\<not> (wr \<and> ex)"
  shows "mem_inv R p' w'"
proof -
  have vi: "vm_inv R p w" and gi: "guards_inv p w" and wf: "wx_free (vm_view p w)" using inv by (auto simp: mem_inv_def)
  obtain sp where sp: "vp_space p = Some sp" using vi by (auto simp: vm_inv_def)
  let ?lo = "anon_lo requested p" and ?hi = "anon_hi requested len guarded p"
  obtain sp' where o: "vp_space p' = Some sp'"
    "case res of Inl e \<Rightarrow> p' = p\<lparr>vp_space := Some sp'\<rparr> \<and> space_view sp' (vw_machine w') = space_view sp (vw_machine w)
     | Inr a \<Rightarrow> map_range ?lo ?hi \<and> 0 < page_up len \<and>
        anon_effect requested ?lo ?hi (page_up len) wr ex guarded accessible sp p w sp' p' w' (Inr a)"
    using map_anonymous_outcome [OF vi sp run] by blast
  have g: "guards_ok (guard_regions p) (space_view sp (vw_machine w))" "guards_private (guard_regions p) (shared_pages (vp_caps p))"
    using gi sp by (auto simp: guards_inv_def)
  show ?thesis
  proof (cases res)
    case (Inl e)
    then show ?thesis using map_anonymous_vm [OF vi run] o wf g sp by (simp add: mem_inv_def guards_inv_def)
  next
    case (Inr a)
    have e: "map_range ?lo ?hi" "0 < page_up len" "a = (if guarded then ?lo + USER_PAGE_SIZE else ?lo)"
      "guard_regions p' = (if guarded then bt_put a (page_up len) (guard_regions p) else guard_regions p)" "vp_caps p' = vp_caps p"
      "mapped_fresh ?lo ?hi (anon_flags wr ex guarded accessible ?lo ?hi) sp (vw_machine w) sp' (vw_machine w')"
      using o(2) unfolding Inr sum.case anon_effect_def by simp_all
    have wf': "wx_free (space_view sp' (vw_machine w'))"
      using mapped_fresh_wx [OF e(6) _ wx] wf sp by simp
    have "guards_inv p' w'"
    proof (cases guarded)
      case False
      then show ?thesis using guards_ok_mono [OF g(1) mapped_fresh_same [OF e(6)]] g(2) e(4,5) o(1) by (simp add: guards_inv_def)
    next
      case True
      have a: "a = ?lo + USER_PAGE_SIZE" using True e(3) by simp
      have "a + page_up len + USER_PAGE_SIZE = ?hi" using a by (simp add: anon_hi_def True)
      then have span: "guard_span a (page_up len) = pages ?lo ?hi" using a by (simp add: guard_span_def)
      have "region_ok (space_view sp' (vw_machine w')) a (page_up len)"
        unfolding a by (rule mapped_fresh_region [OF e(6) e(1) True e(2)]) (simp add: anon_hi_def True)
      then have "guards_ok (guard_regions p') (space_view sp' (vw_machine w'))"
        unfolding e(4) if_P [OF True]
        by (rule guards_ok_put [OF g(1) _ mapped_fresh_same [OF e(6)]]) (assumption, rule mapped_fresh_None [OF e(6)], unfold span)
      moreover have "guards_private (guard_regions p') (shared_pages (vp_caps p'))"
      proof -
        have "shares_ok (vw_globals w) (shared_pages (vp_caps p)) (space_view sp (vw_machine w))" using vi sp by (auto simp: vm_inv_def vm_at_def)
        then have "bt_get (shared_pages (vp_caps p)) x = None" if "x \<in> pages ?lo ?hi" for x
          using mapped_fresh_None [OF e(6) that] unfolding shares_ok_def by (metis option.exhaust option.simps(3))
        then show ?thesis using g(2) span unfolding e(4,5) if_P [OF True] guards_private_def by (auto split: if_splits)
      qed
      ultimately show ?thesis using o(1) by (simp add: guards_inv_def)
    qed
    then show ?thesis using map_anonymous_vm [OF vi run] wf' o(1) by (simp add: mem_inv_def)
  qed
qed

lemma protect_range_mem:
  assumes inv: "mem_inv R p w" and run: "protect_range start len wr ex present p w = (w', res)" and wx: "\<not> (wr \<and> ex)"
  shows "mem_inv R p w'"
proof -
  have vi: "vm_inv R p w" and gi: "guards_inv p w" and wf: "wx_free (vm_view p w)" using inv by (auto simp: mem_inv_def)
  obtain sp where sp: "vp_space p = Some sp" using vi by (auto simp: vm_inv_def)
  then have I: "space_ok (shared_frames (vw_globals w)) sp (vw_machine w)" using vi by (auto simp: vm_inv_def vm_at_def)
  from run sp show ?thesis
  proof (cases rule: protect_range_cases)
    case same
    then show ?thesis using inv by simp
  next
    case (prot fin st')
    note m = vm_range_end_spec [OF prot(1)]
    have pl: "set (page_list start fin) = pages start fin" "distinct (page_list start fin)" using page_list_set m by (auto simp: map_range_def)
    have nb: "\<forall>p \<in> set (page_list start fin). \<not> bad_user_page p" using pages_not_bad m pl by (auto simp: map_range_def)
    note s = protect_pages_spec [OF I prot_flags_ok nb pl(2) prot(5)]
    have V: "space_view sp st' = (\<lambda>v. if v \<in> pages start fin then map_option (\<lambda>(f, _). (f, access_flags (prot_flags wr ex) present)) (space_view sp (vw_machine w) v)
       else space_view sp (vw_machine w) v)" using s unfolding pl(1) by blast
    have g: "guards_ok (guard_regions p) (space_view sp (vw_machine w))" "guards_private (guard_regions p) (shared_pages (vp_caps p))"
      using gi sp by (auto simp: guards_inv_def)
    have "guards_ok (guard_regions p) (space_view sp st')"
    proof (rule guards_ok_protect [OF g(1) V])
      fix u n assume un: "bt_get (guard_regions p) u = Some n"
      note b = region_bounds [OF guards_okD(2) [OF g(1) un]]
      have "\<not> hits_guard start fin (u, n)" using prot(2) bt_get_set [OF un] by blast
      then show "u - USER_PAGE_SIZE \<notin> pages start fin \<and> u + n \<notin> pages start fin"
        unfolding hits_guard_def prod.case b(9,10) by (auto simp: pages_def)
    qed
    moreover have "wx_free (space_view sp st')"
      using wf sp wx unfolding V by (auto simp: wx_free_def prot_flags_bits [unfolded One_nat_def] split: if_splits)
    ultimately show ?thesis using protect_range_vm [OF vi run] g(2) sp prot(4) by (simp add: mem_inv_def guards_inv_def)
  qed
qed

lemma unmap_range_mem:
  assumes inv: "mem_inv R p w" and few: "few_refs R"
  shows "\<exists>p' w' res. unmap_range start len p w = Ret (p', w', res) \<and> mem_inv R p' w'"
proof -
  have vi: "vm_inv R p w" and gi: "guards_inv p w" and wf: "wx_free (vm_view p w)" using inv by (auto simp: mem_inv_def)
  obtain p' w' res where u: "unmap_range start len p w = Ret (p', w', res)" "vm_inv R p' w'" "guards_inv p' w'"
    "case res of Inl e \<Rightarrow> p' = p \<and> w' = w | Inr _ \<Rightarrow> \<exists>fin. vm_range_end start len = Inr fin \<and> unmap_effect start fin p w p' w'"
    using unmap_range_spec [OF vi gi refs_bound_inv [OF vi few]] by blast
  have "wx_free (vm_view p' w')"
  proof (cases res)
    case (Inl e)
    then show ?thesis using u(4) wf by simp
  next
    case (Inr x)
    then obtain fin sp sp' where "vp_space p = Some sp" "vp_space p' = Some sp'"
      "space_view sp' (vw_machine w') = (\<lambda>v. if v \<in> unmapped_pages (guard_regions p) start fin then None else space_view sp (vw_machine w) v)"
      using u(4) by (auto simp: unmap_effect_def)
    then show ?thesis using wf by (auto simp: wx_free_def)
  qed
  then show ?thesis using u by (simp add: mem_inv_def)
qed

lemma same_view_wx: "same_view p w p' w' \<Longrightarrow> wx_free (vm_view p w) \<Longrightarrow> wx_free (vm_view p' w')"
  by (auto simp: same_view_def)

lemma map_shared_vm_mem:
  assumes inv: "mem_inv R p w" and few: "few_refs R" and run: "map_shared_vm sid requested wr p w = (p', w', res)"
  shows "mem_inv R p' w'"
proof -
  have vi: "vm_inv R p w" and gi: "guards_inv p w" and wf: "wx_free (vm_view p w)" using inv by (auto simp: mem_inv_def)
  note s = map_shared_vm_spec [OF vi refs_bound_inv [OF vi few] run]
  show ?thesis
  proof (cases res)
    case (Inl e)
    then show ?thesis using s same_view_guards same_view_wx gi wf unfolding mem_inv_def by fastforce
  next
    case (Inr a)
    let ?fl = "(PF_NO_EXECUTE OR (if wr then PF_WRITABLE else 0)) OR PF_PRESENT OR PF_USER"
    have e: "shared_effect sid a wr p w p' w'" "guard_regions p' = guard_regions p"
      "\<forall>x sp. vp_space p = Some sp \<longrightarrow> space_view sp (vw_machine w) x \<noteq> None \<longrightarrow>
         bt_get (shared_pages (vp_caps p')) x = bt_get (shared_pages (vp_caps p)) x" using s Inr by simp_all
    obtain sp sp' and obj :: shared_vm_object and ps where sp: "vp_space p = Some sp" "vp_space p' = Some sp'" and fresh: "\<forall>v \<in> set ps. space_view sp (vw_machine w) v = None"
      and V: "space_view sp' (vw_machine w') = (\<lambda>v. case map_of (zip ps (so_frames obj)) v of
          Some f \<Rightarrow> Some (f, ?fl) | None \<Rightarrow> space_view sp (vw_machine w) v)"
      using e(1) unfolding shared_effect_def by (elim exE conjE) (rule that, assumption+)
    have g: "guards_ok (guard_regions p) (space_view sp (vw_machine w))" "guards_private (guard_regions p) (shared_pages (vp_caps p))"
      using gi sp by (auto simp: guards_inv_def)
    have same: "space_view sp' (vw_machine w') v = space_view sp (vw_machine w) v" if "space_view sp (vw_machine w) v \<noteq> None" for v
    proof -
      have "v \<notin> set ps" using fresh that by auto
      then have "map_of (zip ps (so_frames obj)) v = None" by (auto simp: map_of_eq_None_iff dest: set_zip_leftD)
      then show ?thesis by (simp add: V)
    qed
    have "guards_private (guard_regions p') (shared_pages (vp_caps p'))"
      unfolding guards_private_def e(2)
    proof (intro allI impI)
      fix u n x assume x: "bt_get (guard_regions p) u = Some n" "x \<in> guard_span u n"
      then have "space_view sp (vw_machine w) x \<noteq> None" using guards_okD(2) [OF g(1)] unfolding region_ok_def by blast
      then have "bt_get (shared_pages (vp_caps p')) x = bt_get (shared_pages (vp_caps p)) x" using e(3) sp(1) by blast
      then show "bt_get (shared_pages (vp_caps p')) x = None" using g(2) x unfolding guards_private_def by simp
    qed
    then have "guards_inv p' w'" using guards_ok_mono [OF g(1) same] e(2) sp(2) by (simp add: guards_inv_def)
    moreover have "bit ?fl 63" by (simp add: bit_or_iff bit_flags)
    then have "wx_free (space_view sp' (vw_machine w'))"
      using wf sp(1) unfolding V wx_free_def by (simp add: bit_or_iff bit_flags split: option.split)
    ultimately show ?thesis using s sp(2) by (simp add: mem_inv_def)
  qed
qed

text \<open>Writing through the physical alias changes contents only.\<close>

lemma translate_out: "USER_SPACE_END \<le> v \<Longrightarrow> translate_user_page sp v st \<noteq> Inr (Some ph)"
  by (simp add: translate_user_page_def user_page_mapping_def user_page_mapping_from_root_def)

lemma copy_pages_keeps:
  "space_ok F sp st \<Longrightarrow> copy_pages addr data sp st = (st', r) \<Longrightarrow>
     \<exists>m. st' = st\<lparr>mem := m\<rparr> \<and> space_ok F sp st' \<and> space_view sp st' = space_view sp st"
proof (induction "length data" arbitrary: addr data st rule: less_induct)
  case less
  define c where "c = min (USER_PAGE_SIZE - addr mod USER_PAGE_SIZE) (length data)"
  show ?case
  proof (cases "data = [] \<or> (\<forall>ph. translate_user_page sp addr st \<noteq> Inr (Some ph))")
    case True
    then have "st' = st" using less.prems(2) by (subst (asm) copy_pages.simps) (auto simp: Let_def split: sum.splits option.splits if_splits)
    then show ?thesis using less.prems(1) by (intro exI [of _ "mem st"]) simp
  next
    case False
    then obtain ph where tr: "translate_user_page sp addr st = Inr (Some ph)" and ne: "data \<noteq> []" by blast
    have "addr < USER_SPACE_END" using translate_out tr not_le by blast
    then have ph: "phys_at sp st addr = Some ph" using translate_phys [OF less.prems(1)] tr by simp
    obtain f fl where f: "space_view sp st (addr - addr mod 4096) = Some (f, fl)" "ph = f + addr mod 4096"
      using ph by (auto simp: phys_at_def)
    have c: "0 < c" "c \<le> length data" "c \<le> USER_PAGE_SIZE - addr mod USER_PAGE_SIZE" using ne by (auto simp: c_def USER_PAGE_SIZE_def)
    define st1 where "st1 = st\<lparr>mem := put_bytes ph (take c data) (mem st)\<rparr>"
    have ok1: "space_ok F sp st1 \<and> space_view sp st1 = space_view sp st"
      unfolding st1_def by (rule frame_write [OF less.prems(1) space_frame_ok [OF less.prems(1) f(1)]])
        (use space_view_not_free [OF less.prems(1) f(1)] f(2) c in \<open>auto simp: USER_PAGE_SIZE_def\<close>)
    have "copy_pages (addr + c) (drop c data) sp st1 = (st', r)"
      using less.prems(2) ne tr by (subst (asm) copy_pages.simps) (simp add: Let_def c_def st1_def)
    then obtain m where "st' = st1\<lparr>mem := m\<rparr>" "space_ok F sp st'" "space_view sp st' = space_view sp st1"
      using less.hyps [of "drop c data" st1 "addr + c"] c(1) ne ok1 by (auto simp: c(2))
    then show ?thesis using ok1 by (auto simp: st1_def)
  qed
qed

lemma vm_inv_mem:
  assumes inv: "mem_inv R p w" and sp: "vp_space p = Some sp" and run: "copy_pages addr data sp (vw_machine w) = (st', r)"
  shows "mem_inv R p (w\<lparr>vw_machine := st'\<rparr>)"
proof -
  have vi: "vm_inv R p w" and gi: "guards_inv p w" and wf: "wx_free (vm_view p w)" using inv by (auto simp: mem_inv_def)
  have at: "vm_at R sp p w" and al: "next_mmap_addr p mod USER_PAGE_SIZE = 0" using vi sp by (auto simp: vm_inv_def)
  obtain m where m: "st' = (vw_machine w)\<lparr>mem := m\<rparr>" "space_ok (shared_frames (vw_globals w)) sp st'" "space_view sp st' = space_view sp (vw_machine w)"
    using copy_pages_keeps [OF vm_atD(2) [OF at] run] by blast
  have "globals_at (w\<lparr>vw_machine := st'\<rparr>) = globals_at w" by (simp add: globals_at_def m(1))
  then have "vm_at R sp p (w\<lparr>vw_machine := st'\<rparr>)" using vm_atD [OF at] m(2,3) by (simp add: vm_at_def)
  then have "vm_inv R p (w\<lparr>vw_machine := st'\<rparr>)" using sp al by (simp add: vm_inv_def)
  moreover have "guards_inv p (w\<lparr>vw_machine := st'\<rparr>)" using gi sp m(3) by (simp add: guards_inv_def)
  ultimately show ?thesis using wf sp m(3) by (simp add: mem_inv_def)
qed

lemma write_mapped_region_mem:
  "mem_inv R p w \<Longrightarrow> write_mapped_region vaddr data p w = (w', r) \<Longrightarrow> mem_inv R p w'"
  using vm_inv_mem by (fastforce simp: write_mapped_region_def split: option.splits prod.splits)

lemma handle_map_mem:
  assumes inv: "mem_inv R p w" and few: "few_refs R" and run: "handle_map h addr len p w = (p', w', r)"
  shows "mem_inv R p' w'"
proof (cases "require h RIGHT_MAP (handles (vp_caps p))")
  case (Inl e)
  then show ?thesis using inv run by (simp add: handle_map_def)
next
  case (Inr ent)
  show ?thesis
  proof (cases "object ent")
    case (SharedFrames sid)
    then show ?thesis using map_shared_vm_mem [OF inv few] run Inr by (auto simp: handle_map_def split: prod.splits sum.splits)
  next
    case (Memory data)
    obtain p1 w1 q where m: "map_anonymous addr (max len 1) True False False True p w = (p1, w1, q)" by (metis prod_cases3)
    then have i: "mem_inv R p1 w1" using map_anonymous_mem [OF inv m] by simp
    then show ?thesis using run Inr Memory m vm_inv_mem [OF i]
      by (fastforce simp: handle_map_def split: prod.splits sum.splits option.splits)
  qed (use inv run Inr in \<open>simp_all add: handle_map_def\<close>)
qed

text \<open>Reading a file into the new mapping.\<close>

lemma populate_loop_mem:
  "mem_inv R (mm_proc s) (mm_world s) \<Longrightarrow> populate_loop ops fd base n pos buf s = Ret (s', r) \<Longrightarrow>
     mem_inv R (mm_proc s') (mm_world s') \<and> mm_proc s' = mm_proc s"
proof (induction ops fd base n pos buf s rule: populate_loop.induct)
  case (1 ops fd base n pos buf s)
  let ?want = "min (n - pos) 4096"
  obtain v part rr where rd: "vfs_read ops fd (take ?want buf) (mm_vfs s) = (v, part, rr)" by (metis prod_cases3)
  let ?s1 = "s\<lparr>mm_vfs := v\<rparr>" and ?buf = "part @ drop ?want buf"
  consider "n \<le> pos" | e where "\<not> n \<le> pos" "rr = Inl e" | "\<not> n \<le> pos" "rr = Inr 0" | k where "\<not> n \<le> pos" "rr = Inr k" "k \<noteq> 0" "length ?buf < k"
    | k where "\<not> n \<le> pos" "rr = Inr k" "k \<noteq> 0" "\<not> length ?buf < k" by (cases rr) fastforce+
  then show ?case
  proof cases
    case (5 k)
    obtain w r1 where wr: "write_mapped_region (base + pos) (take k ?buf) (mm_proc ?s1) (mm_world ?s1) = (w, r1)" by fastforce
    have i: "mem_inv R (mm_proc s) w" using write_mapped_region_mem [OF "1.prems"(1)] wr by simp
    show ?thesis
    proof (cases r1)
      case (Inl e)
      then have "s' = ?s1\<lparr>mm_world := w\<rparr>" using "1.prems"(2) 5 rd wr by (subst (asm) populate_loop.simps) (simp add: Let_def)
      then show ?thesis using i by simp
    next
      case (Inr u)
      then have "populate_loop ops fd base n (pos + k) ?buf (?s1\<lparr>mm_world := w\<rparr>) = Ret (s', r)"
        using "1.prems"(2) 5 rd wr by (subst (asm) populate_loop.simps) (simp add: Let_def)
      then show ?thesis using "1.IH" [OF 5(1) refl rd [symmetric] refl _ refl refl _ 5(4) wr [symmetric]] 5 Inr i by auto
    qed
  qed (use "1.prems" rd in \<open>(subst (asm) populate_loop.simps, auto simp: Let_def)+\<close>)
qed

lemma populate_mem:
  "mem_inv R (mm_proc s) (mm_world s) \<Longrightarrow> populate_file_mapping ops fd offset base n s = Ret (s', r) \<Longrightarrow>
     mem_inv R (mm_proc s') (mm_world s')"
proof -
  assume inv: "mem_inv R (mm_proc s) (mm_world s)" and run: "populate_file_mapping ops fd offset base n s = Ret (s', r)"
  obtain v a v1 b where sk: "vfs_seek ops fd 0 1 (mm_vfs s) = (v, a)" "vfs_seek ops fd (of_nat offset) 0 v = (v1, b)" by fastforce
  consider "s' = s" | "s' = s\<lparr>mm_vfs := v\<rparr>" | "s' = s\<lparr>mm_vfs := v1\<rparr>"
    | s1 saved where "populate_loop ops fd base n 0 (replicate 4096 0) (s\<lparr>mm_vfs := v1\<rparr>) = Ret (s1, r)"
        "s' = s1\<lparr>mm_vfs := fst (vfs_seek ops fd saved 0 (mm_vfs s1))\<rparr>"
    using run unfolding populate_file_mapping_def sk prod.case
    by (cases a; cases b; cases "populate_loop ops fd base n 0 (replicate 4096 0) (s\<lparr>mm_vfs := v1\<rparr>)") (auto split: if_splits)
  then show ?thesis
  proof cases
    case 4
    then show ?thesis using populate_loop_mem [OF _ 4(1), of R] inv by auto
  qed (use inv in simp_all)
qed

lemma bad_prot_wx: "\<not> bad_prot prot \<Longrightarrow> \<not> (prot AND PROT_WRITE \<noteq> 0 \<and> prot AND PROT_EXEC \<noteq> 0)"
proof
  assume nb: "\<not> bad_prot prot" and "prot AND PROT_WRITE \<noteq> 0 \<and> prot AND PROT_EXEC \<noteq> 0"
  then have b: "bit prot 1" "bit prot 2" unfolding PROT_WRITE_def PROT_EXEC_def bit_iff_and_push_bit_not_eq_0 [symmetric] by blast+
  have "prot AND (PROT_WRITE OR PROT_EXEC) = PROT_WRITE OR PROT_EXEC"
    unfolding PROT_WRITE_def PROT_EXEC_def
  proof (rule bit_word_eqI)
    fix n show "bit (prot AND (push_bit 1 1 OR push_bit 2 1)) n = bit (push_bit 1 1 OR push_bit 2 1 :: u32) n"
      unfolding bit_and_iff bit_or_iff bit_push_bit_iff bit_1_iff using b by (metis One_nat_def diff_is_0_eq le_antisym)
  qed
  then show False using nb by (simp add: bad_prot_def)
qed

definition mm_inv :: "(u64 \<Rightarrow> nat) \<Rightarrow> 'f mm_state \<Rightarrow> bool" where
  "mm_inv R s \<longleftrightarrow> mem_inv R (mm_proc s) (mm_world s)"

lemma with_vm_mm:
  "with_vm f s = (s', r) \<Longrightarrow> (\<And>p' w' r. f (mm_proc s) (mm_world s) = (p', w', r) \<Longrightarrow> mem_inv R p' w') \<Longrightarrow> mm_inv R s'"
  by (auto simp: with_vm_def mm_inv_def split: prod.splits)

lemma sys_mmap_cases:
  assumes "sys_mmap ops addr len prot fl fd offset s = Ret (s', r)"
  obtains (same) "s' = s"
    | (anon) g a q where "with_vm (map_anonymous addr len (prot AND PROT_WRITE \<noteq> 0) (prot AND PROT_EXEC \<noteq> 0) g a) s = (s', q)"
    | (mapped) s1 b vfd n k where "with_vm (map_anonymous addr len (prot AND PROT_WRITE \<noteq> 0) (prot AND PROT_EXEC \<noteq> 0) False True) s = (s1, Inr b)"
        "(case populate_file_mapping ops vfd offset b n s1 of
            Panic \<Rightarrow> Panic | Ret (s2, Inr _) \<Rightarrow> Ret (s2, int b)
          | Ret (s2, Inl e) \<Rightarrow> (case unmap_range b len (mm_proc s2) (mm_world s2) of
               Panic \<Rightarrow> Panic | Ret (p, w, _) \<Rightarrow> Ret (s2\<lparr>mm_proc := p, mm_world := w\<rparr>, e))) = Ret (s', k)"
proof -
  let ?m = "\<lambda>g a. with_vm (map_anonymous addr len (prot AND PROT_WRITE \<noteq> 0) (prot AND PROT_EXEC \<noteq> 0) g a) s"
  let ?v = "process_vfs_fd (of_int fd) (mm_fds s)" and ?st = "\<lambda>v. vfs_fstat ops v (mm_vfs s)"
  consider "len = 0 \<or> bad_prot prot \<or> (addr \<noteq> 0 \<and> addr mod 4096 \<noteq> 0)"
    | "\<not> (len = 0 \<or> bad_prot prot \<or> (addr \<noteq> 0 \<and> addr mod 4096 \<noteq> 0))" "fl AND MAP_ANONYMOUS \<noteq> 0"
    | "\<not> (len = 0 \<or> bad_prot prot \<or> (addr \<noteq> 0 \<and> addr mod 4096 \<noteq> 0))" "fl AND MAP_ANONYMOUS = 0" by blast
  then show ?thesis
  proof cases
    case 1
    then show ?thesis using assms same by (simp add: sys_mmap_def)
  next
    case 2
    obtain s1 q where m: "?m (fl AND MAP_GUARD \<noteq> 0) (prot \<noteq> 0) = (s1, q)" by fastforce
    have "s' = s \<or> s' = s1" using assms 2(2) unfolding sys_mmap_def if_not_P [OF 2(1)] m prod.case by (cases q) (auto split: if_splits)
    then show ?thesis using same anon m by blast
  next
    case 3
    obtain s1 q where m: "?m False True = (s1, q)" by fastforce
    show ?thesis
    proof (cases "s' = s \<or> s' = s1")
      case True
      then show ?thesis using same anon m by blast
    next
      case False
      then obtain vfd stt b where "?v = Inr vfd" "?st vfd = Inr stt" "q = Inr b" "st_type stt = File" "\<not> fd < 0" "\<not> fl AND MAP_SHARED \<noteq> 0"
        "\<not> (fl AND NOT MAP_PRIVATE \<noteq> 0 \<or> fl AND MAP_PRIVATE = 0 \<or> prot AND PROT_READ = 0 \<or> offset mod 4096 \<noteq> 0)"
        using assms 3(2) unfolding sys_mmap_def if_not_P [OF 3(1)] m prod.case
        by (cases ?v; cases q) (auto split: if_splits sum.splits)
      then show ?thesis using mapped [of s1 b vfd "min (st_size stt - offset) len" r] m assms 3(2)
        unfolding sys_mmap_def if_not_P [OF 3(1)] by simp
    qed
  qed
qed

lemma sys_mmap_mm:
  assumes inv: "mm_inv R s" and few: "few_refs R" and run: "sys_mmap ops addr len prot fl fd offset s = Ret (s', r)"
  shows "mm_inv R s'"
proof (cases "bad_prot prot")
  case True
  then show ?thesis using inv run by (simp add: sys_mmap_def)
next
  case False
  note wx = bad_prot_wx [OF False]
  have map: "mm_inv R s1" if "with_vm (map_anonymous addr len (prot AND PROT_WRITE \<noteq> 0) (prot AND PROT_EXEC \<noteq> 0) g a) s = (s1, q)" for s1 q g a
    using that by (rule with_vm_mm) (rule map_anonymous_mem [OF inv [unfolded mm_inv_def] _ wx])
  have fin: "mm_inv R s3" if "mm_inv R s1" "(case populate_file_mapping ops vfd offset b n s1 of
      Panic \<Rightarrow> Panic | Ret (s2, Inr _) \<Rightarrow> Ret (s2, int b)
    | Ret (s2, Inl e) \<Rightarrow> (case unmap_range b len (mm_proc s2) (mm_world s2) of
         Panic \<Rightarrow> Panic | Ret (p, w, _) \<Rightarrow> Ret (s2\<lparr>mm_proc := p, mm_world := w\<rparr>, e))) = Ret (s3, k)" for s1 s3 vfd b n k
  proof (cases "populate_file_mapping ops vfd offset b n s1")
    case (Ret x)
    obtain s2 q where x: "x = (s2, q)" by fastforce
    have i: "mem_inv R (mm_proc s2) (mm_world s2)" using populate_mem that(1) Ret x by (fastforce simp: mm_inv_def)
    show ?thesis using that(2) unmap_range_mem [OF i few, of b len] i unfolding Ret x by (cases q) (auto simp: mm_inv_def)
  qed (use that in simp)
  from run show ?thesis
  proof (cases rule: sys_mmap_cases)
    case (mapped s1 b vfd n k)
    then show ?thesis using fin map by blast
  qed (use inv map in blast)+
qed

lemma sys_munmap_mm:
  assumes "mm_inv R s" "few_refs R"
  shows "\<exists>s' r. sys_munmap addr len s = Ret (s', r) \<and> mm_inv R s'"
  using unmap_range_mem [of R "mm_proc s" "mm_world s" addr len] assms by (fastforce simp: sys_munmap_def mm_inv_def)

lemma sys_mprotect_mm:
  assumes "mm_inv R s" "sys_mprotect addr len prot s = (s', r)"
  shows "mm_inv R s'"
  using assms protect_range_mem [OF _ _ bad_prot_wx] by (auto simp: sys_mprotect_def mm_inv_def split: if_splits prod.splits)

lemma sys_shared_vm_map_mm:
  assumes "mm_inv R s" "few_refs R" "sys_shared_vm_map sid addr prot s = (s', r)"
  shows "mm_inv R s'"
proof (cases "prot \<noteq> 1 \<and> prot \<noteq> 3")
  case False
  obtain s1 q where w: "with_vm (map_shared_vm sid addr (prot AND 2 \<noteq> 0)) s = (s1, q)" by fastforce
  have "s' = s1" using assms(3) False w by (auto simp: sys_shared_vm_map_def split: sum.splits)
  then show ?thesis using with_vm_mm [OF w] map_shared_vm_mem [OF assms(1) [unfolded mm_inv_def] assms(2)] by blast
qed (use assms in \<open>simp add: sys_shared_vm_map_def\<close>)

text \<open>A process issues its memory calls in any order.\<close>

inductive mm_step :: "'f fs_ops \<Rightarrow> 'f mm_state \<Rightarrow> 'f mm_state \<Rightarrow> bool" for ops where
  mmap: "sys_mmap ops addr len prot fl fd offset s = Ret (s', r) \<Longrightarrow> mm_step ops s s'"
| munmap: "sys_munmap addr len s = Ret (s', r) \<Longrightarrow> mm_step ops s s'"
| mprotect: "sys_mprotect addr len prot s = (s', r) \<Longrightarrow> mm_step ops s s'"
| shared_map: "sys_shared_vm_map sid addr prot s = (s', r) \<Longrightarrow> mm_step ops s s'"
| map_handle: "with_vm (handle_map h addr len) s = (s', q) \<Longrightarrow> mm_step ops s s'"

lemma mm_step_inv: "mm_step ops s s' \<Longrightarrow> few_refs R \<Longrightarrow> mm_inv R s \<Longrightarrow> mm_inv R s'"
proof (induction rule: mm_step.induct)
  case (munmap addr len s s' r)
  then show ?case using sys_munmap_mm [OF munmap(3,2), of addr len] by auto
next
  case (map_handle h addr len s s' q)
  show ?case using map_handle(1) by (rule with_vm_mm) (rule handle_map_mem [OF map_handle(3) [unfolded mm_inv_def] map_handle(2)])
qed (blast intro: sys_mmap_mm sys_mprotect_mm sys_shared_vm_map_mm)+

lemma mm_steps_inv: "(mm_step ops)\<^sup>*\<^sup>* s s' \<Longrightarrow> few_refs R \<Longrightarrow> mm_inv R s \<Longrightarrow> mm_inv R s'"
  by (induction rule: rtranclp_induct) (blast intro: mm_step_inv)+

text \<open>
  C2. Memory safety of the memory calls: after any sequence of mmap, munmap, mprotect, shared mapping and
  handle mapping calls, every page of the process lies in a frame that is allocated and is not a page
  table of the process, and the frame is either owned by the process or belongs to a shared object that is
  still alive and that the process records for this page.
\<close>
theorem memory_calls_safe:
  assumes "mm_inv R s" "few_refs R" "(mm_step ops)\<^sup>*\<^sup>* s s'" "vm_view (mm_proc s') (mm_world s') v = Some (f, fl)"
  shows "\<exists>sp. vp_space (mm_proc s') = Some sp \<and> f \<notin> free_set (vw_machine (mm_world s')) \<and> f \<notin> set (page_table_frames sp) \<and>
    (f \<in> set (user_frames sp) \<or>
     (\<exists>sid obj. bt_get (shared_pages (vp_caps (mm_proc s'))) v = Some sid \<and>
        bt_get (shared_objects (vw_globals (mm_world s'))) sid = Some obj \<and> f \<in> set (so_frames obj) \<and> 0 < so_refs obj))"
proof -
  let ?p = "mm_proc s'" and ?w = "mm_world s'"
  have "vm_inv R ?p ?w" using mm_steps_inv [OF assms(3,2,1)] by (simp add: mm_inv_def mem_inv_def)
  then obtain sp where sp: "vp_space ?p = Some sp" and at: "vm_at R sp ?p ?w" by (auto simp: vm_inv_def)
  note I = vm_atD [OF at]
  have v: "space_view sp (vw_machine ?w) v = Some (f, fl)" using assms(4) sp by simp
  have "f \<in> set (user_frames sp) \<union> shared_frames (vw_globals ?w)" using I(2) v unfolding space_ok_def by blast
  moreover have "\<exists>sid obj. bt_get (shared_pages (vp_caps ?p)) v = Some sid \<and>
        bt_get (shared_objects (vw_globals ?w)) sid = Some obj \<and> f \<in> set (so_frames obj) \<and> 0 < so_refs obj"
    if sh: "f \<in> shared_frames (vw_globals ?w)"
  proof -
    have "bt_get (shared_pages (vp_caps ?p)) v \<noteq> None" using I(3) v sh unfolding shares_ok_def by blast
    then obtain sid where s: "bt_get (shared_pages (vp_caps ?p)) v = Some sid" by blast
    then have "f \<in> frames_of (vw_globals ?w) sid" using I(3) v unfolding shares_ok_def by force
    then obtain obj where "bt_get (shared_objects (vw_globals ?w)) sid = Some obj" "f \<in> set (so_frames obj)"
      by (auto simp: frames_of_def split: option.splits)
    then show ?thesis using s registry_invD(3) [OF I(1)] by (metis shared_objects_at(1))
  qed
  ultimately show ?thesis using space_view_not_free [OF I(2) v] sp by auto
qed


definition mm_example :: "memfs mm_state" where
  "mm_example = \<lparr>mm_proc = vm_example, mm_world = vm_example_world,
     mm_fds = reserve_stdio \<lparr>fd_table = [], vfs_fd_refs = [], next_fd = 3\<rparr>, mm_vfs = vfs_example\<rparr>"

lemma mm_example_ok: "mm_inv (\<lambda>_. 0) mm_example" "few_refs (\<lambda>_. 0)"
  using vm_example_ok(1,2,4) by (simp_all add: mm_inv_def mem_inv_def mm_example_def few_refs_def vm_view_def vm_example_def wx_free_def)

text \<open>A guarded, writable page.\<close>

lemma mm_example_mmap:
  obtains s' f fl where "sys_mmap memfs_ops 0 USER_PAGE_SIZE 3 0x62 (-1) 0 mm_example = Ret (s', int (USER_MMAP_BASE + USER_PAGE_SIZE))"
    "mm_step memfs_ops mm_example s'"
    "vm_view (mm_proc s') (mm_world s') (USER_MMAP_BASE + USER_PAGE_SIZE) = Some (f, fl)"
    "guard_regions (mm_proc s') = [(USER_MMAP_BASE + USER_PAGE_SIZE, USER_PAGE_SIZE)]"
proof -
  obtain p' w' r where m: "map_anonymous 0 USER_PAGE_SIZE True False True True vm_example vm_example_world = (p', w', r)" by (metis prod_cases3)
  have "\<not> isl r" using vm_example_maps [where k = 1 and p = vm_example and i = "[]" and m = 0 and a = 1] m by (simp add: vm_example_def)
  then obtain a where r: "r = Inr a" by (cases r) auto
  have pu: "page_up USER_PAGE_SIZE = USER_PAGE_SIZE" by (simp add: page_up_def align_down_def USER_PAGE_SIZE_def)
  have sp: "vp_space vm_example = Some vm_example_space" by (simp add: vm_example_def)
  have lo: "anon_lo 0 vm_example = USER_MMAP_BASE" by (simp add: anon_lo_def vm_example_def)
  obtain sp' where o: "vp_space p' = Some sp'"
    "anon_effect 0 USER_MMAP_BASE (anon_hi 0 USER_PAGE_SIZE True vm_example) USER_PAGE_SIZE True False True True
       vm_example_space vm_example vm_example_world sp' p' w' (Inr a)"
    using map_anonymous_outcome [OF vm_example_ok(1) sp m] unfolding r pu lo by auto
  let ?s = "mm_example\<lparr>mm_proc := p', mm_world := w'\<rparr>"
  have a: "a = USER_MMAP_BASE + USER_PAGE_SIZE" "guard_regions p' = [(a, USER_PAGE_SIZE)]"
    using o(2) by (auto simp: anon_effect_def vm_example_def)
  have c: "(3 :: u32) AND PROT_WRITE \<noteq> 0" "(3 :: u32) AND PROT_EXEC = 0" "(0x62 :: u32) AND MAP_GUARD \<noteq> 0" "(0x62 :: u32) AND MAP_ANONYMOUS \<noteq> 0"
    "(0x62 :: u32) AND MAP_PRIVATE \<noteq> 0" "(0x62 :: u32) AND NOT (MAP_PRIVATE OR MAP_ANONYMOUS OR MAP_GUARD) = 0" "\<not> bad_prot 3" "USER_PAGE_SIZE \<noteq> 0"
    by (simp_all add: PROT_WRITE_def PROT_EXEC_def PROT_READ_def MAP_GUARD_def MAP_ANONYMOUS_def MAP_PRIVATE_def bad_prot_def USER_PAGE_SIZE_def)
  have run: "sys_mmap memfs_ops 0 USER_PAGE_SIZE 3 0x62 (-1) 0 mm_example = Ret (?s, int (USER_MMAP_BASE + USER_PAGE_SIZE))"
    using m r a c by (simp add: sys_mmap_def with_vm_def mm_example_def)
  have "USER_MMAP_BASE + USER_PAGE_SIZE \<in> pages USER_MMAP_BASE (anon_hi 0 USER_PAGE_SIZE True vm_example)"
    by (simp add: pages_def anon_hi_def lo pu USER_MMAP_BASE_def USER_PAGE_SIZE_def)
  then obtain f fl where "space_view sp' (vw_machine w') (USER_MMAP_BASE + USER_PAGE_SIZE) = Some (f, fl)"
    using o(2) by (auto simp: anon_effect_def elim!: mapped_freshE)
  then show ?thesis using that [of ?s f fl, OF run mm_step.mmap [OF run]] o(1) a by simp
qed

theorem memory_calls_safe_witness:
  "\<exists>s' f fl sp. mm_step memfs_ops mm_example s' \<and> vm_view (mm_proc s') (mm_world s') (USER_MMAP_BASE + USER_PAGE_SIZE) = Some (f, fl) \<and>
     vp_space (mm_proc s') = Some sp \<and> f \<notin> free_set (vw_machine (mm_world s')) \<and> f \<notin> set (page_table_frames sp)"
proof -
  obtain s' f fl where s: "mm_step memfs_ops mm_example s'" "vm_view (mm_proc s') (mm_world s') (USER_MMAP_BASE + USER_PAGE_SIZE) = Some (f, fl)"
    by (rule mm_example_mmap)
  show ?thesis using memory_calls_safe [OF mm_example_ok r_into_rtranclp [where r = "mm_step memfs_ops", OF s(1)] s(2)] s by blast
qed


section \<open>Read-only handles\<close>

lemma map_shared_vm_range:
  assumes "map_shared_vm sid requested wr p w = (p', w', Inr a)"
  shows "\<exists>obj. bt_get (shared_objects (vw_globals w)) sid = Some obj \<and> shared_range a (length (so_frames obj)) \<and>
    shared_pages (vp_caps p') = fold (\<lambda>pg m. bt_put pg sid m) (map (\<lambda>i. a + i * USER_PAGE_SIZE) [0..<length (so_frames obj)]) (shared_pages (vp_caps p))"
  using assms unfolding map_shared_vm_def Let_def
  by (auto simp: shared_range_def split: if_splits option.splits prod.splits bool.splits)

lemma page_unique: "v mod USER_PAGE_SIZE = 0 \<Longrightarrow> x mod USER_PAGE_SIZE = 0 \<Longrightarrow> v \<le> x \<Longrightarrow> x < v + USER_PAGE_SIZE \<Longrightarrow> x = v"
  by (auto simp: USER_PAGE_SIZE_def elim!: dvdE simp flip: dvd_eq_mod_eq_0)

text \<open>One page outside the guarded regions can be made writable.\<close>

lemma mprotect_page:
  assumes inv: "mm_inv R s" and v: "USER_MMAP_BASE \<le> v" "v mod USER_PAGE_SIZE = 0" "v + USER_PAGE_SIZE \<le> USER_MMAP_END"
    and view: "vm_view (mm_proc s) (mm_world s) v = Some (f, fl)" and sh: "bt_get (shared_pages (vp_caps (mm_proc s))) v \<noteq> None"
  shows "\<exists>s' fl'. sys_mprotect v USER_PAGE_SIZE 3 s = (s', 0) \<and> vm_view (mm_proc s') (mm_world s') v = Some (f, fl') \<and> bit fl' 0 \<and> bit fl' 1"
proof -
  let ?p = "mm_proc s" and ?w = "mm_world s"
  obtain sp where sp: "vp_space ?p = Some sp" and at: "vm_at R sp ?p ?w" using inv by (auto simp: mm_inv_def mem_inv_def vm_inv_def)
  note I = vm_atD [OF at]
  have g: "guards_ok (guard_regions ?p) (space_view sp (vw_machine ?w))" "guards_private (guard_regions ?p) (shared_pages (vp_caps ?p))"
    using inv sp by (auto simp: mm_inv_def mem_inv_def guards_inv_def)
  have e: "vm_range_end v USER_PAGE_SIZE = Inr (v + USER_PAGE_SIZE)"
    using v by (simp add: vm_range_end_def checked_add_def align_down_def usize_max_def USER_PAGE_SIZE_def USER_MMAP_END_def)
  have pl: "page_list v (v + USER_PAGE_SIZE) = [v]" by (simp add: page_list_def div_ceil_def USER_PAGE_SIZE_def)
  have nb: "\<not> bad_user_page v"
    using pages_not_bad [OF v(1,3)] v(2) by (simp add: pages_def USER_PAGE_SIZE_def)
  have ng: "\<not> hits_guard v (v + USER_PAGE_SIZE) (u, n)" if "(u, n) \<in> set (guard_regions ?p)" for u n
  proof -
    have un: "bt_get (guard_regions ?p) u = Some n" using bt_set_get [OF guards_okD(1) [OF g(1)] that] .
    note b = region_bounds [OF guards_okD(2) [OF g(1) un]]
    have out: "v \<notin> guard_span u n" using g(2) un sh unfolding guards_private_def by metis
    have "x \<noteq> v" "v \<le> x \<and> x < v + USER_PAGE_SIZE \<longrightarrow> x = v" if "x \<in> guard_span u n" for x
      using out that page_unique [OF v(2), of x] by (auto simp: guard_span_def pages_def)
    then show ?thesis using b(5,6) unfolding hits_guard_def prod.case b(9,10) by blast
  qed
  have am: "all_mapped [v] sp (vw_machine ?w)" using all_mapped_spec [OF I(2), of "[v]"] nb view sp by simp
  obtain st' r where pr: "protect_pages [v] (prot_flags True False) True sp (vw_machine ?w) = (st', r)" by fastforce
  note ps = protect_pages_spec [OF I(2) prot_flags_ok _ _ pr]
  have r: "r = Inr ()" "space_view sp st' v = Some (f, access_flags (prot_flags True False) True)" using ps nb view sp by simp_all
  have c: "\<not> bad_prot 3" "(3 :: u32) AND PROT_WRITE \<noteq> 0" "(3 :: u32) AND PROT_EXEC = 0" 
    by (simp_all add: PROT_WRITE_def PROT_EXEC_def PROT_READ_def bad_prot_def)
  have "protect_range v USER_PAGE_SIZE True False True ?p ?w = (?w\<lparr>vw_machine := st'\<rparr>, Inr ())"
    using e ng sp am pr r unfolding protect_range_def by (auto simp: pl)
  then have "sys_mprotect v USER_PAGE_SIZE 3 s = (s\<lparr>mm_world := ?w\<lparr>vw_machine := st'\<rparr>\<rparr>, 0)" using c by (simp add: sys_mprotect_def)
  moreover have "bit (access_flags (prot_flags True False) True) 0" "bit (access_flags (prot_flags True False) True) 1"
    by (simp_all add: access_flags_def prot_flags_def bit_or_iff bit_flags)
  ultimately show ?thesis using r(2) sp by (simp add: vm_view_def)
qed

text \<open>
  C35. A read-only handle does not keep its holder from writing. A process that holds a handle to a shared
  object with the right to map but without the right to write gets a read-only mapping, and one mprotect
  call makes the first page of it writable: the same frame, the frame of the shared object, is now present
  and writable in the process.
\<close>
theorem readonly_handle_upgraded:
  assumes "mm_inv R s" "few_refs R" "require h RIGHT_MAP (handles (vp_caps (mm_proc s))) = Inr ent"
    "object ent = SharedFrames sid" "rights ent AND RIGHT_WRITE = 0" "with_vm (handle_map h addr len) s = (s1, Inr a)"
    "bt_get (shared_objects (vw_globals (mm_world s))) sid = Some obj" "so_frames obj \<noteq> []"
  shows "\<exists>s2 fl fl'. vm_view (mm_proc s1) (mm_world s1) a = Some (hd (so_frames obj), fl) \<and> \<not> bit fl 1 \<and>
    sys_mprotect a USER_PAGE_SIZE 3 s1 = (s2, 0) \<and>
    vm_view (mm_proc s2) (mm_world s2) a = Some (hd (so_frames obj), fl') \<and> bit fl' 0 \<and> bit fl' 1"
proof -
  let ?p = "mm_proc s" and ?w = "mm_world s" and ?n = "length (so_frames obj)"
  have vi: "vm_inv R ?p ?w" using assms(1) by (simp add: mm_inv_def mem_inv_def)
  have run: "map_shared_vm sid addr False ?p ?w = (mm_proc s1, mm_world s1, Inr a)"
    using assms(3-6) by (auto simp: with_vm_def handle_map_def split: prod.splits sum.splits)
  have i1: "mm_inv R s1" using map_shared_vm_mem [OF _ assms(2) run] assms(1) by (simp add: mm_inv_def)
  note s = map_shared_vm_spec [OF vi refs_bound_inv [OF vi assms(2)] run]
  let ?ps = "map (\<lambda>i. a + i * USER_PAGE_SIZE) [0..<?n]"
  have r: "shared_range a ?n" "shared_pages (vp_caps (mm_proc s1)) = fold (\<lambda>pg m. bt_put pg sid m) ?ps (shared_pages (vp_caps ?p))"
    using map_shared_vm_range [OF run] assms(7) by auto
  obtain sp where at: "vm_at R sp ?p ?w" using vi by (auto simp: vm_inv_def)
  note I = vm_atD [OF at]
  have "1 \<le> ?n" using assms(8) by (cases "so_frames obj") auto
  then have rng: "USER_MMAP_BASE \<le> a" "a mod USER_PAGE_SIZE = 0" "a + USER_PAGE_SIZE \<le> USER_MMAP_END"
    using r(1) frames_fit [OF I(1) assms(7) space_okD(3) [OF I(2)]]
    by (auto simp: shared_range_def checked_add_def USER_PAGE_SIZE_def split: if_splits)
  have view: "vm_view (mm_proc s1) (mm_world s1) a = Some (hd (so_frames obj), PF_NO_EXECUTE OR PF_PRESENT OR PF_USER)"
  proof -
    have "map_of (zip ?ps (so_frames obj)) a = Some (hd (so_frames obj))"
      using assms(8) by (cases "so_frames obj") (simp_all add: upt_conv_Cons del: upt_Suc)
    moreover have "shared_effect sid a False ?p ?w (mm_proc s1) (mm_world s1)" using s by simp
    ultimately show ?thesis unfolding shared_effect_def assms(7) by (elim exE conjE) simp
  qed
  have "a \<in> set ?ps" using \<open>1 \<le> ?n\<close> by force
  then have "bt_get (shared_pages (vp_caps (mm_proc s1))) a \<noteq> None" unfolding r(2) by (simp add: fold_put_get)
  then obtain s2 fl' where "sys_mprotect a USER_PAGE_SIZE 3 s1 = (s2, 0)" "vm_view (mm_proc s2) (mm_world s2) a = Some (hd (so_frames obj), fl')"
    "bit fl' 0" "bit fl' 1" using mprotect_page [OF i1 rng view] by blast
  moreover have "\<not> bit (PF_NO_EXECUTE OR PF_PRESENT OR PF_USER) 1" by (simp add: bit_or_iff bit_flags)
  ultimately show ?thesis using view by blast
qed

text \<open>A process that holds a read-only handle to a shared object of one frame.\<close>

definition sh_pool :: pmm where
  "sh_pool = \<lparr>bitmap = [1, 0], total_frames = 16, usable_frames = 16, free_frames = 15, base_addr = 0x100000\<rparr>"

definition sh_machine :: machine where
  "sh_machine = \<lparr>mem = (\<lambda>_. 0), m_pmm = Some sh_pool, kernel_root = 0x1000, cr3 = 0x1000\<rparr>"

definition sh_space :: address_space where
  "sh_space = \<lparr>root_frame = 0x101000, user_frames = [], page_table_frames = [0x101000]\<rparr>"

definition sh_object :: shared_vm_object where
  "sh_object = \<lparr>so_frames = [0x100000], so_refs = 1\<rparr>"

definition sh_example :: "memfs mm_state" where
  "sh_example = \<lparr>mm_proc = vm_example\<lparr>vp_space := Some sh_space, vp_caps := (new_process 1 False)\<lparr>handles :=
       \<lparr>entries = [(1, \<lparr>object = SharedFrames 1, rights = RIGHT_READ OR RIGHT_MAP\<rparr>)], next_handle = 2\<rparr>\<rparr>\<rparr>,
     mm_world = \<lparr>vw_machine = fst (space_new sh_machine),
       vw_globals = \<lparr>display_owner = 0, input_owner = 0, shared_objects = [(1, sh_object)], next_shared_vm_id = 2, g_pmm = None\<rparr>\<rparr>,
     mm_fds = reserve_stdio \<lparr>fd_table = [], vfs_fd_refs = [], next_fd = 3\<rparr>, mm_vfs = vfs_example\<rparr>"

lemma sh_pool_free: "pmm_free sh_pool = {1..<16}"
proof -
  have "bitmap_clear [1, 0] i \<longleftrightarrow> i \<noteq> 0" if "i < 16" for i
  proof -
    have "i \<in> set [0..<16]" using that by simp
    then show ?thesis by (simp add: upt_conv_Cons bitmap_clear_def) (elim disjE; simp add: frame_mask_def)
  qed
  then show ?thesis by (auto simp: pmm_free_def sh_pool_def)
qed

lemma sh_machine_ok: "frames_ok sh_machine" "card (free_set sh_machine) = 15" "0x100000 \<notin> free_set sh_machine" "0x100000 \<in> pool_set sh_machine"
proof -
  have "pmm_ok sh_pool" using sh_pool_free by (simp add: pmm_ok_def sh_pool_def PAGE_SIZE_def usize_modulus_def)
  then show "frames_ok sh_machine"
    by (auto simp: frames_ok_def sh_machine_def pool_set_def pool_addrs_def frame_of_def sh_pool_def PAGE_SIZE_def)
  show "card (free_set sh_machine) = 15"
    using sh_pool_free card_image [OF inj_on_subset [OF inj_frame_of subset_UNIV], of sh_pool "{1..<16}"]
    by (simp add: free_set_def sh_machine_def free_addrs_def)
  show "0x100000 \<notin> free_set sh_machine" using sh_pool_free by (auto simp: free_set_def sh_machine_def free_addrs_def frame_of_def sh_pool_def PAGE_SIZE_def)
  show "0x100000 \<in> pool_set sh_machine" by (auto simp: pool_set_def sh_machine_def pool_addrs_def frame_of_def sh_pool_def image_def intro!: bexI [of _ 0])
qed

lemma sh_example_new: "space_new sh_machine = (vw_machine (mm_world sh_example), Inr sh_space)"
  "m_pmm (vw_machine (mm_world sh_example)) = Some (sh_pool\<lparr>bitmap := [3, 0], free_frames := 14\<rparr>)"
proof -
  have "alloc_frame sh_pool =
      (\<lparr>bitmap = [3, 0], total_frames = 16, usable_frames = 16, free_frames = 14, base_addr = 0x100000\<rparr>, Some 0x101000)"
    by (simp add: sh_pool_def alloc_frame_def upt_conv_Cons frame_addr_def wrap_add_def wrap_mul_def wrap_sub_def pmm_eval Let_def PAGE_SIZE_def)
  moreover have "kernel_root sh_machine \<noteq> UNINITIALIZED_ROOT" by (simp add: sh_machine_def UNINITIALIZED_ROOT_def usize_max_def)
  moreover have "m_pmm sh_machine = Some sh_pool" by (simp add: sh_machine_def)
  ultimately show "space_new sh_machine = (vw_machine (mm_world sh_example), Inr sh_space)"
    "m_pmm (vw_machine (mm_world sh_example)) = Some (sh_pool\<lparr>bitmap := [3, 0], free_frames := 14\<rparr>)"
    by (simp_all add: sh_example_def sh_space_def space_new_def sync_kernel_half_into_def sh_pool_def)
qed

definition sh_refs :: "u64 \<Rightarrow> nat" where
  "sh_refs i = (if i = 1 then 1 else 0)"

lemma sh_example_space:
  "space_ok {0x100000} sh_space (vw_machine (mm_world sh_example))" "space_view sh_space (vw_machine (mm_world sh_example)) = (\<lambda>_. None)"
  "14 \<le> card (free_set (vw_machine (mm_world sh_example)))" "0x100000 \<in> pool_set (vw_machine (mm_world sh_example))"
  "0x100000 \<notin> free_set (vw_machine (mm_world sh_example))"
proof -
  have F: "frame_addr_ok 0x100000" using pool_frame_ok [OF sh_machine_ok(1,4)] .
  note n = space_new_spec [OF sh_machine_ok(1) _ _ sh_example_new(1), of "{0x100000}"]
  show "space_ok {0x100000} sh_space (vw_machine (mm_world sh_example))" "space_view sh_space (vw_machine (mm_world sh_example)) = (\<lambda>_. None)"
    "0x100000 \<notin> free_set (vw_machine (mm_world sh_example))" using n sh_machine_ok(3) F by auto
  show "14 \<le> card (free_set (vw_machine (mm_world sh_example)))"
    using n sh_machine_ok(2,3) F card_Diff_singleton_if [of "free_set sh_machine" "root_frame sh_space"] by auto
  show "0x100000 \<in> pool_set (vw_machine (mm_world sh_example))"
    by (auto simp: pool_set_def sh_example_new(2) pool_addrs_def frame_of_def sh_pool_def image_def intro!: bexI [of _ 0])
qed

lemma sh_example_frames: "shared_frames (vw_globals (mm_world sh_example)) = {0x100000}"
  by (auto simp: shared_frames_def frames_of_def sh_example_def sh_object_def split: if_splits option.splits)

lemma sh_example_ok: "mm_inv sh_refs sh_example" "few_refs sh_refs"
proof -
  let ?p = "mm_proc sh_example" and ?w = "mm_world sh_example"
  have sp: "vp_space ?p = Some sh_space" "shared_pages (vp_caps ?p) = []" "guard_regions ?p = []" "next_mmap_addr ?p = USER_MMAP_BASE"
    by (simp_all add: sh_example_def new_process_def vm_example_def)
  have o: "shared_objects (vw_globals ?w) = [(1, sh_object)]" "next_shared_vm_id (vw_globals ?w) = 2" by (simp_all add: sh_example_def)
  have "frames_inv (globals_at ?w)"
    using space_okD(3) [OF sh_example_space(1)] sh_example_space(4,5) o
    by (auto simp: frames_inv_def objects_ok_def frames_ok_def sh_object_def pool_set_def free_set_def split: if_splits)
  then have "registry_inv (\<lambda>i. sh_refs i + page_refs ?p i) (globals_at ?w)"
    using o sp by (intro registry_invI) (auto simp: page_refs_def sh_refs_def sh_object_def globals_at_def bt_ok_def word_le_nat_alt split: if_splits)
  then have "vm_at sh_refs sh_space ?p ?w" using sh_example_space sp sh_example_frames by (simp add: vm_at_def shares_ok_def)
  then show "mm_inv sh_refs sh_example" using sp sh_example_space(2)
    by (simp add: mm_inv_def mem_inv_def vm_inv_def guards_inv_def guards_ok_def guards_private_def wx_free_def USER_MMAP_BASE_def USER_PAGE_SIZE_def)
  show "few_refs sh_refs" by (simp add: few_refs_def sh_refs_def)
qed

lemma sh_example_maps: "\<exists>s1. with_vm (handle_map 1 0 0) sh_example = (s1, Inr USER_MMAP_BASE)"
proof -
  let ?p = "mm_proc sh_example" and ?w = "mm_world sh_example"
  let ?fl = "PF_NO_EXECUTE OR (if False then PF_WRITABLE else 0)"
  have nb: "\<not> bad_user_page USER_MMAP_BASE" by (simp add: bad_user_page_def USER_MMAP_BASE_def USER_SPACE_END_def PAGE_SIZE_def)
  have u: "user_page USER_MMAP_BASE" "USER_MMAP_BASE \<noteq> 0" using user_page_not_bad nb by blast+
  have tr: "translate_user_page sh_space USER_MMAP_BASE (vw_machine ?w) = Inr None"
    using translate_view [OF sh_example_space(1) nb] by (simp add: sh_example_space(2))
  have lf: "leaf (mem (vw_machine ?w)) (root_frame sh_space) USER_MMAP_BASE = None"
    using sh_example_space(2) u(1) by (metis space_view_def)
  obtain sp1 st1 where m: "map_user_frame USER_MMAP_BASE 0x100000 ?fl sh_space (vw_machine ?w) = (sp1, st1, Inr ())"
    using map_user_frame_total [OF _ u lf, of "0x100000" ?fl] sh_example_space pool_frame_ok space_okD [OF sh_example_space(1)]
    by (fastforce simp: space_ok_def)
  have mf: "map_frames (zip [USER_MMAP_BASE] (so_frames sh_object)) ?fl [] (sh_space, vw_machine ?w) = ((sp1, st1), True)"
    using tr m by (simp add: sh_object_def)
  have rg: "shared_range USER_MMAP_BASE 1"
    by (simp add: shared_range_def checked_add_def wrap_mul_def usize_max_def usize_modulus_def USER_PAGE_SIZE_def USER_MMAP_BASE_def USER_MMAP_END_def)
  have "\<exists>p1 w1. map_shared_vm 1 0 False ?p ?w = (p1, w1, Inr USER_MMAP_BASE)"
    by (subst map_shared_vm_run [where obj = sh_object and n = 1 and start = USER_MMAP_BASE and ps = "[USER_MMAP_BASE]" and sp = sh_space])
      (use mf rg in \<open>simp_all add: sh_example_def sh_object_def vm_example_def new_process_def\<close>)
  moreover have "require 1 RIGHT_MAP (handles (vp_caps ?p)) = Inr \<lparr>object = SharedFrames 1, rights = RIGHT_READ OR RIGHT_MAP\<rparr>"
    by (simp add: require_def handle_get_def sh_example_def RIGHT_READ_def RIGHT_MAP_def)
  moreover have "(RIGHT_READ OR RIGHT_MAP) AND RIGHT_WRITE = 0" by (simp add: RIGHT_READ_def RIGHT_MAP_def RIGHT_WRITE_def)
  ultimately show ?thesis by (auto simp: with_vm_def handle_map_def)
qed

theorem readonly_handle_upgraded_witness:
  "\<exists>s1 s2 fl. with_vm (handle_map 1 0 0) sh_example = (s1, Inr USER_MMAP_BASE) \<and>
     sys_mprotect USER_MMAP_BASE USER_PAGE_SIZE 3 s1 = (s2, 0) \<and>
     vm_view (mm_proc s2) (mm_world s2) USER_MMAP_BASE = Some (0x100000, fl) \<and> bit fl 1"
proof -
  obtain s1 where m: "with_vm (handle_map 1 0 0) sh_example = (s1, Inr USER_MMAP_BASE)" using sh_example_maps by blast
  have r: "require 1 RIGHT_MAP (handles (vp_caps (mm_proc sh_example))) = Inr \<lparr>object = SharedFrames 1, rights = RIGHT_READ OR RIGHT_MAP\<rparr>"
    by (simp add: require_def handle_get_def sh_example_def RIGHT_READ_def RIGHT_MAP_def)
  have g: "bt_get (shared_objects (vw_globals (mm_world sh_example))) 1 = Some sh_object" by (simp add: sh_example_def)
  have "hd (so_frames sh_object) = 0x100000" "so_frames sh_object \<noteq> []" by (simp_all add: sh_object_def)
  then show ?thesis
    using readonly_handle_upgraded [OF sh_example_ok r _ _ m g] m by (simp add: RIGHT_READ_def RIGHT_MAP_def RIGHT_WRITE_def) blast
qed

end
