(* ===== verification/Spec2Isabelle.thy ===== *)
theory Spec2Isabelle
  imports Scheduler Ipc Pty Memory_Calls
begin

text \<open>
  Verification of the kernel of dunit-os, a single-processor operating system in Rust. The theories
  model the kernel's own data structures and operations as HOL functions over explicit states, in the
  order the source has them, and prove the properties that make each component correct.

  \<^bold>\<open>Parts and theories.\<close> Every theory names its source file at its head.

  \<^item> \<open>Prelude\<close>: machine integers, \<open>BTreeMap\<close> as a sorted association list, slices, little-endian
    encodings; the interface \<open>keyed_store\<close> of ordered maps.
  \<^item> \<open>Frames\<close>, \<open>Pmm\<close> (\<^verbatim>\<open>memory/pmm.rs\<close>): the contract of a frame allocator and the bitmap allocator
    that implements it, built from the boot memory map.
  \<^item> \<open>Paging\<close> (\<^verbatim>\<open>memory/vmm.rs\<close>): page tables in physical memory and the address spaces built on them.
  \<^item> \<open>Handle_Table\<close>, \<open>Capabilities\<close> (\<^verbatim>\<open>handle.rs\<close> and the handle operations of \<^verbatim>\<open>process/mod.rs\<close>):
    handles with rights, the display and input owners, shared frame objects and their reference
    counts.
  \<^item> \<open>Pipe\<close> (\<^verbatim>\<open>pipe.rs\<close>), \<open>Ipc\<close> (\<^verbatim>\<open>ipc/mod.rs\<close>), \<open>Streams\<close> and \<open>Pty\<close> (\<^verbatim>\<open>pty/mod.rs\<close>): pipes, message
    queues and shared regions, pseudo terminals with their line discipline.
  \<^item> \<open>Scheduler\<close> (\<^verbatim>\<open>process/scheduler.rs\<close>): the ready queue and its round-robin selection.
  \<^item> \<open>Vfs_Path\<close>, \<open>Memfs\<close>, \<open>Vfs\<close> (\<^verbatim>\<open>fs/vfs.rs\<close>, \<^verbatim>\<open>fs/memfs.rs\<close>): path normalisation, the in-memory file
    system, the mount table and open files.
  \<^item> \<open>Fd_Table\<close> (\<^verbatim>\<open>process/mod.rs\<close>): descriptor tables of processes over pipes and the VFS.
  \<^item> \<open>Process_Vm\<close>, \<open>Process_Memory\<close>, \<open>Memory_Calls\<close> (\<^verbatim>\<open>process/mod.rs\<close>, \<^verbatim>\<open>syscall/mod.rs\<close>): the memory of a
    process (anonymous, guarded, file and shared mappings, thread-local storage) over the page tables and the
    shared objects, the memory system calls, and what every sequence of them keeps.

  \<^bold>\<open>How the source is represented.\<close> A struct is a record, an enum a datatype, a \<open>Result\<close> a sum with the
  error on the left, a panic the value \<open>Panic\<close>. Global tables are explicit state, passed in and
  returned. A \<open>usize\<close> is a natural number with the wrapping, saturating and checked operations
  written out; the other integers are words of their width. A loop is a recursive function; a search
  that could run forever is a partial function, and its termination is a theorem. Where one component
  asks another a question (is this process runnable, does it exist), the answer is a function
  argument of the operation.

  \<^bold>\<open>What is shown.\<close> For each component: an invariant of its state under every sequence of operations
  (reference counts of shared objects and descriptors, the tree shape of the file system, bounds of
  queues and rings), the functional behaviour of its operations with their errors, and refinement to
  an abstract description where there is one (streams for pipes and terminals, round robin for the
  scheduler, a component stack for paths). Several theorems record places where the code departs from
  its comments or its intent; they are stated as the code behaves.

  \<^bold>\<open>Not modelled.\<close> Code that only drives hardware (drivers, interrupt entry, serial output), the boot
  loader, the user-space programs and libraries, and debug output. Locks are not represented: the
  kernel runs on one processor and holds a lock for the whole of each operation.
\<close>

end
